(* ===== verification/Prelude.thy ===== *)
theory Prelude
  imports Main "HOL-Library.Word" "HOL-Library.Monad_Syntax"
begin

text \<open>
  Shared vocabulary of the development: names for the machine types of the C code, the
  collections of simplification rules the component theories fill, and the facts on
  lists, options and words that more than one component uses.

  Conventions. A C string is a \<^typ>\<open>string\<close> without its terminating NUL. A pointer to a
  heap object is a natural number (the identity of the object), a nullable pointer an
  option. A function whose C body can run into undefined behaviour (an access outside an
  array, a read past the NUL of a string) returns an option, and \<^const>\<open>None\<close> is
  that outcome.
\<close>

unbundle bit_operations_syntax

type_synonym u8 = "8 word"
type_synonym u16 = "16 word"
type_synonym u32 = "32 word"

type_synonym cptr = nat

text \<open>The size of the line buffers, and of the static buffers the utilities write to.\<close>

definition BUFSIZE :: nat where "BUFSIZE = 512"

named_theorems ircd_defs \<open>definitions unfolded in proofs about single operations\<close>
named_theorems ircd_inv \<open>rules by which operations preserve the component invariants\<close>

section \<open>Words\<close>

lemma unat_push_bit6:
  "unat (push_bit 6 (w :: u32)) = unat w * 64 mod 2 ^ 32"
  by (simp add: push_bit_eq_mult unat_word_ariths mult.commute)

lemma unat_drop_bit6: "unat (drop_bit 6 (w :: u32)) = unat w div 64"
  by (simp add: drop_bit_eq_div unat_div)

lemma unat_and_exp_minus_1: "unat ((w :: 'a::len word) AND (2 ^ k - 1)) = unat w mod 2 ^ k"
proof -
  have "w AND (2 ^ k - 1) = take_bit k w"
    by (simp add: take_bit_eq_mask mask_eq_exp_minus_1)
  then show ?thesis
    by (simp only: unsigned_take_bit_eq) (simp add: take_bit_eq_mod)
qed

lemma and_63_mod: "unat ((w :: u32) AND 63) = unat w mod 64"
  using unat_and_exp_minus_1 [of w 6] by simp

lemma and_63_bound: "unat ((w :: u32) AND 63) < 64"
  using and_63_mod [of w] by simp

lemma unat_two_power: "j < 32 \<Longrightarrow> unat ((2 :: u32) ^ j) = 2 ^ j"
proof -
  assume "j < 32"
  then have "(2 :: nat) ^ j < 2 ^ 32" by (intro power_strict_increasing) auto
  moreover have "(2 :: u32) ^ j = word_of_nat (2 ^ j)" by simp
  ultimately show ?thesis by (simp only: unat_of_nat) simp
qed

lemma word_and_mask_le: "unat (x AND (m :: 'a::len word)) \<le> unat m"
  by (metis word_and_le1 word_le_nat_alt)

section \<open>Characters and lists\<close>

lemma of_char_less_256: "of_char c < (256 :: nat)"
proof -
  have "of_char c mod (256 :: nat) = of_char c"
    by (rule of_char_mod_256)
  then show ?thesis
    by (metis mod_less_divisor zero_less_numeral)
qed

lemma list_all_upt_iff: "list_all P [0..<n] \<longleftrightarrow> (\<forall>i<n. P i)"
  by (auto simp: list_all_iff)

lemma u32_bound: "unat (w :: u32) < 4294967296"
  using unsigned_less [of w, where 'a = nat] by simp

end
