(* ===== verification/Numnicks.thy ===== *)
theory Numnicks
  imports Prelude
begin

text \<open>
  Numeric nicknames (\<^verbatim>\<open>ircd/numnicks.c\<close>): the base-64 codec of the P10 protocol, the table
  of servers and the client table of every server.

  Clients and servers are named by their addresses, natural numbers. The array
  \<^verbatim>\<open>server_list\<close> is a list of fixed length and each \<^verbatim>\<open>client_list\<close> a list whose length
  is what the code allocated; an access outside a table, and a read behind the end of a
  string, is \<^const>\<open>None\<close>. The static variable \<open>last_nn\<close> of \<^verbatim>\<open>SetLocalNumNick\<close> is part of the
  state. The lemmas show that the codec is a bijection on numerics, that allocation finds a
  free slot whenever there is one, and that a registered client is found by its numeric.
\<close>

section \<open>The base-64 digits of the P10 protocol\<close>

definition NUMNICKLOG :: nat where "NUMNICKLOG = 6"
definition NUMNICKMASK :: u32 where "NUMNICKMASK = 63"
definition NN_MAX_SERVER :: nat where "NN_MAX_SERVER = 4096"
definition NN_MAX_CLIENT :: u32 where "NN_MAX_CLIENT = 262144"

definition convert2y :: string where
  "convert2y = ''ABCDEFGHIJKLMNOPQRSTUVWXYZabcdefghijklmnopqrstuvwxyz0123456789[]''"

definition convert2n :: "u32 list" where
  "convert2n =
    [0, 0, 0, 0, 0, 0, 0, 0, 0, 0, 0, 0, 0, 0, 0, 0,
     0, 0, 0, 0, 0, 0, 0, 0, 0, 0, 0, 0, 0, 0, 0, 0,
     0, 0, 0, 0, 0, 0, 0, 0, 0, 0, 0, 0, 0, 0, 0, 0,
     52,53,54,55,56,57,58,59,60,61, 0, 0, 0, 0, 0, 0,
     0, 0, 1, 2, 3, 4, 5, 6, 7, 8, 9,10,11,12,13,14,
     15,16,17,18,19,20,21,22,23,24,25,62, 0,63, 0, 0,
     0,26,27,28,29,30,31,32,33,34,35,36,37,38,39,40,
     41,42,43,44,45,46,47,48,49,50,51, 0, 0, 0, 0, 0,
     0, 0, 0, 0, 0, 0, 0, 0, 0, 0, 0, 0, 0, 0, 0, 0,
     0, 0, 0, 0, 0, 0, 0, 0, 0, 0, 0, 0, 0, 0, 0, 0,
     0, 0, 0, 0, 0, 0, 0, 0, 0, 0, 0, 0, 0, 0, 0, 0,
     0, 0, 0, 0, 0, 0, 0, 0, 0, 0, 0, 0, 0, 0, 0, 0,
     0, 0, 0, 0, 0, 0, 0, 0, 0, 0, 0, 0, 0, 0, 0, 0,
     0, 0, 0, 0, 0, 0, 0, 0, 0, 0, 0, 0, 0, 0, 0, 0,
     0, 0, 0, 0, 0, 0, 0, 0, 0, 0, 0, 0, 0, 0, 0, 0,
     0, 0, 0, 0, 0, 0, 0, 0, 0, 0, 0, 0, 0, 0, 0, 0]"

definition digit_of :: "char \<Rightarrow> u32" where
  "digit_of c = convert2n ! of_char c"

fun base64toint_loop :: "u32 \<Rightarrow> string \<Rightarrow> u32" where
  "base64toint_loop i [] = i"
| "base64toint_loop i (c # s) = base64toint_loop (push_bit NUMNICKLOG i + digit_of c) s"

text \<open>On the empty string the C code steps over the terminating NUL and reads on.\<close>

definition base64toint :: "string \<Rightarrow> u32 option" where
  "base64toint s = (case s of [] \<Rightarrow> None | c # r \<Rightarrow> Some (base64toint_loop (digit_of c) r))"

fun inttobase64 :: "u32 \<Rightarrow> nat \<Rightarrow> string" where
  "inttobase64 v 0 = []"
| "inttobase64 v (Suc count) =
     inttobase64 (drop_bit NUMNICKLOG v) count @ [convert2y ! unat (v AND NUMNICKMASK)]"

section \<open>Server and client tables\<close>

text \<open>
  \<open>nn_server\<close> holds the numeric part of \<^verbatim>\<open>struct Server\<close>; a NULL client list is
  \<^const>\<open>None\<close>, an allocated one maps the indices \<open>0 .. nn_mask\<close> to clients.
  \<open>numnicks\<close> is the state of \<^verbatim>\<open>numnicks.c\<close> together with the client fields it reads:
  the numeric string of every client and the server of every user.
\<close>

record nn_server =
  nn_capacity :: string
  nn_mask :: u32
  client_list :: "(nat \<rightharpoonup> cptr) option"

record numnicks =
  lastNNServer :: u32
  server_list :: "nat \<rightharpoonup> cptr"
  cli_serv :: "cptr \<Rightarrow> nn_server"
  cli_yxx :: "cptr \<Rightarrow> string"
  user_server :: "cptr \<Rightarrow> cptr"
  last_nn :: u32

definition server_at :: "numnicks \<Rightarrow> u32 \<Rightarrow> cptr option option" where
  "server_at st i = (if unat i < NN_MAX_SERVER then Some (server_list st (unat i)) else None)"

definition server_put :: "numnicks \<Rightarrow> u32 \<Rightarrow> cptr option \<Rightarrow> numnicks option" where
  "server_put st i v =
     (if unat i < NN_MAX_SERVER then Some (st\<lparr>server_list := (server_list st)(unat i := v)\<rparr>)
      else None)"

definition client_at :: "numnicks \<Rightarrow> cptr \<Rightarrow> u32 \<Rightarrow> cptr option option" where
  "client_at st srv i =
     (case client_list (cli_serv st srv) of
        None \<Rightarrow> None
      | Some l \<Rightarrow> if unat i \<le> unat (nn_mask (cli_serv st srv)) then Some (l (unat i)) else None)"

definition client_put :: "numnicks \<Rightarrow> cptr \<Rightarrow> u32 \<Rightarrow> cptr option \<Rightarrow> numnicks option" where
  "client_put st srv i v =
     (case client_list (cli_serv st srv) of
        None \<Rightarrow> None
      | Some l \<Rightarrow>
          if unat i \<le> unat (nn_mask (cli_serv st srv))
          then Some (st\<lparr>cli_serv := (cli_serv st)
                 (srv := (cli_serv st srv)\<lparr>client_list := Some (l(unat i := v))\<rparr>)\<rparr>)
          else None)"

definition FindXNServer :: "numnicks \<Rightarrow> string \<Rightarrow> cptr option option" where
  "FindXNServer st numeric = base64toint (take 2 numeric) \<bind> server_at st"

definition FindNServer :: "numnicks \<Rightarrow> string \<Rightarrow> cptr option option" where
  "FindNServer st numeric =
     (if length numeric < 3 then base64toint numeric \<bind> server_at st
      else if length numeric = 3 then server_at st (digit_of (hd numeric))
      else FindXNServer st numeric)"

definition findNUser :: "numnicks \<Rightarrow> string \<Rightarrow> cptr option option" where
  "findNUser st yxx =
     (if length yxx = 5
      then FindXNServer st yxx \<bind> (\<lambda>srv.
             case srv of
               None \<Rightarrow> Some None
             | Some server \<Rightarrow> base64toint (drop 2 yxx) \<bind>
                 (\<lambda>i. client_at st server (i AND nn_mask (cli_serv st server))))
      else FindNServer st yxx \<bind> (\<lambda>srv.
             case srv of
               None \<Rightarrow> Some None
             | Some server \<Rightarrow> base64toint (drop 1 yxx) \<bind>
                 (\<lambda>i. client_at st server (i AND nn_mask (cli_serv st server)))))"

definition RemoveYXXClient :: "numnicks \<Rightarrow> cptr \<Rightarrow> string \<Rightarrow> numnicks option" where
  "RemoveYXXClient st server yxx =
     (if yxx \<noteq> []
      then base64toint yxx \<bind> (\<lambda>i. client_put st server (i AND nn_mask (cli_serv st server)) None)
      else Some st)"

text \<open>
  The numeric strings live in arrays that the code overwrites from the front: with a
  three-character numeric only the leading characters are written and the bytes behind
  them stay. A one-character \<open>yxx\<close> makes the code read past its NUL.
\<close>

definition SetServerYXX :: "numnicks \<Rightarrow> cptr \<Rightarrow> string \<Rightarrow> numnicks option" where
  "SetServerYXX st server yxx =
     (let names =
        (if length yxx = 5 then Some (take 2 yxx, take 3 (drop 2 yxx))
         else if 2 \<le> length yxx
         then Some (hd yxx # tl (cli_yxx st server),
                    take 2 (drop 1 yxx) @
                      (if 3 \<le> length yxx then drop 2 (nn_capacity (cli_serv st server)) else []))
         else None)
      in names \<bind> (\<lambda>(y, cap).
         base64toint cap \<bind> (\<lambda>mask.
         base64toint y \<bind> (\<lambda>index.
         server_put
           (st\<lparr>cli_yxx := (cli_yxx st)(server := y),
              cli_serv := (cli_serv st)(server :=
                 \<lparr>nn_capacity = cap, nn_mask = mask, client_list = Some (\<lambda>_. None)\<rparr>),
              lastNNServer := (if index \<ge> lastNNServer st then index + 1 else lastNNServer st)\<rparr>)
           index (Some server)))))"

partial_function (option) capacity_loop :: "u32 \<Rightarrow> u32 \<Rightarrow> u32 option" where
  "capacity_loop max_clients capacity =
     (if max_clients < capacity then capacity_loop (push_bit 1 max_clients) capacity
      else Some max_clients)"

declare capacity_loop.simps [code]

datatype nn_exit = MaxClientsTooLarge

definition SetYXXCapacity :: "numnicks \<Rightarrow> cptr \<Rightarrow> u32 \<Rightarrow> (nn_exit + numnicks) option" where
  "SetYXXCapacity st c capacity =
     capacity_loop 16 capacity \<bind> (\<lambda>max_clients.
       if max_clients > NN_MAX_CLIENT then Some (Inl MaxClientsTooLarge)
       else let mask = max_clients - 1 in
         base64toint (cli_yxx st c) \<bind> (\<lambda>index.
         map_option Inr (server_put
           (st\<lparr>cli_serv := (cli_serv st)(c :=
               \<lparr>nn_capacity = inttobase64 mask 3, nn_mask = mask, client_list = Some (\<lambda>_. None)\<rparr>)\<rparr>)
           index (Some c))))"

definition SetYXXServerName :: "numnicks \<Rightarrow> cptr \<Rightarrow> u32 \<Rightarrow> numnicks option" where
  "SetYXXServerName st c numeric =
     server_put
       (st\<lparr>cli_yxx := (cli_yxx st)(c := inttobase64 numeric 2),
          lastNNServer := (if numeric \<ge> lastNNServer st then numeric + 1 else lastNNServer st)\<rparr>)
       numeric (Some c)"

definition ClearServerYXX :: "numnicks \<Rightarrow> cptr \<Rightarrow> numnicks option" where
  "ClearServerYXX st server =
     base64toint (cli_yxx st server) \<bind> (\<lambda>index.
     server_at st index \<bind> (\<lambda>s.
     if s = Some server then server_put st index None else Some st))"

text \<open>
  A remote user whose slot is taken pushes the old client out: \<open>exit_numnick\<close> is what
  \<^verbatim>\<open>exit_one_client\<close> does to the numeric tables. The second result is the client that
  was exited.
\<close>

definition exit_numnick :: "numnicks \<Rightarrow> cptr \<Rightarrow> numnicks option" where
  "exit_numnick st bcptr = RemoveYXXClient st (user_server st bcptr) (cli_yxx st bcptr)"

definition SetRemoteNumNick ::
  "numnicks \<Rightarrow> cptr \<Rightarrow> string \<Rightarrow> (numnicks \<times> cptr option) option" where
  "SetRemoteNumNick st acptr yxx =
     (let server = user_server st acptr;
          name = (if length yxx = 5 then Some (drop 2 yxx)
                  else if 2 \<le> length yxx then Some (take 2 (drop 1 yxx)) else None)
      in name \<bind> (\<lambda>y.
         let st1 = st\<lparr>cli_yxx := (cli_yxx st)(acptr := y)\<rparr> in
         base64toint y \<bind> (\<lambda>n.
         let i = n AND nn_mask (cli_serv st1 server) in
         client_at st1 server i \<bind> (\<lambda>old.
         (case old of None \<Rightarrow> Some st1 | Some ghost \<Rightarrow> exit_numnick st1 ghost) \<bind> (\<lambda>st2.
         map_option (\<lambda>st3. (st3, old)) (client_put st2 server i (Some acptr)))))))"

function slot_search :: "(nat \<rightharpoonup> cptr) \<Rightarrow> u32 \<Rightarrow> u32 \<Rightarrow> u32 \<Rightarrow> bool \<times> u32" where
  "slot_search l msk count nn =
     (if l (unat (nn AND msk)) = None then (True, nn)
      else if count + 1 = NN_MAX_CLIENT then (False, nn)
      else slot_search l msk (count + 1) (if nn + 1 = NN_MAX_CLIENT then 0 else nn + 1))"
  by pat_completeness auto
termination
proof (relation "measure (\<lambda>(l, msk, count, nn). unat (NN_MAX_CLIENT - count - 1))", goal_cases)
  case 1
  show ?case by simp
next
  case (2 l msk count nn)
  then have "NN_MAX_CLIENT - count - 1 \<noteq> 0"
    by (metis add.commute diff_diff_add right_minus_eq)
  then have "unat (NN_MAX_CLIENT - count - 1 - 1) < unat (NN_MAX_CLIENT - count - 1)"
    by (rule measure_unat)
  moreover have "NN_MAX_CLIENT - (count + 1) - 1 = NN_MAX_CLIENT - count - 1 - 1"
    by (simp only: diff_diff_add)
  ultimately show ?case by (simp only: in_measure case_prod_conv)
qed

declare slot_search.simps [simp del]

definition SetLocalNumNick :: "numnicks \<Rightarrow> cptr \<Rightarrow> cptr \<Rightarrow> (numnicks \<times> bool) option" where
  "SetLocalNumNick st me c =
     (case client_list (cli_serv st me) of
        None \<Rightarrow> None
      | Some l \<Rightarrow>
          (case slot_search l (nn_mask (cli_serv st me)) 0 (last_nn st) of
             (False, nn) \<Rightarrow> Some (st\<lparr>last_nn := nn\<rparr>, False)
           | (True, nn) \<Rightarrow>
               map_option
                 (\<lambda>st1. (st1\<lparr>cli_yxx := (cli_yxx st1)(c := inttobase64 nn 3),
                           last_nn := (if nn + 1 = NN_MAX_CLIENT then 0 else nn + 1)\<rparr>, True))
                 (client_put st me (nn AND nn_mask (cli_serv st me)) (Some c))))"

section \<open>Digits and numbers\<close>

lemma length_convert2y: "length convert2y = 64"
  by (simp add: convert2y_def)

lemma map_digit_of_convert2y: "map digit_of convert2y = map word_of_nat [0..<64]"
  by (simp add: convert2y_def digit_of_def upt_conv_Cons) (simp add: convert2n_def)

lemma digit_of_convert2y:
  assumes "v < 64"
  shows "digit_of (convert2y ! v) = word_of_nat v"
proof -
  have "map digit_of convert2y ! v = map word_of_nat [0..<64] ! v"
    by (simp only: map_digit_of_convert2y)
  then show ?thesis
    using assms by (simp add: length_convert2y)
qed

lemma convert2n_bound_all: "list_all (\<lambda>w. unat w < 64) convert2n \<and> length convert2n = 256"
  by (simp add: convert2n_def)

lemma digit_of_bound: "unat (digit_of c) < 64"
proof -
  have "of_char c < (256 :: nat)" by (rule of_char_less_256)
  then have "convert2n ! of_char c \<in> set convert2n"
    using convert2n_bound_all by (intro nth_mem) simp
  then show ?thesis
    using convert2n_bound_all by (simp add: digit_of_def list_all_iff)
qed

lemma length_inttobase64 [simp]: "length (inttobase64 v n) = n"
  by (induction v n rule: inttobase64.induct) auto

lemma inttobase64_Nil_iff [simp]: "inttobase64 v n = [] \<longleftrightarrow> n = 0"
  by (cases n) auto

lemma base64toint_loop_snoc:
  "base64toint_loop i (s @ [c]) = push_bit 6 (base64toint_loop i s) + digit_of c"
  by (induction s arbitrary: i) (auto simp: NUMNICKLOG_def)

lemma base64toint_Some: "s \<noteq> [] \<Longrightarrow> base64toint s = Some (base64toint_loop 0 s)"
  by (cases s) (auto simp: base64toint_def)

lemma base64toint_loop_inttobase64:
  "unat v < 64 ^ n \<Longrightarrow> base64toint_loop i (inttobase64 v n) = push_bit (6 * n) i + v"
proof (induction n arbitrary: v)
  case 0
  then show ?case by (simp add: unat_eq_zero)
next
  case (Suc n)
  have small: "unat (drop_bit 6 v) < 64 ^ n"
    using Suc.prems by (simp add: unat_drop_bit6 less_mult_imp_div_less mult.commute)
  have digit: "digit_of (convert2y ! unat (v AND NUMNICKMASK)) = take_bit 6 v"
  proof -
    have "unat (v AND NUMNICKMASK) < 64"
      by (simp add: NUMNICKMASK_def and_63_mod)
    then have "digit_of (convert2y ! unat (v AND NUMNICKMASK)) = v AND NUMNICKMASK"
      by (simp add: digit_of_convert2y)
    then show ?thesis
      by (simp add: NUMNICKMASK_def take_bit_eq_mask mask_eq_exp_minus_1)
  qed
  have "base64toint_loop i (inttobase64 v (Suc n)) =
      push_bit 6 (push_bit (6 * n) i + drop_bit 6 v) + take_bit 6 v"
    by (simp add: base64toint_loop_snoc digit Suc.IH [OF small] NUMNICKLOG_def)
  also have "\<dots> = push_bit (6 * Suc n) i + (push_bit 6 (drop_bit 6 v) + take_bit 6 v)"
    by (simp add: push_bit_add ac_simps)
  also have "push_bit 6 (drop_bit 6 v) + take_bit 6 v = v"
    by (rule bits_ident)
  finally show ?case .
qed

lemma base64toint_loop_bound:
  "length s \<le> 5 \<Longrightarrow> unat (base64toint_loop 0 s) < 64 ^ length s"
proof (induction s rule: rev_induct)
  case Nil
  then show ?case by simp
next
  case (snoc c s)
  let ?l = "base64toint_loop 0 s"
  have l: "unat ?l < 64 ^ length s" using snoc by simp
  have "(64 :: nat) ^ length s \<le> 64 ^ 4"
    using snoc.prems by (intro power_increasing) auto
  then have small: "unat ?l < 2 ^ 24" using l by simp
  then have "unat (push_bit 6 ?l) = unat ?l * 64"
    by (simp add: unat_push_bit6)
  moreover have "unat (push_bit 6 ?l + digit_of c) \<le> unat (push_bit 6 ?l) + unat (digit_of c)"
    by (simp add: unat_word_ariths)
  moreover have "unat (digit_of c) < 64" by (rule digit_of_bound)
  ultimately have "unat (push_bit 6 ?l + digit_of c) < unat ?l * 64 + 64" by linarith
  also have "\<dots> \<le> 64 ^ length s * 64" using l by simp
  finally show ?case by (simp add: base64toint_loop_snoc)
qed

lemma convert2y_digit_of: "c \<in> set convert2y \<Longrightarrow> convert2y ! unat (digit_of c) = c"
  by (auto simp: in_set_conv_nth length_convert2y digit_of_convert2y unat_of_nat)

lemma snoc_digit_parts:
  assumes "unat (l :: u32) < 2 ^ 26" and "unat d < 64"
  shows "drop_bit 6 (push_bit 6 l + d) = l" and "(push_bit 6 l + d) AND 63 = d"
proof -
  have u: "unat (push_bit 6 l + d) = unat l * 64 + unat d"
    using assms by (simp add: unat_push_bit6 unat_word_ariths)
  show "drop_bit 6 (push_bit 6 l + d) = l"
    using assms(2) by (intro word_unat_eq_iff [THEN iffD2]) (simp add: unat_drop_bit6 u)
  show "(push_bit 6 l + d) AND 63 = d"
    using assms(2) by (intro word_unat_eq_iff [THEN iffD2]) (simp add: and_63_mod u)
qed

lemma inttobase64_base64toint_loop:
  "set s \<subseteq> set convert2y \<Longrightarrow> length s \<le> 5 \<Longrightarrow>
   inttobase64 (base64toint_loop 0 s) (length s) = s"
proof (induction s rule: rev_induct)
  case Nil
  then show ?case by simp
next
  case (snoc c s)
  let ?l = "base64toint_loop 0 s"
  have "unat ?l < 64 ^ length s" using snoc.prems by (intro base64toint_loop_bound) simp
  moreover have "(64 :: nat) ^ length s \<le> 64 ^ 4"
    using snoc.prems by (intro power_increasing) auto
  ultimately have "unat ?l < 2 ^ 26" by simp
  note parts = snoc_digit_parts [OF this digit_of_bound [of c]]
  show ?case
    using snoc by (simp add: base64toint_loop_snoc NUMNICKLOG_def NUMNICKMASK_def parts
        convert2y_digit_of)
qed

text \<open>C28. Numerics of up to five digits and the numbers below \<open>64 ^ n\<close> are in bijection:
  decoding an encoded number gives it back, and every string of \<open>n\<close> numeric digits is
  the encoding of the number it decodes to.\<close>

theorem numnick_bijection:
  assumes "0 < n" and "n \<le> 5"
  shows "(\<forall>v. unat v < 64 ^ n \<longrightarrow> base64toint (inttobase64 v n) = Some v) \<and>
    (\<forall>s. length s = n \<and> set s \<subseteq> set convert2y \<longrightarrow>
       (\<exists>v. base64toint s = Some v \<and> unat v < 64 ^ n \<and> inttobase64 v n = s))"
proof (intro conjI allI impI)
  fix v :: u32 assume "unat v < 64 ^ n"
  then show "base64toint (inttobase64 v n) = Some v"
    using assms(1) by (simp add: base64toint_Some base64toint_loop_inttobase64)
next
  fix s assume s: "length s = n \<and> set s \<subseteq> set convert2y"
  then have "s \<noteq> []" using assms(1) by auto
  then show "\<exists>v. base64toint s = Some v \<and> unat v < 64 ^ n \<and> inttobase64 v n = s"
    using s assms(2) base64toint_loop_bound [of s] inttobase64_base64toint_loop [of s]
    by (simp add: base64toint_Some)
qed

theorem numnick_bijection_witness:
  "base64toint (inttobase64 262143 3) = Some 262143 \<and>
   (\<exists>v. base64toint ''ABAAQ'' = Some v \<and> unat v < 64 ^ 5 \<and> inttobase64 v 5 = ''ABAAQ'')"
  using numnick_bijection [of 3] numnick_bijection [of 5] by (simp add: convert2y_def)

section \<open>Access to the tables\<close>

lemma client_at_and_mask:
  "client_list (cli_serv st srv) = Some l \<Longrightarrow>
   client_at st srv (i AND nn_mask (cli_serv st srv)) =
     Some (l (unat (i AND nn_mask (cli_serv st srv))))"
  by (simp add: client_at_def word_and_mask_le)

lemma client_put_and_mask:
  "client_list (cli_serv st srv) = Some l \<Longrightarrow>
   client_put st srv (i AND nn_mask (cli_serv st srv)) v =
     Some (st\<lparr>cli_serv := (cli_serv st)(srv := (cli_serv st srv)
        \<lparr>client_list := Some (l(unat (i AND nn_mask (cli_serv st srv)) := v))\<rparr>)\<rparr>)"
  by (simp add: client_put_def word_and_mask_le)

lemma base64toint_server_index:
  assumes "numeric \<noteq> []"
  shows "\<exists>i. base64toint (take 2 numeric) = Some i \<and> unat i < NN_MAX_SERVER"
proof -
  have "unat (base64toint_loop 0 (take 2 numeric)) < 64 ^ length (take 2 numeric)"
    by (rule base64toint_loop_bound) simp
  also have "(64 :: nat) ^ length (take 2 numeric) \<le> 64 ^ 2"
    by (intro power_increasing) auto
  finally show ?thesis
    using assms by (simp add: base64toint_Some NN_MAX_SERVER_def)
qed

lemma server_at_digit: "\<exists>r. server_at st (digit_of c) = Some r"
  using digit_of_bound [of c] by (simp add: server_at_def NN_MAX_SERVER_def)

lemma FindXNServer_defined: "numeric \<noteq> [] \<Longrightarrow> \<exists>r. FindXNServer st numeric = Some r"
  using base64toint_server_index [of numeric] by (auto simp: FindXNServer_def server_at_def)

lemma FindNServer_defined: "numeric \<noteq> [] \<Longrightarrow> \<exists>r. FindNServer st numeric = Some r"
proof (cases "length numeric < 3")
  case True
  assume "numeric \<noteq> []"
  moreover from True have "take 2 numeric = numeric" by simp
  ultimately show ?thesis
    using True base64toint_server_index [of numeric] by (auto simp: FindNServer_def server_at_def)
next
  case False
  assume "numeric \<noteq> []"
  then show ?thesis
    using False FindXNServer_defined server_at_digit by (auto simp: FindNServer_def)
qed

lemma Find_server_cong:
  assumes "server_list st = server_list st'"
  shows "FindXNServer st = FindXNServer st'" and "FindNServer st = FindNServer st'"
proof -
  have "server_at st = server_at st'"
    using assms by (auto simp: server_at_def)
  then show "FindXNServer st = FindXNServer st'" and "FindNServer st = FindNServer st'"
    by (auto simp: FindXNServer_def FindNServer_def)
qed

section \<open>The slot invariant\<close>

text \<open>
  Every client stored in a slot of a server's list belongs to that server, and its own
  numeric names that slot.
\<close>

definition in_slot :: "numnicks \<Rightarrow> cptr \<Rightarrow> nat \<Rightarrow> cptr \<Rightarrow> bool" where
  "in_slot st srv i c \<longleftrightarrow> (\<exists>l. client_list (cli_serv st srv) = Some l \<and> l i = Some c)"

definition names_slot :: "numnicks \<Rightarrow> cptr \<Rightarrow> cptr \<Rightarrow> nat \<Rightarrow> bool" where
  "names_slot st srv c i \<longleftrightarrow> cli_yxx st c \<noteq> [] \<and>
     unat (base64toint_loop 0 (cli_yxx st c) AND nn_mask (cli_serv st srv)) = i"

definition slot_inv :: "numnicks \<Rightarrow> bool" where
  "slot_inv st \<longleftrightarrow> (\<forall>srv i c. in_slot st srv i c \<longrightarrow> user_server st c = srv \<and> names_slot st srv c i)"

lemma slot_invD:
  "slot_inv st \<Longrightarrow> in_slot st srv i c \<Longrightarrow> user_server st c = srv \<and> names_slot st srv c i"
  by (simp add: slot_inv_def)

text \<open>A numeric of the five-character form leads to the server and the slot it spells.\<close>

lemma findNUser_five:
  assumes "length y = 2" and "length x = 3"
    and "base64toint y = Some idx" and "server_list st (unat idx) = Some srv"
    and "client_list (cli_serv st srv) = Some l"
  shows "findNUser st (y @ x) =
    Some (l (unat (base64toint_loop 0 x AND nn_mask (cli_serv st srv))))"
proof -
  have "FindXNServer st (y @ x) = Some (Some srv)"
    using base64toint_server_index [of y] assms
    by (cases y) (auto simp: FindXNServer_def server_at_def)
  moreover have "base64toint x = Some (base64toint_loop 0 x)"
    using assms(2) by (intro base64toint_Some) auto
  ultimately show ?thesis
    using assms by (simp add: findNUser_def client_at_and_mask)
qed

text \<open>Filling an empty slot keeps every earlier lookup.\<close>

lemma client_at_fill:
  "client_list (cli_serv st srv) = Some l \<Longrightarrow> l i = None \<Longrightarrow>
   client_at st s j = Some (Some d) \<Longrightarrow>
   client_at (st\<lparr>cli_serv := (cli_serv st)(srv := (cli_serv st srv)
        \<lparr>client_list := Some (l(i := v))\<rparr>)\<rparr>) s j = Some (Some d)"
  by (auto simp: client_at_def split: if_splits option.splits)

lemma findNUser_fill:
  assumes "client_list (cli_serv st srv) = Some l" and "l i = None"
    and "findNUser st yxx = Some (Some d)"
  shows "findNUser (st\<lparr>cli_serv := (cli_serv st)(srv := (cli_serv st srv)
        \<lparr>client_list := Some (l(i := v))\<rparr>)\<rparr>) yxx = Some (Some d)"
    (is "findNUser ?st' yxx = _")
proof -
  have masks: "nn_mask (cli_serv ?st' s) = nn_mask (cli_serv st s)" for s by simp
  have servers: "FindXNServer ?st' = FindXNServer st" "FindNServer ?st' = FindNServer st"
    by (rule Find_server_cong; simp)+
  show ?thesis
    using assms(3) unfolding findNUser_def servers masks
    by (auto split: if_splits option.splits bind_splits dest!: client_at_fill [OF assms(1,2), of _ _ _ v])
qed

section \<open>Local allocation\<close>

lemma slot_search_free: "slot_search l msk cnt nn = (True, r) \<Longrightarrow> l (unat (r AND msk)) = None"
proof (induction l msk cnt nn rule: slot_search.induct)
  case (1 l msk cnt nn)
  then show ?case
    by (auto simp: slot_search.simps [of l msk cnt nn] split: if_splits)
qed

lemma unat_next_nn:
  assumes "unat nn < 2 ^ 18"
  shows "unat (if nn + 1 = NN_MAX_CLIENT then 0 else nn + 1) = (unat nn + 1) mod 2 ^ 18"
proof -
  have u: "unat (nn + 1) = unat nn + 1"
    using assms by (simp add: unat_word_ariths)
  then have "nn + 1 = NN_MAX_CLIENT \<longleftrightarrow> unat nn + 1 = 2 ^ 18"
    by (simp add: word_unat_eq_iff NN_MAX_CLIENT_def)
  then show ?thesis
    using assms u by auto
qed

lemma slot_search_bound:
  "unat nn < 2 ^ 18 \<Longrightarrow> slot_search l msk cnt nn = (b, r) \<Longrightarrow> unat r < 2 ^ 18"
proof (induction l msk cnt nn rule: slot_search.induct)
  case (1 l msk cnt nn)
  have "unat (if nn + 1 = NN_MAX_CLIENT then 0 else nn + 1) < 2 ^ 18"
    using "1.prems"(1) by (simp only: unat_next_nn) simp
  with 1 show ?case
    by (auto simp: slot_search.simps [of l msk cnt nn] split: if_splits)
qed

lemma slot_search_finds:
  assumes "unat nn < 2 ^ 18" and "unat cnt + t < 2 ^ 18"
    and "\<And>w. unat w = (unat nn + t) mod 2 ^ 18 \<Longrightarrow> l (unat (w AND msk)) = None"
  shows "\<exists>r. slot_search l msk cnt nn = (True, r)"
  using assms
proof (induction t arbitrary: cnt nn)
  case 0
  then show ?case by (subst slot_search.simps) simp
next
  case (Suc t)
  show ?case
  proof (cases "l (unat (nn AND msk)) = None")
    case True
    then show ?thesis by (subst slot_search.simps) simp
  next
    case False
    let ?next = "if nn + 1 = NN_MAX_CLIENT then 0 else nn + 1"
    have c: "unat (cnt + 1) = unat cnt + 1"
      using Suc.prems(2) by (simp add: unat_word_ariths)
    have not_last: "cnt + 1 \<noteq> NN_MAX_CLIENT"
      using Suc.prems(2) c by (auto simp: word_unat_eq_iff NN_MAX_CLIENT_def)
    have n: "unat ?next = (unat nn + 1) mod 2 ^ 18"
      using Suc.prems(1) by (rule unat_next_nn)
    have "\<exists>r. slot_search l msk (cnt + 1) ?next = (True, r)"
    proof (rule Suc.IH)
      show "unat ?next < 2 ^ 18" by (simp only: n) simp
      show "unat (cnt + 1) + t < 2 ^ 18" using Suc.prems(2) c by simp
      fix w :: u32 assume "unat w = (unat ?next + t) mod 2 ^ 18"
      then have "unat w = (unat nn + Suc t) mod 2 ^ 18"
        by (simp only: n mod_add_left_eq) simp
      then show "l (unat (w AND msk)) = None" by (rule Suc.prems(3))
    qed
    with False not_last show ?thesis by (subst slot_search.simps) auto
  qed
qed

lemma residue_reached:
  fixes n i p :: nat
  assumes "i < p"
  obtains t where "t < p" and "(n + t) mod p = i"
proof
  let ?t = "(i + (p - n mod p)) mod p"
  show "?t < p" using assms by simp
  have "(n + ?t) mod p = (n mod p + (i + (p - n mod p))) mod p"
    by (simp add: mod_add_left_eq mod_add_right_eq)
  also have "n mod p + (i + (p - n mod p)) = i + p"
    using mod_less_divisor [of p n] assms by linarith
  finally show "(n + ?t) mod p = i" using assms by simp
qed

lemma slot_search_complete:
  assumes k: "k \<le> 18" and nn: "unat nn < 2 ^ 18"
    and i: "i < 2 ^ k" and free: "l i = None"
  shows "\<exists>r. slot_search l (2 ^ k - 1) 0 nn = (True, r)"
proof -
  obtain t where t: "t < 2 ^ k" "(unat nn + t) mod 2 ^ k = i"
    using residue_reached [OF i] by blast
  have le: "(2 :: nat) ^ k \<le> 2 ^ 18"
    using k by (intro power_increasing) auto
  have "(2 :: nat) ^ k dvd 2 ^ 18" using k by (rule le_imp_power_dvd)
  then have "(unat nn + t) mod 2 ^ 18 mod 2 ^ k = i"
    using t(2) by (simp only: mod_mod_cancel)
  then show ?thesis
    using nn t(1) le free by (intro slot_search_finds [where t = t]) (auto simp: unat_and_exp_minus_1)
qed

lemma findNUser_cong:
  assumes "server_list st = server_list st'" and "cli_serv st = cli_serv st'"
  shows "findNUser st = findNUser st'"
proof -
  have "client_at st = client_at st'"
    by (intro ext) (simp add: client_at_def assms(2) cong: option.case_cong)
  then show ?thesis
    by (intro ext)
      (simp add: findNUser_def Find_server_cong [OF assms(1)] assms(2) del: One_nat_def)
qed

text \<open>What a successful local allocation does to the tables.\<close>

lemma SetLocalNumNick_eq:
  assumes "client_list (cli_serv st me) = Some l"
    and "slot_search l (nn_mask (cli_serv st me)) 0 (last_nn st) = (True, r)"
  shows "SetLocalNumNick st me c = Some
    (st\<lparr>cli_serv := (cli_serv st)(me := (cli_serv st me)
         \<lparr>client_list := Some (l(unat (r AND nn_mask (cli_serv st me)) := Some c))\<rparr>),
       cli_yxx := (cli_yxx st)(c := inttobase64 r 3),
       last_nn := (if r + 1 = NN_MAX_CLIENT then 0 else r + 1)\<rparr>, True)"
  using assms by (simp add: SetLocalNumNick_def client_put_and_mask)

lemma slot_inv_fill:
  assumes "slot_inv st" and "client_list (cli_serv st srv) = Some l"
    and "\<And>s i. \<not> in_slot st s i c" and "user_server st c = srv" and "y \<noteq> []"
    and "unat (base64toint_loop 0 y AND nn_mask (cli_serv st srv)) = slot"
  shows "slot_inv (st\<lparr>cli_serv := (cli_serv st)(srv := (cli_serv st srv)
         \<lparr>client_list := Some (l(slot := Some c))\<rparr>), cli_yxx := (cli_yxx st)(c := y)\<rparr>)"
proof -
  have old: "in_slot st srv i d" if "l i = Some d" for i d
    using that assms(2) by (simp add: in_slot_def)
  show ?thesis
    unfolding slot_inv_def
    using assms slot_invD [OF assms(1)] old
    by (fastforce simp: in_slot_def names_slot_def split: if_splits)
qed

lemma slot_inv_cong:
  "cli_serv st = cli_serv st' \<Longrightarrow> cli_yxx st = cli_yxx st' \<Longrightarrow> user_server st = user_server st' \<Longrightarrow>
   slot_inv st = slot_inv st'"
  by (simp add: slot_inv_def in_slot_def names_slot_def)

text \<open>C27. If one slot of our client list is free, \<open>SetLocalNumNick\<close> succeeds: it stores the
  client in a slot that was free, gives it a numeric by which \<open>findNUser\<close> finds it, keeps
  the slot invariant, and leaves every earlier lookup as it was.\<close>

theorem SetLocalNumNick_allocates:
  assumes inv: "slot_inv st" and l: "client_list (cli_serv st me) = Some l"
    and mask: "nn_mask (cli_serv st me) = 2 ^ k - 1" and k: "k \<le> 18"
    and nn: "unat (last_nn st) < 2 ^ 18"
    and free: "i < 2 ^ k" "l i = None"
    and fresh: "\<And>s j. \<not> in_slot st s j c" and user: "user_server st c = me" "c \<noteq> me"
    and me: "length (cli_yxx st me) = 2" "base64toint (cli_yxx st me) = Some idx"
      "server_list st (unat idx) = Some me"
  shows "\<exists>st'. SetLocalNumNick st me c = Some (st', True) \<and> slot_inv st' \<and>
    findNUser st' (cli_yxx st' me @ cli_yxx st' c) = Some (Some c) \<and>
    (\<forall>yxx d. findNUser st yxx = Some (Some d) \<longrightarrow> findNUser st' yxx = Some (Some d))"
proof -
  obtain r where r: "slot_search l (2 ^ k - 1) 0 (last_nn st) = (True, r)"
    using slot_search_complete [where l = l, OF k nn free] by blast
  define slot where "slot = unat (r AND nn_mask (cli_serv st me))"
  have empty: "l slot = None"
    using slot_search_free [OF r] by (simp add: slot_def mask)
  have "unat r < 64 ^ 3" using slot_search_bound [OF nn r] by simp
  then have digits: "base64toint_loop 0 (inttobase64 r 3) = r"
    by (simp add: base64toint_loop_inttobase64)
  define st1 where "st1 = st\<lparr>cli_serv := (cli_serv st)(me := (cli_serv st me)
         \<lparr>client_list := Some (l(slot := Some c))\<rparr>), cli_yxx := (cli_yxx st)(c := inttobase64 r 3)\<rparr>"
  define st' where "st' = st1\<lparr>last_nn := (if r + 1 = NN_MAX_CLIENT then 0 else r + 1)\<rparr>"
  have eq: "SetLocalNumNick st me c = Some (st', True)"
    using SetLocalNumNick_eq [OF l] r by (simp add: mask st'_def st1_def slot_def)
  have ne: "inttobase64 r 3 \<noteq> []" by (simp add: numeral_3_eq_3)
  have slot: "unat (base64toint_loop 0 (inttobase64 r 3) AND nn_mask (cli_serv st me)) = slot"
    by (simp add: digits slot_def)
  have "slot_inv st1"
    unfolding st1_def by (rule slot_inv_fill [OF inv l fresh user(1) ne slot])
  then have inv': "slot_inv st'"
    using slot_inv_cong [of st' st1] by (simp add: st'_def)
  have found: "findNUser st' (cli_yxx st' me @ cli_yxx st' c) = Some (Some c)"
  proof -
    have "findNUser st' (cli_yxx st' me @ cli_yxx st' c) =
      Some ((l(slot := Some c)) (unat (base64toint_loop 0 (cli_yxx st' c) AND nn_mask (cli_serv st' me))))"
      using me user(2) by (intro findNUser_five [of _ _ idx]) (simp_all add: st'_def st1_def fun_upd_def)
    then show ?thesis
      using user(2) by (simp add: st'_def st1_def digits slot_def)
  qed
  have kept: "findNUser st' yxx = Some (Some d)" if "findNUser st yxx = Some (Some d)" for yxx d
    using findNUser_fill [OF l empty that, of "Some c"]
      findNUser_cong [of st' "st\<lparr>cli_serv := (cli_serv st)(me := (cli_serv st me)
        \<lparr>client_list := Some (l(slot := Some c))\<rparr>)\<rparr>"] by (simp add: st'_def st1_def)
  show ?thesis using eq inv' found kept by blast
qed

section \<open>Witness network\<close>

text \<open>
  One server (identity 1, numeric \<open>AB\<close>, sixteen slots) with one user (identity 7) in slot 0
  and an unregistered user 9 of the same server.
\<close>

definition demo_net :: numnicks where
  "demo_net = \<lparr>lastNNServer = 2, server_list = [1 \<mapsto> 1],
     cli_serv = (\<lambda>_. \<lparr>nn_capacity = [], nn_mask = 0, client_list = None\<rparr>)
       (1 := \<lparr>nn_capacity = ''AAP'', nn_mask = 15, client_list = Some [0 \<mapsto> 7]\<rparr>),
     cli_yxx = (\<lambda>_. [])(1 := ''AB'', 7 := ''AAA''),
     user_server = (\<lambda>_. 1), last_nn = 0\<rparr>"

lemma demo_net_digits: "base64toint ''AB'' = Some 1" "digit_of CHR ''A'' = 0"
  by code_simp+

lemma demo_net_inv: "slot_inv demo_net"
  by (auto simp: slot_inv_def in_slot_def names_slot_def demo_net_def demo_net_digits
      split: if_splits)

theorem SetLocalNumNick_allocates_witness:
  "\<exists>st'. SetLocalNumNick demo_net 1 9 = Some (st', True) \<and> slot_inv st' \<and>
    findNUser st' (cli_yxx st' 1 @ cli_yxx st' 9) = Some (Some 9) \<and>
    findNUser st' ''ABAAA'' = Some (Some 7)"
proof -
  have old: "findNUser demo_net ''ABAAA'' = Some (Some 7)" by code_simp
  have "\<exists>st'. SetLocalNumNick demo_net 1 9 = Some (st', True) \<and> slot_inv st' \<and>
      findNUser st' (cli_yxx st' 1 @ cli_yxx st' 9) = Some (Some 9) \<and>
      (\<forall>yxx d. findNUser demo_net yxx = Some (Some d) \<longrightarrow> findNUser st' yxx = Some (Some d))"
    using demo_net_inv
    by (rule SetLocalNumNick_allocates [where l = "[0 \<mapsto> 7]" and k = 4 and i = 3 and idx = 1])
      (auto simp: demo_net_def in_slot_def demo_net_digits split: if_splits)
  with old show ?thesis by blast
qed

section \<open>Remote registration\<close>

lemma RemoveYXXClient_eq:
  "yxx \<noteq> [] \<Longrightarrow> client_list (cli_serv st srv) = Some l \<Longrightarrow>
   RemoveYXXClient st srv yxx = Some (st\<lparr>cli_serv := (cli_serv st)(srv := (cli_serv st srv)
      \<lparr>client_list := Some (l(unat (base64toint_loop 0 yxx AND nn_mask (cli_serv st srv)) := None))\<rparr>)\<rparr>)"
  by (simp add: RemoveYXXClient_def base64toint_Some client_put_and_mask)

text \<open>The ghost of a slot is removed from exactly that slot, whatever the new numeric is.\<close>

lemma SetRemoteNumNick_eq:
  assumes inv: "slot_inv st" and l: "client_list (cli_serv st srv) = Some l"
    and user: "user_server st c = srv" and fresh: "\<And>s j. \<not> in_slot st s j c"
    and yxx: "length yxx = 5"
  defines "slot \<equiv> unat (base64toint_loop 0 (drop 2 yxx) AND nn_mask (cli_serv st srv))"
  shows "SetRemoteNumNick st c yxx = Some
    (st\<lparr>cli_serv := (cli_serv st)(srv := (cli_serv st srv)
         \<lparr>client_list := Some (l(slot := Some c))\<rparr>),
       cli_yxx := (cli_yxx st)(c := drop 2 yxx)\<rparr>, l slot)"
proof -
  define st1 where "st1 = st\<lparr>cli_yxx := (cli_yxx st)(c := drop 2 yxx)\<rparr>"
  have l1: "client_list (cli_serv st1 srv) = Some l" using l by (simp add: st1_def)
  have name: "base64toint (drop 2 yxx) = Some (base64toint_loop 0 (drop 2 yxx))"
    using yxx by (intro base64toint_Some) auto
  have at: "client_at st1 srv (base64toint_loop 0 (drop 2 yxx) AND nn_mask (cli_serv st1 srv)) =
      Some (l slot)"
    using client_at_and_mask [OF l1] by (simp add: slot_def st1_def)
  show ?thesis
  proof (cases "l slot")
    case None
    then show ?thesis
      using l at by (simp add: SetRemoteNumNick_def yxx user name flip: st1_def)
        (simp add: st1_def client_put_def word_and_mask_le slot_def)
  next
    case (Some ghost)
    have "in_slot st srv slot ghost" using l Some by (simp add: in_slot_def)
    then have g: "user_server st ghost = srv" "names_slot st srv ghost slot" "ghost \<noteq> c"
      using slot_invD [OF inv] fresh by blast+
    have "exit_numnick st1 ghost = Some (st1\<lparr>cli_serv := (cli_serv st1)(srv := (cli_serv st1 srv)
      \<lparr>client_list := Some (l(slot := None))\<rparr>)\<rparr>)"
      using g RemoveYXXClient_eq [OF _ l1, of "cli_yxx st1 ghost"]
      by (simp add: exit_numnick_def names_slot_def st1_def)
    then show ?thesis
      using l at Some by (simp add: SetRemoteNumNick_def yxx user name flip: st1_def)
        (simp add: st1_def client_put_def word_and_mask_le slot_def Let_def)
  qed
qed

text \<open>C29. \<open>SetRemoteNumNick\<close> with a five-character numeric stores the user in the slot its
  numeric names and reports as exited exactly the ghost that held that slot; the user is
  then found under that numeric, and the slot invariant still holds.\<close>

theorem SetRemoteNumNick_registers:
  assumes inv: "slot_inv st" and l: "client_list (cli_serv st srv) = Some l"
    and user: "user_server st c = srv" and fresh: "\<And>s j. \<not> in_slot st s j c"
    and yxx: "length yxx = 5"
    and srv: "base64toint (take 2 yxx) = Some idx" "server_list st (unat idx) = Some srv"
  shows "\<exists>st' old. SetRemoteNumNick st c yxx = Some (st', old) \<and>
    old = l (unat (base64toint_loop 0 (drop 2 yxx) AND nn_mask (cli_serv st srv))) \<and>
    findNUser st' yxx = Some (Some c) \<and> slot_inv st' \<and>
    (\<forall>s j d. in_slot st' s j d \<longrightarrow> Some d \<noteq> old)"
proof -
  define slot where "slot = unat (base64toint_loop 0 (drop 2 yxx) AND nn_mask (cli_serv st srv))"
  define st' where "st' = st\<lparr>cli_serv := (cli_serv st)(srv := (cli_serv st srv)
         \<lparr>client_list := Some (l(slot := Some c))\<rparr>), cli_yxx := (cli_yxx st)(c := drop 2 yxx)\<rparr>"
  have eq: "SetRemoteNumNick st c yxx = Some (st', l slot)"
    using SetRemoteNumNick_eq [OF inv l user fresh yxx] by (simp add: st'_def slot_def)
  have ne: "drop 2 yxx \<noteq> []" using yxx by auto
  have inv': "slot_inv st'"
    unfolding st'_def by (rule slot_inv_fill [OF inv l fresh user ne]) (simp add: slot_def)
  have "findNUser st' (take 2 yxx @ drop 2 yxx) = Some ((l(slot := Some c)) slot)"
    using findNUser_five [of "take 2 yxx" "drop 2 yxx" idx st' srv "l(slot := Some c)"] yxx srv
    by (simp add: st'_def slot_def)
  then have found: "findNUser st' yxx = Some (Some c)" by simp
  have gone: "Some d \<noteq> l slot" if "in_slot st' s j d" for s j d
  proof
    assume d: "Some d = l slot"
    then have "in_slot st srv slot d" using l by (simp add: in_slot_def)
    then have "d \<noteq> c" "user_server st d = srv" "names_slot st srv d slot"
      using fresh slot_invD [OF inv] by blast+
    moreover have "user_server st' d = s" "names_slot st' s d j"
      using slot_invD [OF inv' that] by auto
    ultimately have "s = srv" "j = slot" by (auto simp: st'_def names_slot_def)
    with that \<open>d \<noteq> c\<close> show False by (simp add: in_slot_def st'_def)
  qed
  show ?thesis using eq found inv' gone unfolding slot_def by blast
qed

theorem SetRemoteNumNick_registers_witness:
  "\<exists>st'. SetRemoteNumNick demo_net 9 ''ABAAQ'' = Some (st', Some 7) \<and>
    findNUser st' ''ABAAQ'' = Some (Some 9) \<and> slot_inv st'"
proof -
  have "\<exists>st' old. SetRemoteNumNick demo_net 9 ''ABAAQ'' = Some (st', old) \<and>
    old = [0 \<mapsto> 7] (unat (base64toint_loop 0 (drop 2 ''ABAAQ'') AND nn_mask (cli_serv demo_net 1))) \<and>
    findNUser st' ''ABAAQ'' = Some (Some 9) \<and> slot_inv st' \<and>
    (\<forall>s j d. in_slot st' s j d \<longrightarrow> Some d \<noteq> old)"
    using demo_net_inv
    by (rule SetRemoteNumNick_registers [where idx = 1])
      (auto simp: demo_net_def in_slot_def demo_net_digits split: if_splits)
  moreover have "base64toint_loop 0 (drop 2 ''ABAAQ'') AND nn_mask (cli_serv demo_net 1) = 0"
    by code_simp
  ultimately show ?thesis by auto
qed

section \<open>Capacity\<close>

lemma capacity_loop_pow2:
  assumes "unat c \<le> 2 ^ m" and "e \<le> m" and "m \<le> 31" and "e = 4 \<or> 2 ^ (e - 1) < unat c"
  shows "\<exists>j. e \<le> j \<and> j \<le> m \<and> capacity_loop (2 ^ e) c = Some (2 ^ j) \<and> unat c \<le> 2 ^ j \<and>
    (j = 4 \<or> 2 ^ (j - 1) < unat c)"
  using assms
proof (induction "m - e" arbitrary: e)
  case 0
  have "unat ((2 :: u32) ^ e) = 2 ^ e" using 0 by (intro unat_two_power) simp
  moreover have "e = m" using 0 by simp
  ultimately have "\<not> (2 :: u32) ^ e < c" using 0 by (simp add: word_less_nat_alt)
  with 0 \<open>e = m\<close> show ?case by (intro exI [of _ e]) (simp add: capacity_loop.simps)
next
  case (Suc n)
  have u: "unat ((2 :: u32) ^ e) = 2 ^ e" using Suc by (intro unat_two_power) simp
  show ?case
  proof (cases "2 ^ e < c")
    case True
    then have "2 ^ e < unat c" using u by (simp add: word_less_nat_alt)
    then have c: "Suc e = 4 \<or> 2 ^ (Suc e - 1) < unat c" by simp
    have n: "n = m - Suc e" "Suc e \<le> m" using Suc.hyps(2) by arith+
    obtain j where "Suc e \<le> j \<and> j \<le> m \<and> capacity_loop (2 ^ Suc e) c = Some (2 ^ j) \<and>
        unat c \<le> 2 ^ j \<and> (j = 4 \<or> 2 ^ (j - 1) < unat c)"
      using Suc.hyps(1) [OF n(1) Suc.prems(1) n(2) Suc.prems(3) c] by blast
    with True show ?thesis
      by (intro exI [of _ j]) (simp add: capacity_loop.simps [of "2 ^ e"] push_bit_eq_mult mult.commute)
  next
    case False
    then have "unat c \<le> 2 ^ e" using u by (simp add: word_less_nat_alt)
    with False Suc show ?thesis by (intro exI [of _ e]) (simp add: capacity_loop.simps)
  qed
qed

text \<open>For a limit of at most \<open>2 ^ 31\<close> clients the doubling loop of \<open>SetYXXCapacity\<close> ends.
  Up to the protocol's 262144 clients it allocates a list of \<open>2 ^ k\<close> slots, the least such
  power of two from sixteen on that holds the limit, with the mask \<open>2 ^ k - 1\<close> that
  the allocator needs and the three-digit capacity string that decodes to it; above that
  it exits.\<close>

lemma SetYXXCapacity_mask:
  assumes "unat capacity \<le> 2 ^ 31" and "cli_yxx st c \<noteq> []" and "length (cli_yxx st c) \<le> 2"
  shows "if unat capacity \<le> 2 ^ 18
    then \<exists>st' k. SetYXXCapacity st c capacity = Some (Inr st') \<and> 4 \<le> k \<and> k \<le> 18 \<and>
      nn_mask (cli_serv st' c) = 2 ^ k - 1 \<and> unat capacity \<le> 2 ^ k \<and>
      (k = 4 \<or> 2 ^ (k - 1) < unat capacity) \<and>
      client_list (cli_serv st' c) = Some (\<lambda>_. None) \<and>
      base64toint (nn_capacity (cli_serv st' c)) = Some (2 ^ k - 1) \<and>
      FindNServer st' (cli_yxx st' c) = Some (Some c)
    else SetYXXCapacity st c capacity = Some (Inl MaxClientsTooLarge)"
proof -
  obtain j where j: "4 \<le> j" "j \<le> 31" "capacity_loop (2 ^ 4) capacity = Some (2 ^ j)"
      "unat capacity \<le> 2 ^ j" "j = 4 \<or> 2 ^ (j - 1) < unat capacity"
    using capacity_loop_pow2 [of capacity 31 4] assms(1) by auto
  have u: "unat ((2 :: u32) ^ j) = 2 ^ j" using j(2) by (intro unat_two_power) simp
  have big: "(2 :: u32) ^ j > NN_MAX_CLIENT \<longleftrightarrow> (2 :: nat) ^ 18 < 2 ^ j"
    using u by (simp add: word_less_nat_alt NN_MAX_CLIENT_def)
  show ?thesis
  proof (cases "unat capacity \<le> 2 ^ 18")
    case True
    have k: "j \<le> 18"
    proof (rule ccontr)
      assume "\<not> j \<le> 18"
      then have "(2 :: nat) ^ 18 \<le> 2 ^ (j - 1)" by (intro power_increasing) auto
      with True j(1,5) \<open>\<not> j \<le> 18\<close> show False by auto
    qed
    then have le: "(2 :: nat) ^ j \<le> 2 ^ 18" by (intro power_increasing) auto
    have mask: "unat ((2 :: u32) ^ j - 1) < 64 ^ 3"
    proof -
      have "(2 :: u32) ^ j \<noteq> 0" using u by (metis unat_0 power_not_zero zero_neq_numeral)
      then have "unat ((2 :: u32) ^ j - 1) < unat ((2 :: u32) ^ j)" by (rule measure_unat)
      then show ?thesis using u le by simp
    qed
    obtain idx where idx: "base64toint (cli_yxx st c) = Some idx" "unat idx < NN_MAX_SERVER"
      using base64toint_server_index [OF assms(2)] assms(3) by auto
    define st' where "st' = st\<lparr>cli_serv := (cli_serv st)(c :=
       \<lparr>nn_capacity = inttobase64 (2 ^ j - 1) 3, nn_mask = 2 ^ j - 1, client_list = Some (\<lambda>_. None)\<rparr>),
       server_list := (server_list st)(unat idx := Some c)\<rparr>"
    have eq: "SetYXXCapacity st c capacity = Some (Inr st')"
      using j(3) big le idx by (simp add: SetYXXCapacity_def server_put_def st'_def Let_def)
    have "base64toint (nn_capacity (cli_serv st' c)) = Some (2 ^ j - 1)"
      using mask by (simp add: st'_def base64toint_Some base64toint_loop_inttobase64)
    moreover have "FindNServer st' (cli_yxx st' c) = Some (Some c)"
      using assms(3) idx by (simp add: st'_def FindNServer_def server_at_def)
    ultimately show ?thesis
      using True eq k j by (intro if_P [THEN iffD2] exI [of _ st'] exI [of _ j]) (simp_all add: st'_def)
  next
    case False
    then have "(2 :: nat) ^ 18 < 2 ^ j" using j(4) by linarith
    then show ?thesis using False j(3) big by (simp add: SetYXXCapacity_def)
  qed
qed

lemma SetYXXCapacity_mask_witness:
  "(\<exists>st' k. SetYXXCapacity demo_net 1 1000 = Some (Inr st') \<and> 4 \<le> k \<and> k \<le> 18 \<and>
      nn_mask (cli_serv st' 1) = 2 ^ k - 1 \<and> (1000 :: nat) \<le> 2 ^ k) \<and>
   SetYXXCapacity demo_net 1 300000 = Some (Inl MaxClientsTooLarge)"
  using SetYXXCapacity_mask [of 1000 demo_net 1] SetYXXCapacity_mask [of 300000 demo_net 1]
  by (auto simp: demo_net_def)

section \<open>Lookups stay inside the tables\<close>

lemma numeric_lookup_defined:
  assumes lists: "\<And>i srv. server_list st i = Some srv \<Longrightarrow> client_list (cli_serv st srv) \<noteq> None"
    and len: "2 \<le> length yxx"
  shows "FindNServer st yxx \<noteq> None \<and> findNUser st yxx \<noteq> None"
proof
  have ne: "yxx \<noteq> []" "drop 1 yxx \<noteq> []" using len by auto
  show "FindNServer st yxx \<noteq> None" using FindNServer_defined [OF ne(1)] by auto
  have slot: "client_at st srv (w AND nn_mask (cli_serv st srv)) \<noteq> None"
    if "server_list st i = Some srv" for srv i w
    using lists [OF that] by (auto simp: client_at_and_mask)
  have reg: "\<exists>i. server_list st i = Some srv"
    if "FindXNServer st yxx = Some (Some srv) \<or> FindNServer st yxx = Some (Some srv)" for srv
    using that by (auto simp: FindXNServer_def FindNServer_def server_at_def
        split: if_splits bind_splits)
  show "findNUser st yxx \<noteq> None"
  proof (cases "length yxx = 5")
    case True
    then have "drop 2 yxx \<noteq> []" by auto
    with True show ?thesis
      using FindXNServer_defined [OF ne(1), of st] reg slot
      by (fastforce simp: findNUser_def base64toint_Some split: option.splits)
  next
    case False
    then show ?thesis
      using FindNServer_defined [OF ne(1), of st] reg slot ne(2)
      by (fastforce simp: findNUser_def base64toint_Some split: option.splits)
  qed
qed

text \<open>Once every registered server has its client list, looking up any numeric of at
  least two characters, whatever bytes it holds, reads only inside \<open>server_list\<close> and
  inside the client list of the server it finds.\<close>

lemma numeric_lookup_in_bounds:
  assumes lists: "\<And>i srv. server_list st i = Some srv \<Longrightarrow> client_list (cli_serv st srv) \<noteq> None"
    and len: "2 \<le> length yxx"
  shows "FindNServer st yxx \<noteq> None \<and> findNUser st yxx \<noteq> None"
  by (rule numeric_lookup_defined [OF assms])

lemma numeric_lookup_in_bounds_witness:
  "FindNServer demo_net ''zz'' \<noteq> None \<and> findNUser demo_net ''zz'' \<noteq> None"
  by (rule numeric_lookup_in_bounds) (auto simp: demo_net_def split: if_splits)

end
