(* ===== verification/Numnick_IP.thy ===== *)
theory Numnick_IP
  imports Numnicks
begin

text \<open>
  IP addresses in the base-64 notation of the P10 protocol (\<^verbatim>\<open>iptobase64\<close> and
  \<^verbatim>\<open>base64toip\<close> of \<^verbatim>\<open>ircd/numnicks.c\<close>). An address is the list of its eight 16-bit
  segments in host byte order: the code applies \<^verbatim>\<open>ntohs\<close> to every segment it prints and
  \<^verbatim>\<open>htons\<close> to every segment it stores, and the only other use of a segment is the test
  against zero and against 65535, which do not depend on the byte order.
\<close>

section \<open>Encoding\<close>

type_synonym irc_in_addr = "u16 list"

definition irc_in_addr_is_ipv4 :: "irc_in_addr \<Rightarrow> bool" where
  "irc_in_addr_is_ipv4 a \<longleftrightarrow> a ! 0 = 0 \<and> a ! 1 = 0 \<and> a ! 2 = 0 \<and> a ! 3 = 0 \<and> a ! 4 = 0 \<and>
     ((a ! 5 = 0 \<and> a ! 6 \<noteq> 0) \<or> a ! 5 = 65535)"

definition two_segments :: "u16 \<Rightarrow> u16 \<Rightarrow> u32" where
  "two_segments hi lo = push_bit 16 (ucast hi) OR ucast lo"

text \<open>
  The search for a run of zeros, started behind the leading non-zero segments: the loop
  carries the start and the length of the best run and the length of the current one.
\<close>

fun zero_scan :: "u16 list \<Rightarrow> nat \<Rightarrow> nat \<Rightarrow> nat \<Rightarrow> nat \<Rightarrow> nat \<times> nat \<times> nat \<times> nat" where
  "zero_scan [] ii max_start max_zeros curr_zeros = (ii, max_start, max_zeros, curr_zeros)"
| "zero_scan (x # xs) ii max_start max_zeros curr_zeros =
     (if x = 0 then zero_scan xs (Suc ii) max_start max_zeros (Suc curr_zeros)
      else if curr_zeros > max_zeros then zero_scan xs (Suc ii) (ii - curr_zeros) curr_zeros 0
      else zero_scan xs (Suc ii) max_start max_zeros curr_zeros)"

definition zero_run :: "irc_in_addr \<Rightarrow> nat \<times> nat" where
  "zero_run a =
     (let zero = length (takeWhile (\<lambda>x. x \<noteq> 0) a) in
      case zero_scan (drop zero a) zero zero 0 0 of
        (ii, max_start, max_zeros, curr_zeros) \<Rightarrow>
          if curr_zeros > max_zeros then (ii - curr_zeros, curr_zeros) else (max_start, max_zeros))"

function print_segments :: "irc_in_addr \<Rightarrow> nat \<Rightarrow> nat \<Rightarrow> nat \<Rightarrow> string" where
  "print_segments a max_start max_zeros ii =
     (if ii < 8
      then if ii = max_start \<and> max_zeros \<noteq> 0
           then CHR ''_'' # print_segments a max_start max_zeros (ii + max_zeros)
           else inttobase64 (ucast (a ! ii)) 3 @ print_segments a max_start max_zeros (Suc ii)
      else [])"
  by pat_completeness auto
termination
  by (relation "measure (\<lambda>(a, max_start, max_zeros, ii). 8 - ii)") auto

declare print_segments.simps [simp del]

definition iptobase64 :: "irc_in_addr \<Rightarrow> bool \<Rightarrow> string" where
  "iptobase64 a v6_ok =
     (if irc_in_addr_is_ipv4 a then inttobase64 (two_segments (a ! 6) (a ! 7)) 6
      else if \<not> v6_ok
      then if a ! 0 = 0x2002 then inttobase64 (two_segments (a ! 1) (a ! 2)) 6
           else if a ! 0 = 0x2001 \<and> a ! 1 = 0
           then inttobase64 (two_segments (a ! 6 XOR 0xFFFF) (a ! 7 XOR 0xFFFF)) 6
           else ''AAAAAA''
      else let lead = takeWhile (\<lambda>x. x \<noteq> 0) a; (max_start, max_zeros) = zero_run a
           in concat (map (\<lambda>x. inttobase64 (ucast x) 3) lead) @
              print_segments a max_start max_zeros (length lead))"

section \<open>Decoding\<close>

text \<open>
  The loop fills the segments from the left; \<open>acc\<close> holds those written so far, so its
  length is the variable \<open>pos\<close>. A write behind the eighth segment and a read behind the
  NUL of the input are \<^const>\<open>None\<close>.
\<close>

definition accum3 :: "char \<Rightarrow> char \<Rightarrow> char \<Rightarrow> u16" where
  "accum3 a b c =
     push_bit NUMNICKLOG (push_bit NUMNICKLOG (ucast (digit_of a)) OR ucast (digit_of b))
       OR ucast (digit_of c)"

definition run_left :: "nat \<Rightarrow> nat \<Rightarrow> u32" where
  "run_left len pos = (25 - word_of_nat len) div 3 - word_of_nat pos"

fun base64toip_loop :: "string \<Rightarrow> u16 list \<Rightarrow> irc_in_addr option" where
  "base64toip_loop [] acc = None"
| "base64toip_loop (a # rest) acc =
     (if a = CHR ''_''
      then let left = unat (run_left (length (a # rest)) (length acc)) in
        if 8 < length acc + left then None
        else if length acc + left < 8 then base64toip_loop rest (acc @ replicate left 0)
        else Some (acc @ replicate left 0)
      else case rest of
        b # c # rest' \<Rightarrow>
          if length acc + 1 < 8 then base64toip_loop rest' (acc @ [accum3 a b c])
          else Some (acc @ [accum3 a b c])
      | [b] \<Rightarrow> if length acc + 1 < 8 then None else Some (acc @ [accum3 a b (CHR 0x00)])
      | [] \<Rightarrow> None)"

definition base64toip :: "string \<Rightarrow> irc_in_addr option" where
  "base64toip input =
     (if length input = 6
      then base64toint input \<bind> (\<lambda>v.
        if v \<noteq> 0
        then Some [0, 0, 0, 0, 0, 65535, ucast (drop_bit 16 v), ucast (v AND 65535)]
        else Some (replicate 8 0))
      else base64toip_loop input [])"

section \<open>Segments and digits\<close>

lemma underscore_no_digit: "CHR ''_'' \<notin> set convert2y"
  by (simp add: convert2y_def)

lemma convert2y_not_underscore: "v < 64 \<Longrightarrow> convert2y ! v \<noteq> CHR ''_''"
  using underscore_no_digit length_convert2y nth_mem by metis

lemma inttobase64_three:
  "inttobase64 v 3 =
     [convert2y ! unat (drop_bit 12 v AND 63), convert2y ! unat (drop_bit 6 v AND 63),
      convert2y ! unat (v AND 63)]"
  by (simp add: numeral_3_eq_3 NUMNICKLOG_def NUMNICKMASK_def)

lemma digit_of_and_63: "digit_of (convert2y ! unat (v AND 63)) = v AND 63"
  by (rule trans [OF digit_of_convert2y [OF and_63_bound]]) (simp only: of_nat_unat ucast_id)

lemma and_63_take_bit: "(v :: u32) AND 63 = take_bit 6 v"
  by (simp add: take_bit_eq_mask mask_eq_exp_minus_1)

lemma accum_bits:
  "push_bit 6 (push_bit 6 (ucast (drop_bit 12 (ucast x :: u32) AND 63)) OR
      ucast (drop_bit 6 (ucast x :: u32) AND 63)) OR ucast ((ucast x :: u32) AND 63) = (x :: u16)"
  unfolding and_63_take_bit by (rule bit_word_eqI) (auto simp: bit_simps)

lemma inttobase64_segment:
  obtains c0 c1 c2 where "inttobase64 (ucast (x :: u16)) 3 = [c0, c1, c2]"
    and "c0 \<noteq> CHR ''_''" and "accum3 c0 c1 c2 = x"
proof
  let ?v = "ucast x :: u32"
  show "inttobase64 ?v 3 = [convert2y ! unat (drop_bit 12 ?v AND 63),
      convert2y ! unat (drop_bit 6 ?v AND 63), convert2y ! unat (?v AND 63)]"
    by (rule inttobase64_three)
  show "convert2y ! unat (drop_bit 12 ?v AND 63) \<noteq> CHR ''_''"
    by (rule convert2y_not_underscore [OF and_63_bound])
  show "accum3 (convert2y ! unat (drop_bit 12 ?v AND 63)) (convert2y ! unat (drop_bit 6 ?v AND 63))
      (convert2y ! unat (?v AND 63)) = x"
    using accum_bits [of x] by (simp only: accum3_def digit_of_and_63 NUMNICKLOG_def)
qed

lemma base64toip_loop_segment:
  "base64toip_loop (inttobase64 (ucast x) 3 @ rest) acc =
     (if length acc + 1 < 8 then base64toip_loop rest (acc @ [x]) else Some (acc @ [x]))"
proof -
  obtain c0 c1 c2 where "inttobase64 (ucast x) 3 = [c0, c1, c2]" "c0 \<noteq> CHR ''_''" "accum3 c0 c1 c2 = x"
    by (rule inttobase64_segment)
  then show ?thesis by simp
qed

section \<open>Decoding an encoded IPv6 address\<close>

lemma length_print_segments:
  assumes "mz \<noteq> 0 \<Longrightarrow> ms + mz \<le> 8"
  shows "length (print_segments a ms mz ii) =
    (if ii \<le> ms \<and> mz \<noteq> 0 then 3 * (8 - ii - mz) + 1 else 3 * (8 - ii))"
  using assms
proof (induction a ms mz ii rule: print_segments.induct)
  case (1 a ms mz ii)
  then show ?case
    by (subst print_segments.simps) auto
qed

lemma unat_run_left:
  assumes "len \<le> 25" and "pos \<le> (25 - len) div 3"
  shows "unat (run_left len pos) = (25 - len) div 3 - pos"
proof -
  have "unat (25 - word_of_nat len :: u32) = 25 - len"
    using assms by (subst unat_sub) (auto simp: word_le_nat_alt unat_of_nat)
  then have "unat ((25 - word_of_nat len :: u32) div 3) = (25 - len) div 3"
    by (simp add: unat_div)
  then show ?thesis
    unfolding run_left_def using assms
    by (subst unat_sub) (auto simp: word_le_nat_alt unat_of_nat)
qed

lemma run_left_run:
  assumes "0 < mz" and "ms + mz \<le> 8"
  shows "unat (run_left (Suc (3 * (8 - ms - mz))) ms) = mz"
proof -
  have "(25 - Suc (3 * (8 - ms - mz))) div 3 = ms + mz" using assms by auto
  then show ?thesis using assms by (subst unat_run_left) auto
qed

definition zeroed :: "irc_in_addr \<Rightarrow> nat \<Rightarrow> nat \<Rightarrow> irc_in_addr" where
  "zeroed a ms mz = take ms a @ replicate mz 0 @ drop (ms + mz) a"

lemma take_drop_step:
  "ii < length a \<Longrightarrow> ii < ms \<Longrightarrow>
   take (ms - ii) (drop ii a) = a ! ii # take (ms - Suc ii) (drop (Suc ii) a)"
  by (simp add: Cons_nth_drop_Suc [symmetric] take_Cons' Suc_diff_Suc [symmetric])

lemma decode_tail:
  assumes "length a = 8" and "ii < 8" and "mz = 0 \<or> ms < ii" and "length acc = ii"
  shows "base64toip_loop (print_segments a ms mz ii) acc = Some (acc @ drop ii a)"
  using assms
proof (induction "7 - ii" arbitrary: ii acc)
  case 0
  then have "ii = 7" by simp
  moreover have "drop 7 a = [a ! 7]" using 0 by (simp add: Cons_nth_drop_Suc [symmetric])
  ultimately show ?case
    using 0 by (auto simp: print_segments.simps [of a ms mz 7] base64toip_loop_segment)
next
  case (Suc n)
  have "base64toip_loop (print_segments a ms mz ii) acc =
      base64toip_loop (print_segments a ms mz (Suc ii)) (acc @ [a ! ii])"
    using Suc by (auto simp: print_segments.simps [of a ms mz ii] base64toip_loop_segment)
  also have "\<dots> = Some ((acc @ [a ! ii]) @ drop (Suc ii) a)"
    using Suc by (intro Suc.hyps) auto
  finally show ?case using Suc by (simp add: Cons_nth_drop_Suc)
qed

lemma decode_run:
  assumes "length a = 8" and "0 < mz" and "ms + mz \<le> 8" and "ii \<le> ms" and "length acc = ii"
  shows "base64toip_loop (print_segments a ms mz ii) acc =
    Some (acc @ take (ms - ii) (drop ii a) @ replicate mz 0 @ drop (ms + mz) a)"
  using assms
proof (induction "ms - ii" arbitrary: ii acc)
  case 0
  then have "ii = ms" by simp
  then have "print_segments a ms mz ii = CHR ''_'' # print_segments a ms mz (ms + mz)"
    using 0 by (subst print_segments.simps) auto
  moreover have "length (print_segments a ms mz (ms + mz)) = 3 * (8 - ms - mz)"
    using 0 by (subst length_print_segments) auto
  moreover note run_left_run [OF 0(3,4)]
  ultimately show ?case
    using 0 \<open>ii = ms\<close> decode_tail [of a "ms + mz" mz ms] by auto
next
  case (Suc n)
  have "base64toip_loop (print_segments a ms mz ii) acc =
      base64toip_loop (print_segments a ms mz (Suc ii)) (acc @ [a ! ii])"
    using Suc by (auto simp: print_segments.simps [of a ms mz ii] base64toip_loop_segment)
  also have "\<dots> = Some ((acc @ [a ! ii]) @ take (ms - Suc ii) (drop (Suc ii) a) @
      replicate mz 0 @ drop (ms + mz) a)"
    using Suc by (intro Suc.hyps) auto
  finally show ?case
    using Suc take_drop_step [of ii a ms] by simp
qed

lemma zero_scan_bounds:
  assumes "zero_scan xs ii ms mz cz = (ii', ms', mz', cz')"
    and "z \<le> ms" and "ms + mz \<le> ii" and "z + cz \<le> ii"
  shows "ii' = ii + length xs \<and> z \<le> ms' \<and> ms' + mz' \<le> ii' \<and> z + cz' \<le> ii'"
  using assms
  by (induction xs ii ms mz cz rule: zero_scan.induct)
    (auto simp: add_le_imp_le_diff split: if_splits)

lemma zero_run_bounds:
  assumes "length a = 8" and "zero_run a = (ms, mz)"
  shows "length (takeWhile (\<lambda>x. x \<noteq> 0) a) \<le> ms \<and> ms + mz \<le> 8"
proof -
  define z where "z = length (takeWhile (\<lambda>x. x \<noteq> 0) a)"
  obtain ii' ms' mz' cz' where sc: "zero_scan (drop z a) z z 0 0 = (ii', ms', mz', cz')"
    by (cases "zero_scan (drop z a) z z 0 0")
  have "z \<le> 8" using length_takeWhile_le [of "\<lambda>x. x \<noteq> 0" a] assms(1) by (simp add: z_def)
  then show ?thesis
    using zero_scan_bounds [OF sc, of z] sc assms
    by (auto simp: zero_run_def Let_def z_def [symmetric] split: if_splits)
qed

lemma print_segments_lead:
  assumes "n \<le> ms" and "n \<le> 8" and "length a = 8"
  shows "print_segments a ms mz 0 =
    concat (map (\<lambda>x. inttobase64 (ucast x) 3) (take n a)) @ print_segments a ms mz n"
  using assms
proof (induction n)
  case 0
  then show ?case by simp
next
  case (Suc n)
  then show ?case
    by (simp add: take_Suc_conv_app_nth print_segments.simps [of a ms mz n])
qed

lemma iptobase64_v6:
  assumes "length a = 8" and "\<not> irc_in_addr_is_ipv4 a" and run: "zero_run a = (ms, mz)"
  shows "iptobase64 a True = print_segments a ms mz 0"
proof -
  let ?lead = "takeWhile (\<lambda>x. x \<noteq> 0) a"
  have "length ?lead \<le> ms" using zero_run_bounds [OF assms(1) run] by simp
  moreover have "length ?lead \<le> 8" using length_takeWhile_le [of "\<lambda>x. x \<noteq> 0" a] assms(1) by simp
  ultimately have "print_segments a ms mz 0 =
      concat (map (\<lambda>x. inttobase64 (ucast x) 3) (take (length ?lead) a)) @
      print_segments a ms mz (length ?lead)"
    using assms(1) by (rule print_segments_lead)
  moreover have "take (length ?lead) a = ?lead" by (rule takeWhile_eq_take [symmetric])
  ultimately show ?thesis using assms by (simp add: iptobase64_def Let_def)
qed

lemma base64toip_v6:
  assumes "length a = 8" and "ms + mz \<le> 8"
  shows "base64toip (print_segments a ms mz 0) = Some (zeroed a ms mz)"
proof -
  have "length (print_segments a ms mz 0) \<noteq> 6"
  proof -
    have "length (print_segments a ms mz 0) = (if mz \<noteq> 0 then 3 * (8 - mz) + 1 else 24)"
      using assms(2) length_print_segments [of mz ms a 0] by simp
    moreover have "3 * n + 1 \<noteq> 6" for n :: nat by presburger
    ultimately show ?thesis by simp
  qed
  then have "base64toip (print_segments a ms mz 0) = base64toip_loop (print_segments a ms mz 0) []"
    by (simp add: base64toip_def)
  moreover have "base64toip_loop (print_segments a ms mz 0) [] = Some (zeroed a ms mz)"
  proof (cases "mz = 0")
    case True
    then show ?thesis
      using assms(1) by (subst decode_tail) (simp_all add: zeroed_def)
  next
    case False
    then show ?thesis
      using assms by (subst decode_run) (simp_all add: zeroed_def)
  qed
  ultimately show ?thesis by simp
qed

text \<open>What a peer reads back from an IPv6 address that \<open>iptobase64\<close> encoded: the same
  address with the segments of the chosen run set to zero. The address survives exactly
  when that run consists of zeros.\<close>

lemma ip6_decode:
  assumes "length a = 8" and "\<not> irc_in_addr_is_ipv4 a" and "zero_run a = (ms, mz)"
  shows "base64toip (iptobase64 a True) = Some (zeroed a ms mz)"
  using base64toip_v6 zero_run_bounds [OF assms(1,3)] iptobase64_v6 [OF assms] assms(1) by simp

lemma ip6_decode_witness:
  "base64toip (iptobase64 [0x2001, 0xdb8, 0, 0, 0, 0, 0, 1] True) =
     Some (zeroed [0x2001, 0xdb8, 0, 0, 0, 0, 0, 1] 2 5)"
  by (rule ip6_decode) (simp_all add: irc_in_addr_is_ipv4_def zero_run_def)

section \<open>Addresses that survive the round trip\<close>

lemma zero_scan_zeros: "zero_scan (replicate m 0 @ xs) ii ms mz cz = zero_scan xs (ii + m) ms mz (cz + m)"
  by (induction m arbitrary: ii cz) auto

lemma zero_scan_nonzeros:
  "0 \<notin> set xs \<Longrightarrow> cz \<le> mz \<Longrightarrow> zero_scan xs ii ms mz cz = (ii + length xs, ms, mz, cz)"
  by (induction xs arbitrary: ii) auto

lemma zero_run_contiguous:
  assumes "a = xs @ replicate m 0 @ ys" and "0 \<notin> set xs" and "0 \<notin> set ys" and "m = 0 \<Longrightarrow> ys = []"
  shows "zero_run a = (length xs, m)"
proof -
  have "takeWhile (\<lambda>x. x \<noteq> 0) a = xs"
    using assms by (cases m) (auto simp: takeWhile_append)
  moreover have "zero_scan (replicate m 0 @ ys) (length xs) (length xs) 0 0 =
    (if m = 0 \<or> ys = [] then (length xs + m, length xs, 0, m)
     else (length xs + m + length ys, length xs, m, 0))"
    using assms(3,4) zero_scan_zeros [of m "[]"]
    by (cases ys) (auto simp: zero_scan_zeros zero_scan_nonzeros)
  ultimately show ?thesis
    using assms(1,4) by (auto simp: zero_run_def Let_def)
qed

definition canonical_addr :: "irc_in_addr \<Rightarrow> bool" where
  "canonical_addr a \<longleftrightarrow> length a = 8 \<and>
     (if irc_in_addr_is_ipv4 a then a ! 5 = 65535 \<and> (a ! 6 \<noteq> 0 \<or> a ! 7 \<noteq> 0)
      else \<exists>xs m ys. a = xs @ replicate m 0 @ ys \<and> 0 \<notin> set xs \<and> 0 \<notin> set ys)"

lemma two_segments_parts:
  "ucast (drop_bit 16 (two_segments hi lo)) = hi" "ucast (two_segments hi lo AND 65535) = lo"
proof -
  have mask: "(two_segments hi lo) AND 65535 = take_bit 16 (two_segments hi lo)"
    by (simp add: take_bit_eq_mask mask_eq_exp_minus_1)
  show "ucast (drop_bit 16 (two_segments hi lo)) = hi"
    by (rule bit_word_eqI) (auto simp: two_segments_def bit_simps dest: bit_imp_le_length)
  show "ucast (two_segments hi lo AND 65535) = lo"
    unfolding mask by (rule bit_word_eqI) (auto simp: two_segments_def bit_simps)
qed

lemma base64toint_six: "base64toint (inttobase64 v 6) = Some v"
proof -
  have "unat v < 2 ^ 32" using unsigned_less [of v] by simp
  also have "(2 :: nat) ^ 32 < 64 ^ 6" by simp
  finally show ?thesis by (simp add: base64toint_Some base64toint_loop_inttobase64)
qed

lemma ip4_roundtrip:
  assumes "length a = 8" and "irc_in_addr_is_ipv4 a" and "a ! 5 = 65535" and "a ! 6 \<noteq> 0 \<or> a ! 7 \<noteq> 0"
  shows "base64toip (iptobase64 a v6_ok) = Some a"
proof -
  let ?v = "two_segments (a ! 6) (a ! 7)"
  have "?v \<noteq> 0"
    using assms(4) two_segments_parts [of "a ! 6" "a ! 7"] by force
  then have "base64toip (iptobase64 a v6_ok) = Some [0, 0, 0, 0, 0, 65535, a ! 6, a ! 7]"
    using assms(2) by (simp add: base64toip_def iptobase64_def base64toint_six two_segments_parts)
  also have "[0, 0, 0, 0, 0, 65535, a ! 6, a ! 7] = a"
    using assms by (intro nth_equalityI)
      (auto simp: irc_in_addr_is_ipv4_def less_Suc_eq numeral_eq_Suc)
  finally show ?thesis .
qed

text \<open>C40. IPv4-mapped addresses other than 0.0.0.0, and IPv6 addresses whose zero segments
  are adjacent to each other, come back unchanged from \<open>base64toip\<close> after \<open>iptobase64\<close>.\<close>

theorem ip_roundtrip:
  assumes "canonical_addr a"
  shows "base64toip (iptobase64 a True) = Some a"
proof (cases "irc_in_addr_is_ipv4 a")
  case True
  with assms show ?thesis by (intro ip4_roundtrip) (simp_all add: canonical_addr_def)
next
  case False
  then obtain xs m ys where a: "a = xs @ replicate m 0 @ ys" "0 \<notin> set xs" "0 \<notin> set ys"
    and len: "length a = 8"
    using assms by (auto simp: canonical_addr_def)
  obtain xs' m' ys' where a': "a = xs' @ replicate m' 0 @ ys'" "0 \<notin> set xs'" "0 \<notin> set ys'"
      "m' = 0 \<Longrightarrow> ys' = []"
    using a by (cases "m = 0") (auto intro: that [of "xs @ ys" 0 "[]"] that [of xs m ys])
  have run: "zero_run a = (length xs', m')" by (rule zero_run_contiguous [OF a'])
  have "base64toip (iptobase64 a True) = Some (zeroed a (length xs') m')"
    using base64toip_v6 zero_run_bounds [OF len run] iptobase64_v6 [OF len False run] len by simp
  also have "zeroed a (length xs') m' = a" using a'(1) by (simp add: zeroed_def)
  finally show ?thesis .
qed

theorem ip_roundtrip_witness:
  "base64toip (iptobase64 [0x2001, 0xdb8, 0, 0, 0, 0, 0, 1] True) =
     Some [0x2001, 0xdb8, 0, 0, 0, 0, 0, 1] \<and>
   base64toip (iptobase64 [0, 0, 0, 0, 0, 65535, 0x7f00, 1] True) =
     Some [0, 0, 0, 0, 0, 65535, 0x7f00, 1]"
proof
  show "base64toip (iptobase64 [0x2001, 0xdb8, 0, 0, 0, 0, 0, 1] True) =
     Some [0x2001, 0xdb8, 0, 0, 0, 0, 0, 1]"
  proof (rule ip_roundtrip)
    have zeros: "replicate 5 (0 :: u16) = [0, 0, 0, 0, 0]" by (simp add: numeral_eq_Suc)
    have "\<exists>xs m ys. [0x2001, 0xdb8, 0, 0, 0, 0, 0, 1 :: u16] = xs @ replicate m 0 @ ys \<and>
        0 \<notin> set xs \<and> 0 \<notin> set ys"
      by (rule exI [of _ "[0x2001, 0xdb8]"], rule exI [of _ 5], rule exI [of _ "[1]"])
        (simp add: zeros)
    then show "canonical_addr [0x2001, 0xdb8, 0, 0, 0, 0, 0, 1]"
      by (simp add: canonical_addr_def irc_in_addr_is_ipv4_def)
  qed
  show "base64toip (iptobase64 [0, 0, 0, 0, 0, 65535, 0x7f00, 1] True) =
     Some [0, 0, 0, 0, 0, 65535, 0x7f00, 1]"
    by (rule ip_roundtrip) (simp add: canonical_addr_def irc_in_addr_is_ipv4_def)
qed

text \<open>The address 1:0:0:1:0:1:0:0 does not survive: the counter of the current run is
  not reset at a non-zero segment behind a shorter run, so the encoder takes the last three
  segments for a run of zeros and drops the non-zero one among them.\<close>

lemma ip6_roundtrip_fails:
  "zero_run [1, 0, 0, 1, 0, 1, 0, 0] = (5, 3) \<and>
   base64toip (iptobase64 [1, 0, 0, 1, 0, 1, 0, 0] True) = Some [1, 0, 0, 1, 0, 0, 0, 0]"
proof
  let ?a = "[1, 0, 0, 1, 0, 1, 0, 0] :: u16 list"
  show run: "zero_run ?a = (5, 3)" by (simp add: zero_run_def)
  have "base64toip (iptobase64 ?a True) = Some (zeroed ?a 5 3)"
    using base64toip_v6 [of ?a 5 3] iptobase64_v6 [OF _ _ run] by (simp add: irc_in_addr_is_ipv4_def)
  then show "base64toip (iptobase64 ?a True) = Some [1, 0, 0, 1, 0, 0, 0, 0]"
    by (simp add: zeroed_def numeral_eq_Suc)
qed

text \<open>A numeric IP of 28 characters that starts with an underscore makes the unsigned
  count of zero segments wrap around, and \<open>base64toip\<close> writes behind the address.\<close>

lemma base64toip_overrun:
  assumes "length input = 27"
  shows "run_left 28 0 = 1431655764 \<and> base64toip (CHR ''_'' # input) = None"
  using assms by (auto simp: base64toip_def run_left_def)

lemma base64toip_overrun_witness:
  "base64toip (CHR ''_'' # replicate 27 CHR ''A'') = None"
  using base64toip_overrun [of "replicate 27 CHR ''A''"] by simp

end
