(* ===== verification/Chattr.thy ===== *)
theory Chattr
  imports Prelude
begin

text \<open>
  Character classes and case mapping (\<^verbatim>\<open>ircd/table_gen.c\<close>, \<^verbatim>\<open>include/ircd_chattr.h\<close>).
  The server includes tables that \<^verbatim>\<open>table_gen\<close> prints; the model computes the same tables
  with the same calls. A table is a function on characters. The loops of \<^verbatim>\<open>table_gen.c\<close>
  visit every character and change each entry on its own, so they are written pointwise.
\<close>

section \<open>Building the tables\<close>

definition NTL_ALNUM :: u32 where "NTL_ALNUM = 0x0001"
definition NTL_ALPHA :: u32 where "NTL_ALPHA = 0x0002"
definition NTL_CNTRL :: u32 where "NTL_CNTRL = 0x0004"
definition NTL_DIGIT :: u32 where "NTL_DIGIT = 0x0008"
definition NTL_GRAPH :: u32 where "NTL_GRAPH = 0x0010"
definition NTL_LOWER :: u32 where "NTL_LOWER = 0x0020"
definition NTL_PRINT :: u32 where "NTL_PRINT = 0x0040"
definition NTL_PUNCT :: u32 where "NTL_PUNCT = 0x0080"
definition NTL_SPACE :: u32 where "NTL_SPACE = 0x0100"
definition NTL_UPPER :: u32 where "NTL_UPPER = 0x0200"
definition NTL_IRCCH :: u32 where "NTL_IRCCH = 0x0400"
definition NTL_IRCCL :: u32 where "NTL_IRCCL = 0x0800"
definition NTL_IRCNK :: u32 where "NTL_IRCNK = 0x1000"
definition NTL_IRCUI :: u32 where "NTL_IRCUI = 0x2000"
definition NTL_IRCHN :: u32 where "NTL_IRCHN = 0x4000"
definition NTL_IRCIP :: u32 where "NTL_IRCIP = 0x8000"
definition NTL_EOL :: u32 where "NTL_EOL = 0x10000"
definition NTL_KTIME :: u32 where "NTL_KTIME = 0x20000"
definition NTL_CHPFX :: u32 where "NTL_CHPFX = 0x40000"
definition NTL_IRCIP6 :: u32 where "NTL_IRCIP6 = 0x80000"

lemmas NTL_defs = NTL_ALNUM_def NTL_ALPHA_def NTL_CNTRL_def NTL_DIGIT_def NTL_GRAPH_def
  NTL_LOWER_def NTL_PRINT_def NTL_PUNCT_def NTL_SPACE_def NTL_UPPER_def NTL_IRCCH_def
  NTL_IRCCL_def NTL_IRCNK_def NTL_IRCUI_def NTL_IRCHN_def NTL_IRCIP_def NTL_EOL_def
  NTL_KTIME_def NTL_CHPFX_def NTL_IRCIP6_def

type_synonym attr_tab = "char \<Rightarrow> u32"

definition code :: "char \<Rightarrow> nat" where
  "code c = of_char c"

fun markString :: "u32 \<Rightarrow> string \<Rightarrow> attr_tab \<Rightarrow> attr_tab" where
  "markString macro [] tab = tab"
| "markString macro (c # s) tab = markString macro s (tab(c := tab c OR macro))"

fun unMarkString :: "u32 \<Rightarrow> string \<Rightarrow> attr_tab \<Rightarrow> attr_tab" where
  "unMarkString macro [] tab = tab"
| "unMarkString macro (c # s) tab = unMarkString macro s (tab(c := tab c AND NOT macro))"

definition markRange :: "u32 \<Rightarrow> nat \<Rightarrow> nat \<Rightarrow> attr_tab \<Rightarrow> attr_tab" where
  "markRange macro from to tab = (\<lambda>c. if from \<le> code c \<and> code c \<le> to then tab c OR macro else tab c)"

definition moveMacro :: "u32 \<Rightarrow> u32 \<Rightarrow> attr_tab \<Rightarrow> attr_tab" where
  "moveMacro from to tab = (\<lambda>c. if tab c AND from \<noteq> 0 then tab c OR to else tab c)"

definition space_chars :: string where
  "space_chars = [CHR 0x09, CHR 0x0A, CHR 0x0B, CHR 0x0C, CHR 0x0D, CHR '' '']"

definition punct_chars :: string where
  "punct_chars = [CHR ''!'', CHR 0x22, CHR ''#'', CHR ''$'', CHR ''%'', CHR ''&'', CHR 0x27,
     CHR ''('', CHR '')'', CHR ''*'', CHR ''+'', CHR '','', CHR ''-'', CHR ''.'', CHR ''/'',
     CHR '':'', CHR '';'', CHR ''<'', CHR ''='', CHR ''>'', CHR ''?'', CHR ''@'', CHR ''_'', CHR 0x60]"

definition makeTables :: attr_tab where
  "makeTables =
    (markString NTL_KTIME '' ,-0123456789''
    (markString NTL_CHPFX ''#&''
    (markString NTL_EOL [CHR 0x0A, CHR 0x0D]
    (markString NTL_IRCUI [CHR ''.'', CHR ''-'', CHR ''_'', CHR ''^'', CHR 0x27, CHR 0x60, CHR ''~'']
    (markRange NTL_IRCUI 0xD8 0xDE
    (markRange NTL_IRCUI 0xC0 0xD6
    (markRange NTL_IRCUI 0xF8 0xFE
    (markRange NTL_IRCUI 0xE0 0xF6
    (moveMacro NTL_ALNUM NTL_IRCUI
    (markString NTL_IRCNK [CHR ''-'', CHR ''_'', CHR 0x60]
    (moveMacro (NTL_DIGIT OR NTL_ALPHA) NTL_IRCNK
    (markString NTL_IRCIP6 '':.ABCDEFabcdef''
    (moveMacro NTL_DIGIT NTL_IRCIP6
    (markString NTL_IRCIP ''.''
    (moveMacro NTL_DIGIT NTL_IRCIP
    (markString NTL_IRCHN ''-_.''
    (moveMacro NTL_ALNUM NTL_IRCHN
    (markRange NTL_IRCCL 0xD8 0xDE
    (markRange NTL_IRCCL 0xC0 0xD6
    (unMarkString NTL_IRCCH [CHR '','', CHR 0xA0]
    (markRange NTL_IRCCH 0x21 0xFF
    (markString NTL_PRINT '' ''
    (moveMacro NTL_GRAPH NTL_PRINT
    (moveMacro (NTL_ALNUM OR NTL_PUNCT) NTL_GRAPH
    (moveMacro (NTL_ALPHA OR NTL_DIGIT) NTL_ALNUM
    (moveMacro (NTL_LOWER OR NTL_UPPER) NTL_ALPHA
    (markString NTL_SPACE space_chars
    (markString NTL_PUNCT punct_chars
    (markRange NTL_CNTRL 0x00 0x1F
    (markRange NTL_DIGIT 0x30 0x39
    (markString NTL_UPPER [CHR ''['', CHR 0x5C, CHR '']'', CHR ''^'']
    (markRange NTL_UPPER 0x41 0x5A
    (markString NTL_LOWER [CHR 0x7B, CHR ''|'', CHR 0x7D, CHR ''~'']
    (markRange NTL_LOWER 0x61 0x7A
    (\<lambda>_. 0)))))))))))))))))))))))))))))))))))"

text \<open>
  \<open>setLowHi\<close> pairs every \<open>i\<close> of a range of lower-case codes with
  \<open>j = i + (firsthi - firstlow)\<close>, in both tables. The lower-case entry of \<open>c\<close> is
  therefore written when \<open>c\<close> is the partner \<open>j\<close> of an \<open>i\<close> in the range.
\<close>

definition setLow :: "nat \<Rightarrow> nat \<Rightarrow> nat \<Rightarrow> (char \<Rightarrow> char) \<Rightarrow> (char \<Rightarrow> char)" where
  "setLow firstlow lastlow firsthi tab =
     (\<lambda>c. let i = (code c + 256 + firstlow - firsthi) mod 256
          in if firstlow \<le> i \<and> i \<le> lastlow then char_of i else tab c)"

definition setHi :: "nat \<Rightarrow> nat \<Rightarrow> nat \<Rightarrow> (char \<Rightarrow> char) \<Rightarrow> (char \<Rightarrow> char)" where
  "setHi firstlow lastlow firsthi tab =
     (\<lambda>c. if firstlow \<le> code c \<and> code c \<le> lastlow
          then char_of ((code c + 256 + firsthi - firstlow) mod 256) else tab c)"

definition ToLower :: "char \<Rightarrow> char" where
  "ToLower = setLow 0x7B 0x7E 0x5B (setLow 0xF8 0xFE 0xD8 (setLow 0xE0 0xF6 0xC0
     (setLow 0x61 0x7A 0x41 (\<lambda>c. c))))"

definition ToUpper :: "char \<Rightarrow> char" where
  "ToUpper = setHi 0x7B 0x7E 0x5B (setHi 0xF8 0xFE 0xD8 (setHi 0xE0 0xF6 0xC0
     (setHi 0x61 0x7A 0x41 (\<lambda>c. c))))"

definition char_has :: "u32 \<Rightarrow> char \<Rightarrow> bool" where
  "char_has attr c \<longleftrightarrow> makeTables c AND attr \<noteq> 0"

definition IsAlnum :: "char \<Rightarrow> bool" where "IsAlnum = char_has NTL_ALNUM"
definition IsAlpha :: "char \<Rightarrow> bool" where "IsAlpha = char_has NTL_ALPHA"
definition IsDigit :: "char \<Rightarrow> bool" where "IsDigit = char_has NTL_DIGIT"
definition IsLower :: "char \<Rightarrow> bool" where "IsLower = char_has NTL_LOWER"
definition IsSpace :: "char \<Rightarrow> bool" where "IsSpace = char_has NTL_SPACE"
definition IsUpper :: "char \<Rightarrow> bool" where "IsUpper = char_has NTL_UPPER"
definition IsCntrl :: "char \<Rightarrow> bool" where "IsCntrl = char_has NTL_CNTRL"
definition IsChannelChar :: "char \<Rightarrow> bool" where "IsChannelChar = char_has NTL_IRCCH"
definition IsChannelPrefix :: "char \<Rightarrow> bool" where "IsChannelPrefix = char_has NTL_CHPFX"
definition IsNickChar :: "char \<Rightarrow> bool" where "IsNickChar = char_has NTL_IRCNK"
definition IsUserChar :: "char \<Rightarrow> bool" where "IsUserChar = char_has NTL_IRCUI"
definition IsHostChar :: "char \<Rightarrow> bool" where "IsHostChar = char_has NTL_IRCHN"
definition IsIPChar :: "char \<Rightarrow> bool" where "IsIPChar = char_has NTL_IRCIP"
definition IsIP6Char :: "char \<Rightarrow> bool" where "IsIP6Char = char_has NTL_IRCIP6"
definition IsEol :: "char \<Rightarrow> bool" where "IsEol = char_has NTL_EOL"

section \<open>Case mapping in closed form\<close>

lemma code_less [simp]: "code c < 256"
  by (simp add: code_def of_char_less_256)

lemma code_inject: "code c = code d \<longleftrightarrow> c = d"
  by (metis code_def char_of_char)

lemma code_char_of: "n < 256 \<Longrightarrow> code (char_of n) = n"
  by (simp add: code_def)

lemma setLow_32:
  assumes "fl = fh + 32" and "ll < 256"
  shows "setLow fl ll fh tab c =
    (if fh \<le> code c \<and> code c + 32 \<le> ll then char_of (code c + 32) else tab c)"
proof -
  have "(code c + 256 + fl - fh) mod 256 = (code c + 32) mod 256"
  proof -
    have "code c + 256 + fl - fh = (code c + 32) + 256" using assms(1) by simp
    then show ?thesis by (simp only: mod_add_self2)
  qed
  also have "\<dots> = (if code c + 32 < 256 then code c + 32 else code c + 32 - 256)"
    using code_less [of c] by (auto simp: le_mod_geq intro!: mod_less less_imp_diff_less)
  finally have i: "(code c + 256 + fl - fh) mod 256 =
      (if code c + 32 < 256 then code c + 32 else code c + 32 - 256)" .
  have "code c + 32 - 256 < 32" using code_less [of c] by linarith
  then show ?thesis
    using assms unfolding setLow_def Let_def i by auto
qed

lemma code_ToLower:
  "code (ToLower c) =
     (if (65 \<le> code c \<and> code c \<le> 94) \<or> (192 \<le> code c \<and> code c \<le> 222 \<and> code c \<noteq> 215)
      then code c + 32 else code c)"
proof -
  have "code c < 256" by simp
  then show ?thesis
    by (simp add: ToLower_def setLow_32 code_char_of) arith
qed

lemma setHi_32:
  assumes "fl = fh + 32" and "32 \<le> fl"
  shows "setHi fl ll fh tab c =
    (if fl \<le> code c \<and> code c \<le> ll then char_of (code c - 32) else tab c)"
proof -
  have "(code c + 256 + fh - fl) mod 256 = code c - 32" if "fl \<le> code c"
  proof -
    have "code c + 256 + fh - fl = (code c - 32) + 256" using that assms by simp
    moreover have "code c - 32 < 256" using code_less [of c] by linarith
    ultimately show ?thesis by simp
  qed
  then show ?thesis by (auto simp: setHi_def)
qed

lemma code_ToUpper:
  "code (ToUpper c) =
     (if (97 \<le> code c \<and> code c \<le> 126) \<or> (224 \<le> code c \<and> code c \<le> 254 \<and> code c \<noteq> 247)
      then code c - 32 else code c)"
proof -
  have "code c < 256" by simp
  then show ?thesis
    by (simp add: ToUpper_def setHi_32 code_char_of) arith
qed

lemma ToLower_idem [simp]: "ToLower (ToLower c) = ToLower c"
  by (simp add: code_inject [symmetric] code_ToLower)

lemma ToUpper_idem [simp]: "ToUpper (ToUpper c) = ToUpper c"
  by (auto simp: code_inject [symmetric] code_ToUpper)

lemma ToLower_ToUpper [simp]: "ToLower (ToUpper c) = ToLower c"
  by (auto simp: code_inject [symmetric] code_ToUpper code_ToLower)

lemma ToUpper_ToLower [simp]: "ToUpper (ToLower c) = ToUpper c"
  by (auto simp: code_inject [symmetric] code_ToUpper code_ToLower)

lemma ToLower_NUL_iff [simp]: "ToLower c = CHR 0x00 \<longleftrightarrow> c = CHR 0x00"
proof -
  have z: "code (CHR 0x00) = 0" by (simp add: code_def)
  have "code (ToLower c) = 0 \<longleftrightarrow> code c = 0" by (simp add: code_ToLower)
  then show ?thesis using code_inject z by metis
qed

section \<open>Character classes in closed form\<close>

text \<open>The bit of one class does not depend on the other classes, so each class is computed by
  the calls that set or copy its own bit.\<close>

lemma or_and_zero: "(x OR m) AND a = 0 \<longleftrightarrow> x AND a = 0 \<and> m AND a = (0 :: u32)"
  by (simp add: and.commute [of _ a] bit.conj_disj_distrib or_eq_0_iff)

lemma markString_and:
  "markString m s tab c AND a \<noteq> 0 \<longleftrightarrow>
     (if m AND a = 0 then tab c AND a \<noteq> 0 else c \<in> set s \<or> tab c AND a \<noteq> 0)"
proof (induction s arbitrary: tab)
  case (Cons d s)
  have "(tab(d := tab d OR m)) c AND a \<noteq> 0 \<longleftrightarrow> tab c AND a \<noteq> 0 \<or> (c = d \<and> m AND a \<noteq> 0)"
    by (simp add: or_and_zero)
  then show ?case
    unfolding markString.simps Cons.IH by auto
qed simp

lemma markRange_and:
  "markRange m f t tab c AND a \<noteq> 0 \<longleftrightarrow>
     (if m AND a = 0 then tab c AND a \<noteq> 0 else (f \<le> code c \<and> code c \<le> t) \<or> tab c AND a \<noteq> 0)"
  by (auto simp: markRange_def or_and_zero)

lemma moveMacro_and:
  "moveMacro f t tab c AND a \<noteq> 0 \<longleftrightarrow>
     (if t AND a = 0 then tab c AND a \<noteq> 0 else tab c AND f \<noteq> 0 \<or> tab c AND a \<noteq> 0)"
  by (auto simp: moveMacro_def or_and_zero)

lemma unMarkString_and:
  assumes "m AND a = 0"
  shows "unMarkString m s tab c AND a = tab c AND a"
proof -
  have disjoint: "\<not> (bit m n \<and> bit a n)" for n
    using arg_cong [OF assms, of "\<lambda>w. bit w n"] by (simp add: bit_and_iff)
  have keep: "(x AND NOT m) AND a = x AND a" for x :: u32
    by (rule bit_word_eqI) (use disjoint in \<open>auto simp: bit_simps\<close>)
  show ?thesis
    by (induction s arbitrary: tab) (simp_all add: keep)
qed

declare markString.simps [simp del] unMarkString.simps [simp del]

lemmas attr_and = markString_and markRange_and moveMacro_and unMarkString_and

lemma IsEol_iff: "IsEol c \<longleftrightarrow> c = CHR 0x0A \<or> c = CHR 0x0D"
  unfolding IsEol_def char_has_def makeTables_def
  by (simp add: attr_and NTL_defs)

lemma IsDigit_iff: "IsDigit c \<longleftrightarrow> 48 \<le> code c \<and> code c \<le> 57"
  unfolding IsDigit_def char_has_def makeTables_def
  by (simp add: attr_and NTL_defs)

lemma IsUpper_iff: "IsUpper c \<longleftrightarrow> 65 \<le> code c \<and> code c \<le> 94"
proof -
  have "c = d \<longleftrightarrow> code c = code d" for d by (simp add: code_inject)
  then show ?thesis
    unfolding IsUpper_def char_has_def makeTables_def
    by (simp add: attr_and NTL_defs) (simp add: code_def, arith)
qed

lemma IsLower_iff: "IsLower c \<longleftrightarrow> 97 \<le> code c \<and> code c \<le> 126"
proof -
  have "c = d \<longleftrightarrow> code c = code d" for d by (simp add: code_inject)
  then show ?thesis
    unfolding IsLower_def char_has_def makeTables_def
    by (simp add: attr_and NTL_defs) (simp add: code_def, arith)
qed

lemma IsAlpha_iff: "IsAlpha c \<longleftrightarrow> 65 \<le> code c \<and> code c \<le> 94 \<or> 97 \<le> code c \<and> code c \<le> 126"
proof -
  have "IsAlpha c \<longleftrightarrow> IsUpper c \<or> IsLower c"
    unfolding IsAlpha_def IsUpper_def IsLower_def char_has_def makeTables_def
    by (simp add: attr_and NTL_defs)
  then show ?thesis by (simp add: IsUpper_iff IsLower_iff)
qed

lemma IsAlnum_iff: "IsAlnum c \<longleftrightarrow> IsAlpha c \<or> IsDigit c"
  unfolding IsAlnum_def IsAlpha_def IsDigit_def char_has_def makeTables_def
  by (simp add: attr_and NTL_defs)

lemma IsNickChar_iff:
  "IsNickChar c \<longleftrightarrow> code c = 45 \<or> (48 \<le> code c \<and> code c \<le> 57) \<or> (65 \<le> code c \<and> code c \<le> 126)"
proof -
  have "c = d \<longleftrightarrow> code c = code d" for d by (simp add: code_inject)
  then show ?thesis
    unfolding IsNickChar_def char_has_def makeTables_def
    by (simp add: attr_and NTL_defs) (simp add: code_def, arith)
qed

text \<open>The tables agree with each other: upper and lower case are disjoint, the case maps
  exchange them and are inverse on the letters (ASCII letters, the four RFC 1459 pairs and the
  Latin-1 letters), both are idempotent, and mapping the case of a nickname character gives
  a nickname character.\<close>

lemma case_tables_consistent:
  "\<not> (IsUpper c \<and> IsLower c) \<and> (IsUpper c \<longrightarrow> IsLower (ToLower c)) \<and>
   (IsLower c \<longrightarrow> IsUpper (ToUpper c) \<and> ToLower (ToUpper c) = c) \<and>
   ToLower (ToLower c) = ToLower c \<and> ToUpper (ToUpper c) = ToUpper c \<and>
   (ToLower c = ToLower d \<longleftrightarrow> ToUpper c = ToUpper d) \<and>
   (IsNickChar c \<longrightarrow> IsNickChar (ToLower c))"
proof (intro conjI)
  show "\<not> (IsUpper c \<and> IsLower c)" by (auto simp: IsUpper_iff IsLower_iff)
  show "IsUpper c \<longrightarrow> IsLower (ToLower c)" by (auto simp: IsUpper_iff IsLower_iff code_ToLower)
  show "IsLower c \<longrightarrow> IsUpper (ToUpper c) \<and> ToLower (ToUpper c) = c"
    by (auto simp: IsUpper_iff IsLower_iff code_ToUpper code_ToLower code_inject [symmetric])
  show "ToLower c = ToLower d \<longleftrightarrow> ToUpper c = ToUpper d"
    by (metis ToLower_ToUpper ToUpper_ToLower)
  show "IsNickChar c \<longrightarrow> IsNickChar (ToLower c)"
    by (auto simp: IsNickChar_iff code_ToLower)
qed simp_all

lemma case_tables_consistent_witness:
  "IsUpper CHR ''['' \<and> IsLower (ToLower CHR ''['') \<and> IsNickChar (ToLower CHR ''['')"
proof -
  have "IsUpper CHR ''['' \<and> IsNickChar CHR ''[''"
    by (simp add: IsUpper_iff IsNickChar_iff code_def)
  then show ?thesis using case_tables_consistent [of "CHR ''[''" "CHR ''[''"] by simp
qed

end
