(* ===== verification/DBuf.thy ===== *)
theory DBuf
  imports Chattr
begin

text \<open>
  The receive buffers of \<^verbatim>\<open>ircd/dbuf.c\<close>: a byte stream kept in a chain of fixed-size
  blocks that come from a shared pool.

  A block is its read position and the bytes written to it, so the pointer \<^verbatim>\<open>end\<close> is the
  length of the data and the unwritten rest of the array, which the code never reads, is
  not represented. The chain from \<^verbatim>\<open>head\<close> is a list; \<^verbatim>\<open>tail\<close> is its last element. The
  pool holds the free list and the two counters. The features the code asks for and
  \<^verbatim>\<open>flush_connections\<close>, which may return blocks of other connections to the pool, come in
  through \<open>dbuf_env\<close>. It is called only with the feature \<^verbatim>\<open>HAS_FERGUSON_FLUSHER\<close>, off by default, and acts on the
  pool: that a flush can find a dead link and empty receive queues is not represented here.
\<close>

section \<open>Blocks, pool and queue\<close>

definition DBUF_SIZE :: nat where "DBUF_SIZE = 2048"

record dbufbuffer =
  buf_start :: nat
  buf_data :: string

record dbuf_pool =
  dbufFreeList :: "dbufbuffer list"
  DBufAllocCount :: int
  DBufUsedCount :: int

record dbuf_env =
  FEAT_BUFFERPOOL :: int
  FEAT_HAS_FERGUSON_FLUSHER :: bool
  flush_connections :: "dbuf_pool \<Rightarrow> dbuf_pool"

record dbuf =
  dyn_length :: u32
  dyn_bufs :: "dbufbuffer list"

definition new_buffer :: dbufbuffer where
  "new_buffer = \<lparr>buf_start = 0, buf_data = []\<rparr>"

definition content :: "dbufbuffer \<Rightarrow> string" where
  "content db = drop (buf_start db) (buf_data db)"

definition bytes :: "dbuf \<Rightarrow> string" where
  "bytes dyn = concat (map content (dyn_bufs dyn))"

definition dbuf_alloc :: "dbuf_env \<Rightarrow> dbuf_pool \<Rightarrow> dbufbuffer option \<times> dbuf_pool" where
  "dbuf_alloc env p =
     (case dbufFreeList p of
        db # fl \<Rightarrow> (Some db, p\<lparr>dbufFreeList := fl, DBufUsedCount := DBufUsedCount p + 1\<rparr>)
      | [] \<Rightarrow>
          if DBufAllocCount p * int DBUF_SIZE < FEAT_BUFFERPOOL env
          then (Some new_buffer, p\<lparr>DBufAllocCount := DBufAllocCount p + 1,
                                   DBufUsedCount := DBufUsedCount p + 1\<rparr>)
          else (None, p))"

definition dbuf_free :: "dbuf_pool \<Rightarrow> dbufbuffer \<Rightarrow> dbuf_pool" where
  "dbuf_free p db = p\<lparr>DBufUsedCount := DBufUsedCount p - 1, dbufFreeList := db # dbufFreeList p\<rparr>"

definition dbuf_malloc_error :: "dbuf_pool \<Rightarrow> dbufbuffer list \<Rightarrow> dbuf_pool" where
  "dbuf_malloc_error p bufs = foldl dbuf_free p bufs"

section \<open>Operations\<close>

text \<open>Allocation inside \<^verbatim>\<open>dbuf_put\<close>, with one retry after flushing if the feature asks for it.\<close>

definition dbuf_alloc_retry :: "dbuf_env \<Rightarrow> dbuf_pool \<Rightarrow> dbufbuffer option \<times> dbuf_pool" where
  "dbuf_alloc_retry env p =
     (case dbuf_alloc env p of
        (None, p1) \<Rightarrow>
          if FEAT_HAS_FERGUSON_FLUSHER env then dbuf_alloc env (flush_connections env p1)
          else (None, p1)
      | (Some db, p1) \<Rightarrow> (Some db, p1))"

text \<open>
  The loop of \<^verbatim>\<open>dbuf_put\<close>: \<open>pre\<close> are the blocks before the position \<^verbatim>\<open>h\<close>, \<open>rest\<close> those
  from \<^verbatim>\<open>*h\<close> on, \<open>buf\<close> the bytes still to be stored.
\<close>

function dbuf_put_loop ::
  "dbuf_env \<Rightarrow> dbuf_pool \<Rightarrow> dbufbuffer list \<Rightarrow> dbufbuffer list \<Rightarrow> string \<Rightarrow>
     dbuf_pool \<times> dbufbuffer list \<times> bool" where
  "dbuf_put_loop env p pre rest buf =
     (if buf = [] then (p, pre @ rest, True)
      else case rest of
        [] \<Rightarrow>
          (case dbuf_alloc_retry env p of
             (None, p1) \<Rightarrow> (dbuf_malloc_error p1 pre, [], False)
           | (Some db, p1) \<Rightarrow>
               dbuf_put_loop env p1
                 (pre @ [db\<lparr>buf_start := 0, buf_data := take DBUF_SIZE buf\<rparr>]) [] (drop DBUF_SIZE buf))
      | db # rest1 \<Rightarrow>
          let chunk = DBUF_SIZE - length (buf_data db) in
          dbuf_put_loop env p
            (pre @ [db\<lparr>buf_data := buf_data db @ take chunk buf\<rparr>]) rest1 (drop chunk buf))"
  by pat_completeness auto
termination
  by (relation "measure (\<lambda>(env, p, pre, rest, buf). length rest + length buf)")
    (auto simp: DBUF_SIZE_def)

declare dbuf_put_loop.simps [simp del]

definition dbuf_put ::
  "dbuf_env \<Rightarrow> dbuf_pool \<Rightarrow> dbuf \<Rightarrow> string \<Rightarrow> dbuf_pool \<times> dbuf \<times> bool" where
  "dbuf_put env p dyn buf =
     (let bufs = dyn_bufs dyn;
          (pre, rest) = (if dyn_length dyn = 0 then ([], bufs)
                         else if bufs = [] then ([], []) else (butlast bufs, [last bufs]))
      in case dbuf_put_loop env p pre rest buf of
           (p1, bufs1, True) \<Rightarrow>
             (p1, \<lparr>dyn_length = dyn_length dyn + word_of_nat (length buf), dyn_bufs = bufs1\<rparr>, True)
         | (p1, bufs1, False) \<Rightarrow> (p1, \<lparr>dyn_length = 0, dyn_bufs = []\<rparr>, False))"

definition dbuf_map :: "dbuf \<Rightarrow> string option" where
  "dbuf_map dyn =
     (if dyn_length dyn = 0 then None
      else case dyn_bufs dyn of [] \<Rightarrow> None | db # _ \<Rightarrow> Some (content db))"

function dbuf_delete_loop ::
  "dbuf_pool \<Rightarrow> nat \<Rightarrow> u32 \<Rightarrow> dbufbuffer list \<Rightarrow> dbuf_pool \<times> u32 \<times> dbufbuffer list" where
  "dbuf_delete_loop p n dl bufs =
     (if n = 0 then (p, dl, bufs)
      else case bufs of
        [] \<Rightarrow> (p, dl, [])
      | db # rest \<Rightarrow>
          let chunk = min (length (content db)) n;
              db1 = db\<lparr>buf_start := buf_start db + chunk\<rparr>
          in if content db1 = []
             then dbuf_delete_loop (dbuf_free p db1) (n - chunk) (dl - word_of_nat chunk) rest
             else dbuf_delete_loop p (n - chunk) (dl - word_of_nat chunk) (db1 # rest))"
  by pat_completeness auto
termination
  by (relation "measure (\<lambda>(p, n, dl, bufs). n + length bufs)")
    (auto simp: content_def min_def not_le split: if_splits)

declare dbuf_delete_loop.simps [simp del]

definition dbuf_delete :: "dbuf_pool \<Rightarrow> dbuf \<Rightarrow> nat \<Rightarrow> dbuf_pool \<times> dbuf" where
  "dbuf_delete p dyn n =
     (case dbuf_delete_loop p (min n (unat (dyn_length dyn))) (dyn_length dyn) (dyn_bufs dyn) of
        (p1, dl, bufs) \<Rightarrow> (p1, \<lparr>dyn_length = (if bufs = [] then 0 else dl), dyn_bufs = bufs\<rparr>))"

text \<open>A first block without data would keep the loop of \<^verbatim>\<open>dbuf_get\<close> running for ever.\<close>

partial_function (option) dbuf_get_loop ::
  "dbuf_pool \<Rightarrow> dbuf \<Rightarrow> nat \<Rightarrow> string \<Rightarrow> (dbuf_pool \<times> dbuf \<times> string) option" where
  "dbuf_get_loop p dyn n moved =
     (if n = 0 then Some (p, dyn, moved)
      else case dbuf_map dyn of
        None \<Rightarrow> Some (p, dyn, moved)
      | Some b \<Rightarrow>
          let chunk = min (length b) n; (p1, dyn1) = dbuf_delete p dyn chunk
          in dbuf_get_loop p1 dyn1 (n - chunk) (moved @ take chunk b))"

declare dbuf_get_loop.simps [code]

definition dbuf_get :: "dbuf_pool \<Rightarrow> dbuf \<Rightarrow> nat \<Rightarrow> (dbuf_pool \<times> dbuf \<times> string) option" where
  "dbuf_get p dyn n = dbuf_get_loop p dyn n []"

function dbuf_flush_loop ::
  "dbuf_pool \<Rightarrow> u32 \<Rightarrow> dbufbuffer list \<Rightarrow> (dbuf_pool \<times> u32 \<times> dbufbuffer list) option" where
  "dbuf_flush_loop p dl bufs =
     (case bufs of
        [] \<Rightarrow> Some (p, dl, [])
      | db # rest \<Rightarrow>
          (case content db of
             [] \<Rightarrow> None
           | c # cs \<Rightarrow>
               if IsEol c
               then let db1 = db\<lparr>buf_start := Suc (buf_start db)\<rparr> in
                 if cs = []
                 then if rest = [] then Some (dbuf_free p db1, 0, [])
                      else dbuf_flush_loop (dbuf_free p db1) (dl - 1) rest
                 else dbuf_flush_loop p (dl - 1) (db1 # rest)
               else Some (p, dl, bufs)))"
  by pat_completeness auto
termination
proof (relation "measure (\<lambda>(p, dl, bufs). length bufs + length (concat (map content bufs)))",
    goal_cases)
  case (3 p dl bufs db rest c cs db1)
  then have "drop (Suc (buf_start db)) (buf_data db) = cs"
    by (metis content_def drop_Suc list.sel(3) tl_drop)
  with 3 show ?case by (simp add: content_def)
qed auto

declare dbuf_flush_loop.simps [simp del]

definition dbuf_flush :: "dbuf_pool \<Rightarrow> dbuf \<Rightarrow> (dbuf_pool \<times> dbuf) option" where
  "dbuf_flush p dyn =
     (if dyn_bufs dyn = [] then Some (p, dyn)
      else map_option (\<lambda>(p1, dl, bufs). (p1, \<lparr>dyn_length = dl, dyn_bufs = bufs\<rparr>))
        (dbuf_flush_loop p (dyn_length dyn) (dyn_bufs dyn)))"

fun getmsg_scan :: "dbufbuffer list \<Rightarrow> nat \<Rightarrow> string \<Rightarrow> string option" where
  "getmsg_scan [] n copied = None"
| "getmsg_scan (db # rest) n copied =
     (if n = 0 then None
      else let avail = take n (content db); line = takeWhile (\<lambda>c. \<not> IsEol c) avail
        in if length line < length avail then Some (copied @ line)
           else getmsg_scan rest (n - length line) (copied @ line))"

text \<open>The result holds the bytes copied to the caller; no bytes stand for the return value 0.\<close>

definition dbuf_getmsg :: "dbuf_pool \<Rightarrow> dbuf \<Rightarrow> nat \<Rightarrow> (dbuf_pool \<times> dbuf \<times> string) option" where
  "dbuf_getmsg p dyn n =
     dbuf_flush p dyn \<bind> (\<lambda>(p1, dyn1).
       if dyn_bufs dyn1 = [] \<or> dyn_length dyn1 = 0 then Some (p1, dyn1, [])
       else case getmsg_scan (dyn_bufs dyn1) (min n (unat (dyn_length dyn1))) [] of
         None \<Rightarrow> Some (p1, dyn1, [])
       | Some line \<Rightarrow>
           (case dbuf_delete p1 dyn1 (length line) of
              (p2, dyn2) \<Rightarrow>
                map_option (\<lambda>(p3, dyn3). (p3, dyn3, line)) (dbuf_flush p2 dyn2)))"

section \<open>Invariant\<close>

definition block_ok :: "dbufbuffer \<Rightarrow> bool" where
  "block_ok db \<longleftrightarrow> buf_start db < length (buf_data db) \<and> length (buf_data db) \<le> DBUF_SIZE"

definition dbuf_inv :: "dbuf \<Rightarrow> bool" where
  "dbuf_inv dyn \<longleftrightarrow> list_all block_ok (dyn_bufs dyn) \<and> unat (dyn_length dyn) = length (bytes dyn)"

lemma block_ok_content: "block_ok db \<Longrightarrow> content db \<noteq> []"
  by (simp add: block_ok_def content_def)

lemma dbuf_inv_empty_iff:
  assumes "dbuf_inv dyn"
  shows "dyn_length dyn = 0 \<longleftrightarrow> dyn_bufs dyn = []"
proof -
  have "dyn_length dyn = 0 \<longleftrightarrow> bytes dyn = []"
    using assms by (simp add: dbuf_inv_def flip: unat_0_iff)
  also have "\<dots> \<longleftrightarrow> dyn_bufs dyn = []"
    using assms by (cases "dyn_bufs dyn") (auto simp: bytes_def dbuf_inv_def dest: block_ok_content)
  finally show ?thesis .
qed

section \<open>Storing\<close>

lemma content_append:
  "block_ok db \<Longrightarrow> content (db\<lparr>buf_data := buf_data db @ xs\<rparr>) = content db @ xs"
  by (simp add: content_def block_ok_def)

lemma block_ok_append:
  "block_ok db \<Longrightarrow> block_ok (db\<lparr>buf_data := buf_data db @ take (DBUF_SIZE - length (buf_data db)) xs\<rparr>)"
  by (auto simp: block_ok_def)

lemma fresh_block:
  "buf \<noteq> [] \<Longrightarrow> block_ok (db\<lparr>buf_start := 0, buf_data := take DBUF_SIZE buf\<rparr>)"
  "content (db\<lparr>buf_start := 0, buf_data := take DBUF_SIZE buf\<rparr>) = take DBUF_SIZE buf"
  by (auto simp: block_ok_def content_def DBUF_SIZE_def)

lemma dbuf_put_loop_bytes:
  assumes "dbuf_put_loop env p pre rest buf = (p', bufs', True)"
    and "list_all block_ok (pre @ rest)" and "length rest \<le> 1"
  shows "list_all block_ok bufs' \<and>
    concat (map content bufs') = concat (map content (pre @ rest)) @ buf"
  using assms
proof (induction env p pre rest buf rule: dbuf_put_loop.induct)
  case (1 env p pre rest buf)
  show ?case
  proof (cases "buf = []")
    case True
    with 1 show ?thesis by (simp add: dbuf_put_loop.simps)
  next
    case False
    show ?thesis
    proof (cases rest)
      case Nil
      then obtain db p1 where alloc: "dbuf_alloc_retry env p = (Some db, p1)"
        using "1.prems"(1) False
        by (cases "dbuf_alloc_retry env p") (auto simp: dbuf_put_loop.simps split: option.splits)
      with 1 False Nil show ?thesis
        using fresh_block(1) [OF False, of db] fresh_block(2)
        by (simp add: dbuf_put_loop.simps [of env p pre "[]" buf])
    next
      case (Cons db rest1)
      then have "rest1 = []" using "1.prems"(3) by simp
      with 1 False Cons show ?thesis
        using content_append [of db] block_ok_append [of db buf]
        by (simp add: dbuf_put_loop.simps [of env p pre "[db]" buf] Let_def)
    qed
  qed
qed

lemma dbuf_put_bytes:
  assumes inv: "dbuf_inv dyn" and room: "length (bytes dyn) + length buf < 2 ^ 32"
    and put: "dbuf_put env p dyn buf = (p', dyn', ok)"
  shows "dbuf_inv dyn' \<and> bytes dyn' = (if ok then bytes dyn @ buf else [])"
proof -
  let ?bufs = "dyn_bufs dyn"
  obtain pre rest where split: "(pre, rest) = (if dyn_length dyn = 0 then ([], ?bufs)
      else if ?bufs = [] then ([], []) else (butlast ?bufs, [last ?bufs]))"
    by (metis surj_pair)
  have pr: "pre @ rest = ?bufs" "length rest \<le> 1"
    using split dbuf_inv_empty_iff [OF inv] by (auto split: if_splits)
  obtain bufs' where loop: "dbuf_put_loop env p pre rest buf = (p', bufs', ok)"
    and dyn': "dyn' = (if ok then \<lparr>dyn_length = dyn_length dyn + word_of_nat (length buf), dyn_bufs = bufs'\<rparr>
        else \<lparr>dyn_length = 0, dyn_bufs = []\<rparr>)"
    using put by (auto simp: dbuf_put_def split [symmetric] Let_def split: prod.splits bool.splits)
  show ?thesis
  proof (cases ok)
    case True
    then have "list_all block_ok bufs' \<and> concat (map content bufs') = bytes dyn @ buf"
      using dbuf_put_loop_bytes [of env p pre rest buf p' bufs'] loop pr inv
      by (simp add: dbuf_inv_def bytes_def)
    moreover have "unat (dyn_length dyn + word_of_nat (length buf)) = length (bytes dyn) + length buf"
      using room inv by (simp add: dbuf_inv_def unat_word_ariths unat_of_nat)
    ultimately show ?thesis
      using True dyn' by (simp add: dbuf_inv_def bytes_def)
  next
    case False
    then show ?thesis using dyn' by (simp add: dbuf_inv_def bytes_def)
  qed
qed

section \<open>Removing\<close>

lemma dbuf_delete_loop_bytes:
  assumes "dbuf_delete_loop p n dl bufs = (p', dl', bufs')" and "list_all block_ok bufs"
    and "n \<le> length (concat (map content bufs))" and "unat dl = length (concat (map content bufs))"
  shows "list_all block_ok bufs' \<and>
    concat (map content bufs') = drop n (concat (map content bufs)) \<and>
    unat dl' = length (concat (map content bufs'))"
  using assms
proof (induction p n dl bufs rule: dbuf_delete_loop.induct)
  case (1 p n dl bufs)
  show ?case
  proof (cases "n = 0 \<or> bufs = []")
    case True
    then have "dbuf_delete_loop p n dl bufs = (p, dl, bufs) \<and> n = 0"
      using "1.prems"(3) dbuf_delete_loop.simps [of p 0 dl bufs] by auto
    with "1.prems" show ?thesis by auto
  next
    case False
    then obtain db rest where bufs: "bufs = db # rest" by (cases bufs) auto
    define chunk where "chunk = min (length (content db)) n"
    define db1 where "db1 = db\<lparr>buf_start := buf_start db + chunk\<rparr>"
    have c1: "content db1 = drop chunk (content db)"
      by (simp add: db1_def content_def add.commute)
    have dl: "unat (dl - word_of_nat chunk) = unat dl - chunk"
    proof -
      have "chunk \<le> unat dl" using "1.prems"(3,4) bufs by (auto simp: chunk_def)
      moreover from this have "unat (word_of_nat chunk :: u32) = chunk"
        using u32_bound [of dl] by (simp add: unat_of_nat)
      ultimately show ?thesis by (subst unat_sub) (auto simp: word_le_nat_alt)
    qed
    show ?thesis
    proof (cases "content db1 = []")
      case True
      then have "chunk = length (content db)" "length (content db) \<le> n" using c1 by (auto simp: chunk_def)
      moreover have "dbuf_delete_loop (dbuf_free p db1) (n - chunk) (dl - word_of_nat chunk) rest =
          (p', dl', bufs')"
        using "1.prems"(1) False bufs True
        by (simp add: dbuf_delete_loop.simps [of p n] Let_def flip: chunk_def db1_def)
      ultimately show ?thesis
        using "1.IH"(1) [OF _ bufs chunk_def db1_def] False True "1.prems" bufs dl by auto
    next
      case notempty: False
      then have n: "chunk = n" "n < length (content db)" using c1 by (auto simp: chunk_def)
      have "block_ok db1" using notempty "1.prems"(2) bufs
        by (auto simp: block_ok_def db1_def content_def)
      moreover have "dbuf_delete_loop p (n - chunk) (dl - word_of_nat chunk) (db1 # rest) =
          (p', dl', bufs')"
        using "1.prems"(1) False bufs notempty
        by (simp add: dbuf_delete_loop.simps [of p n] Let_def flip: chunk_def db1_def)
      ultimately show ?thesis
        using n "1.prems" bufs dl c1 by (auto simp: dbuf_delete_loop.simps [of p 0])
    qed
  qed
qed

lemma dbuf_delete_bytes:
  assumes "dbuf_inv dyn" and "dbuf_delete p dyn n = (p', dyn')"
  shows "dbuf_inv dyn' \<and> bytes dyn' = drop n (bytes dyn)"
proof -
  let ?n = "min n (unat (dyn_length dyn))"
  obtain dl bufs where loop:
      "dbuf_delete_loop p ?n (dyn_length dyn) (dyn_bufs dyn) = (p', dl, bufs)"
    and dyn': "dyn' = \<lparr>dyn_length = (if bufs = [] then 0 else dl), dyn_bufs = bufs\<rparr>"
    using assms(2) by (auto simp: dbuf_delete_def split: prod.splits)
  have "list_all block_ok bufs \<and> concat (map content bufs) = drop ?n (bytes dyn) \<and>
      unat dl = length (concat (map content bufs))"
    using dbuf_delete_loop_bytes [OF loop] assms(1) by (simp add: dbuf_inv_def bytes_def)
  moreover have "drop ?n (bytes dyn) = drop n (bytes dyn)"
    using assms(1) by (auto simp: dbuf_inv_def min_def)
  ultimately show ?thesis using dyn' by (auto simp: dbuf_inv_def bytes_def)
qed

lemma dbuf_flush_loop_bytes:
  assumes "list_all block_ok bufs" and "unat dl = length (concat (map content bufs))"
  shows "\<exists>p' dl' bufs'. dbuf_flush_loop p dl bufs = Some (p', dl', bufs') \<and>
    list_all block_ok bufs' \<and>
    concat (map content bufs') = dropWhile IsEol (concat (map content bufs)) \<and>
    unat dl' = length (concat (map content bufs'))"
  using assms
proof (induction p dl bufs rule: dbuf_flush_loop.induct)
  case (1 p dl bufs)
  show ?case
  proof (cases bufs)
    case Nil
    with 1 show ?thesis by (simp add: dbuf_flush_loop.simps)
  next
    case (Cons db rest)
    then obtain c cs where c: "content db = c # cs"
      using "1.prems"(1) block_ok_content [of db] by (cases "content db") auto
    let ?db1 = "db\<lparr>buf_start := Suc (buf_start db)\<rparr>"
    have cs: "content ?db1 = cs"
      using c by (simp add: content_def) (metis drop_Suc list.sel(3) tl_drop)
    have dl: "unat (dl - 1) = unat dl - 1"
      using "1.prems"(2) Cons c by (subst unat_sub) (auto simp: word_le_nat_alt)
    show ?thesis
    proof (cases "IsEol c")
      case False
      with Cons c "1.prems" show ?thesis
        by (auto simp: dbuf_flush_loop.simps [of p dl "db # rest"])
    next
      case True
      show ?thesis
      proof (cases "cs = []")
        case empty: True
        with Cons c True 1 dl show ?thesis
          by (cases "rest = []")
            (auto simp: dbuf_flush_loop.simps [of p dl "[db]"] dbuf_flush_loop.simps [of p dl "db # rest"] Let_def)
      next
        case False
        have "block_ok ?db1"
          using Cons "1.prems"(1) False cs by (auto simp: block_ok_def content_def)
        with 1 False Cons c cs True dl show ?thesis
          by (auto simp: dbuf_flush_loop.simps [of p dl "db # rest"] Let_def)
      qed
    qed
  qed
qed

lemma dbuf_flush_bytes:
  assumes "dbuf_inv dyn"
  shows "\<exists>p' dyn'. dbuf_flush p dyn = Some (p', dyn') \<and> dbuf_inv dyn' \<and>
    bytes dyn' = dropWhile IsEol (bytes dyn)"
  using dbuf_flush_loop_bytes [of "dyn_bufs dyn" "dyn_length dyn" p] assms
  by (auto simp: dbuf_flush_def dbuf_inv_def bytes_def)

lemma dbuf_get_loop_bytes:
  assumes "dbuf_inv dyn"
  shows "\<exists>p' dyn'. dbuf_get_loop p dyn n moved = Some (p', dyn', moved @ take n (bytes dyn)) \<and>
    dbuf_inv dyn' \<and> bytes dyn' = drop n (bytes dyn)"
  using assms
proof (induction n arbitrary: p dyn moved rule: less_induct)
  case (less n)
  show ?case
  proof (cases "n = 0 \<or> dyn_bufs dyn = []")
    case True
    with less.prems dbuf_inv_empty_iff [OF less.prems] show ?thesis
      by (auto simp: dbuf_get_loop.simps [of p dyn n moved] dbuf_map_def bytes_def)
  next
    case False
    then obtain db rest where bufs: "dyn_bufs dyn = db # rest" by (cases "dyn_bufs dyn") auto
    then have ne: "content db \<noteq> []"
      using less.prems block_ok_content [of db] by (simp add: dbuf_inv_def)
    let ?k = "min (length (content db)) n"
    obtain p1 dyn1 where del: "dbuf_delete p dyn ?k = (p1, dyn1)" by fastforce
    note d1 = dbuf_delete_bytes [OF less.prems del]
    have step: "dbuf_get_loop p dyn n moved =
        dbuf_get_loop p1 dyn1 (n - ?k) (moved @ take ?k (content db))"
      using False bufs dbuf_inv_empty_iff [OF less.prems] del
      by (simp add: dbuf_get_loop.simps [of p dyn n moved] dbuf_map_def Let_def)
    have "take ?k (content db) @ take (n - ?k) (drop ?k (bytes dyn)) = take n (bytes dyn)"
      using bufs by (auto simp: bytes_def min_def)
    moreover have "?k + (n - ?k) = n" by simp
    moreover have "n - ?k < n" using False ne by (simp add: min_def)
    ultimately show ?thesis
      using less.IH [of "n - ?k" dyn1 p1 "moved @ take ?k (content db)"] step d1 by simp
  qed
qed

lemma dbuf_get_bytes:
  assumes "dbuf_inv dyn"
  shows "\<exists>p' dyn'. dbuf_get p dyn n = Some (p', dyn', take n (bytes dyn)) \<and>
    dbuf_inv dyn' \<and> bytes dyn' = drop n (bytes dyn)"
  using dbuf_get_loop_bytes [OF assms, of p n "[]"] by (simp add: dbuf_get_def)

section \<open>Taking a line\<close>

definition getmsg_spec :: "nat \<Rightarrow> string \<Rightarrow> string \<times> string" where
  "getmsg_spec n bs =
     (let bs1 = dropWhile IsEol bs; line = takeWhile (\<lambda>c. \<not> IsEol c) (take n bs1)
      in if length line < min n (length bs1) then (line, dropWhile IsEol (drop (length line) bs1))
         else ([], bs1))"

lemma takeWhile_split:
  "length (takeWhile P xs) = length xs \<Longrightarrow> takeWhile P (xs @ ys) = xs @ takeWhile P ys"
  "length (takeWhile P xs) < length xs \<Longrightarrow> takeWhile P (xs @ ys) = takeWhile P xs"
  by (induction xs) (auto split: if_splits)

lemma getmsg_scan_eq:
  "getmsg_scan bufs n copied =
     (let w = take n (concat (map content bufs)); line = takeWhile (\<lambda>c. \<not> IsEol c) w
      in if length line < length w then Some (copied @ line) else None)"
proof (induction bufs n copied rule: getmsg_scan.induct)
  case (2 db rest n copied)
  let ?P = "\<lambda>c. \<not> IsEol c" and ?a = "take n (content db)"
  let ?rest = "take (n - length (content db)) (concat (map content rest))"
  show ?case
  proof (cases "n = 0 \<or> length (takeWhile ?P ?a) < length ?a")
    case True
    then show ?thesis using takeWhile_split(2) [of ?P ?a ?rest] by (auto simp: Let_def)
  next
    case False
    then have all: "length (takeWhile ?P ?a) = length ?a"
      using length_takeWhile_le [of ?P ?a] by linarith
    then have tw: "takeWhile ?P ?a = ?a" by (metis takeWhile_eq_take take_all order_refl)
    have len: "n - length ?a = n - length (content db)" by simp
    have w: "take n (concat (map content (db # rest))) = ?a @ ?rest" by simp
    have "getmsg_scan (db # rest) n copied = getmsg_scan rest (n - length (content db)) (copied @ ?a)"
      using False len unfolding getmsg_scan.simps Let_def tw by (simp only: if_False HOL.simp_thms) auto
    also have "\<dots> = (if length (takeWhile ?P ?rest) < length ?rest
        then Some ((copied @ ?a) @ takeWhile ?P ?rest) else None)"
      using 2 [OF _ refl refl] False unfolding tw len Let_def by auto
    finally show ?thesis
      unfolding Let_def w takeWhile_split(1) [OF all] by simp
  qed
qed simp

lemma dbuf_getmsg_spec:
  assumes inv: "dbuf_inv dyn"
  shows "\<exists>p' dyn'. dbuf_getmsg p dyn n = Some (p', dyn', fst (getmsg_spec n (bytes dyn))) \<and>
    dbuf_inv dyn' \<and> bytes dyn' = snd (getmsg_spec n (bytes dyn))"
proof -
  obtain p1 dyn1 where fl: "dbuf_flush p dyn = Some (p1, dyn1)" and inv1: "dbuf_inv dyn1"
    and b1: "bytes dyn1 = dropWhile IsEol (bytes dyn)"
    using dbuf_flush_bytes [OF inv, of p] by blast
  let ?w = "take n (bytes dyn1)"
  let ?line = "takeWhile (\<lambda>c. \<not> IsEol c) ?w"
  have scan: "getmsg_scan (dyn_bufs dyn1) (min n (unat (dyn_length dyn1))) [] =
      (if length ?line < length ?w then Some ?line else None)"
    using inv1 by (simp add: getmsg_scan_eq dbuf_inv_def Let_def flip: bytes_def)
      (metis min.commute take_take take_all order_refl)
  have w: "length ?w = min n (length (bytes dyn1))" by simp
  show ?thesis
  proof (cases "length ?line < length ?w")
    case False
    then show ?thesis
      using fl scan b1 inv1 w by (auto simp: dbuf_getmsg_def getmsg_spec_def Let_def)
  next
    case True
    then have ne: "dyn_bufs dyn1 \<noteq> []" by (auto simp: bytes_def)
    obtain p2 dyn2 where del: "dbuf_delete p1 dyn1 (length ?line) = (p2, dyn2)" by fastforce
    note d2 = dbuf_delete_bytes [OF inv1 del]
    obtain p3 dyn3 where "dbuf_flush p2 dyn2 = Some (p3, dyn3)" and "dbuf_inv dyn3"
      and "bytes dyn3 = dropWhile IsEol (bytes dyn2)"
      using dbuf_flush_bytes d2 by blast
    then show ?thesis
      using fl scan b1 del True ne w dbuf_inv_empty_iff [OF inv1] d2
      by (simp add: dbuf_getmsg_def getmsg_spec_def Let_def)
  qed
qed

section \<open>Pool accounting\<close>

text \<open>
  \<open>pool_ok env k p\<close>: of the allocated blocks \<open>k\<close> are in use and the others are on the free
  list, and no more blocks were allocated than the feature allows.
\<close>

definition pool_ok :: "dbuf_env \<Rightarrow> nat \<Rightarrow> dbuf_pool \<Rightarrow> bool" where
  "pool_ok env k p \<longleftrightarrow> DBufUsedCount p = int k \<and>
     DBufAllocCount p = DBufUsedCount p + int (length (dbufFreeList p)) \<and>
     DBufAllocCount p * int DBUF_SIZE < FEAT_BUFFERPOOL env + int DBUF_SIZE"

lemma pool_ok_free [simp]: "pool_ok env k (dbuf_free p db) \<longleftrightarrow> pool_ok env (Suc k) p"
  by (auto simp: pool_ok_def dbuf_free_def)

lemma pool_ok_alloc [ircd_inv]:
  "pool_ok env k p \<Longrightarrow> dbuf_alloc env p = (None, p') \<Longrightarrow> pool_ok env k p'"
  "pool_ok env k p \<Longrightarrow> dbuf_alloc env p = (Some db, p') \<Longrightarrow> pool_ok env (Suc k) p'"
  by (auto simp: pool_ok_def dbuf_alloc_def algebra_simps split: list.splits if_splits)

lemma pool_ok_alloc_retry:
  assumes "\<not> FEAT_HAS_FERGUSON_FLUSHER env" and "pool_ok env k p" and "dbuf_alloc_retry env p = (r, p')"
  shows "pool_ok env (if r = None then k else Suc k) p'"
proof (cases "dbuf_alloc env p")
  case (Pair r1 p1)
  with assms show ?thesis
    by (cases r1; cases r)
      (auto simp: dbuf_alloc_retry_def split: if_splits dest: pool_ok_alloc)
qed

lemma pool_ok_malloc_error:
  "pool_ok env (k + length bufs) p \<Longrightarrow> pool_ok env k (dbuf_malloc_error p bufs)"
  unfolding dbuf_malloc_error_def
  by (induction bufs arbitrary: p) auto

lemma pool_ok_put_loop:
  assumes "\<not> FEAT_HAS_FERGUSON_FLUSHER env" and "pool_ok env (k + length (pre @ rest)) p"
    and "dbuf_put_loop env p pre rest buf = (p', bufs', ok)"
  shows "pool_ok env (k + length bufs') p'"
  using assms
proof (induction env p pre rest buf rule: dbuf_put_loop.induct)
  case (1 env p pre rest buf)
  show ?case
  proof (cases "buf = []")
    case True
    with "1.prems" show ?thesis by (auto simp: dbuf_put_loop.simps [of env p pre rest "[]"])
  next
    case False
    show ?thesis
    proof (cases rest)
      case Nil
      obtain r p1 where alloc: "dbuf_alloc_retry env p = (r, p1)" by fastforce
      have ok: "pool_ok env (if r = None then k + length pre else Suc (k + length pre)) p1"
        using pool_ok_alloc_retry [OF "1.prems"(1) _ alloc] "1.prems"(2) Nil by simp
      show ?thesis
      proof (cases r)
        case None
        with "1.prems"(3) False Nil alloc ok pool_ok_malloc_error [of env k pre p1] show ?thesis
          by (auto simp: dbuf_put_loop.simps [of env p pre "[]" buf])
      next
        case (Some db)
        with 1 False Nil alloc ok show ?thesis
          by (auto simp: dbuf_put_loop.simps [of env p pre "[]" buf])
      qed
    next
      case (Cons db rest1)
      with 1 False show ?thesis
        by (auto simp: dbuf_put_loop.simps [of env p pre "db # rest1" buf] Let_def)
    qed
  qed
qed

lemma dbuf_put_loop_fail:
  "dbuf_put_loop env p pre rest buf = (p', bufs', ok) \<Longrightarrow> ok \<or> bufs' = []"
proof (induction env p pre rest buf rule: dbuf_put_loop.induct)
  case (1 env p pre rest buf)
  show ?case
  proof (cases rest)
    case Nil
    with 1 show ?thesis
      by (auto simp: dbuf_put_loop.simps [of env p pre "[]" buf] split: if_splits option.splits prod.splits)
  next
    case (Cons db rest1)
    with 1 show ?thesis
      by (auto simp: dbuf_put_loop.simps [of env p pre "db # rest1" buf] Let_def split: if_splits)
  qed
qed

lemma pool_ok_delete_loop:
  assumes "pool_ok env (k + length bufs) p" and "dbuf_delete_loop p n dl bufs = (p', dl', bufs')"
  shows "pool_ok env (k + length bufs') p'"
  using assms
proof (induction p n dl bufs rule: dbuf_delete_loop.induct)
  case (1 p n dl bufs)
  show ?case
  proof (cases "n = 0 \<or> bufs = []")
    case True
    with "1.prems" show ?thesis
      using dbuf_delete_loop.simps [of p 0 dl bufs] dbuf_delete_loop.simps [of p n dl "[]"]
      by (auto split: if_splits)
  next
    case False
    then obtain db rest where bufs: "bufs = db # rest" by (cases bufs) auto
    with 1 False show ?thesis
      by (auto simp: dbuf_delete_loop.simps [of p n dl "db # rest"] Let_def 
          split: if_splits)
  qed
qed

lemma pool_ok_flush_loop:
  assumes "pool_ok env (k + length bufs) p" and "dbuf_flush_loop p dl bufs = Some (p', dl', bufs')"
  shows "pool_ok env (k + length bufs') p'"
  using assms
proof (induction p dl bufs rule: dbuf_flush_loop.induct)
  case (1 p dl bufs)
  show ?case
  proof (cases bufs)
    case Nil
    with "1.prems" show ?thesis by (auto simp: dbuf_flush_loop.simps [of p dl "[]"])
  next
    case (Cons db rest)
    with 1 show ?thesis
      by (auto simp: dbuf_flush_loop.simps [of p dl "db # rest"] Let_def 
          split: if_splits list.splits)
  qed
qed

lemma pool_ok_put:
  assumes "dbuf_inv dyn" and "\<not> FEAT_HAS_FERGUSON_FLUSHER env" and "pool_ok env (k + length (dyn_bufs dyn)) p"
    and "dbuf_put env p dyn buf = (p', dyn', ok)"
  shows "pool_ok env (k + length (dyn_bufs dyn')) p'"
proof -
  let ?bufs = "dyn_bufs dyn"
  obtain pre rest where split: "(pre, rest) = (if dyn_length dyn = 0 then ([], ?bufs)
      else if ?bufs = [] then ([], []) else (butlast ?bufs, [last ?bufs]))"
    by (metis surj_pair)
  have pr: "pre @ rest = ?bufs"
    using split dbuf_inv_empty_iff [OF assms(1)] by (auto split: if_splits)
  obtain bufs' where loop: "dbuf_put_loop env p pre rest buf = (p', bufs', ok)"
    and "dyn_bufs dyn' = (if ok then bufs' else [])"
    using assms(4) by (auto simp: dbuf_put_def split [symmetric] Let_def split: prod.splits bool.splits)
  moreover have "ok \<or> bufs' = []" using dbuf_put_loop_fail loop by metis
  ultimately show ?thesis using pool_ok_put_loop [OF assms(2) _ loop, of k] assms(3) pr by auto
qed

lemma pool_ok_delete:
  assumes "pool_ok env (k + length (dyn_bufs dyn)) p" and "dbuf_delete p dyn n = (p', dyn')"
  shows "pool_ok env (k + length (dyn_bufs dyn')) p'"
  using assms pool_ok_delete_loop [of env k "dyn_bufs dyn" p]
  by (fastforce simp: dbuf_delete_def split: prod.splits)

lemma pool_ok_flush:
  assumes "pool_ok env (k + length (dyn_bufs dyn)) p" and "dbuf_flush p dyn = Some (p', dyn')"
  shows "pool_ok env (k + length (dyn_bufs dyn')) p'"
  using assms pool_ok_flush_loop [of env k "dyn_bufs dyn" p]
  by (auto simp: dbuf_flush_def split: if_splits)

lemma pool_ok_getmsg:
  assumes "pool_ok env (k + length (dyn_bufs dyn)) p" and "dbuf_getmsg p dyn n = Some (p', dyn', line)"
  shows "pool_ok env (k + length (dyn_bufs dyn')) p'"
proof -
  from assms(2) obtain p1 dyn1 where fl: "dbuf_flush p dyn = Some (p1, dyn1)"
    by (auto simp: dbuf_getmsg_def bind_eq_Some_conv)
  note ok1 = pool_ok_flush [OF assms(1) this]
  obtain p2 dyn2 where del: "dbuf_delete p1 dyn1 (length line) = (p2, dyn2)" by fastforce
  have "(p', dyn') = (p1, dyn1) \<or> dbuf_flush p2 dyn2 = Some (p', dyn')"
    using assms(2) fl del by (auto simp: dbuf_getmsg_def split: if_splits option.splits prod.splits)
  with ok1 pool_ok_delete [OF ok1 del] pool_ok_flush [of env k dyn2 p2] show ?thesis by auto
qed

lemma pool_ok_get_loop:
  assumes "dbuf_inv dyn" and "pool_ok env (k + length (dyn_bufs dyn)) p"
    and "dbuf_get_loop p dyn n moved = Some (p', dyn', out)"
  shows "pool_ok env (k + length (dyn_bufs dyn')) p'"
  using assms
proof (induction n arbitrary: p dyn moved rule: less_induct)
  case (less n)
  show ?case
  proof (cases "n = 0 \<or> dyn_bufs dyn = []")
    case True
    with less.prems dbuf_inv_empty_iff [OF less.prems(1)] show ?thesis
      by (auto simp: dbuf_get_loop.simps [of p dyn n moved] dbuf_map_def split: if_splits)
  next
    case False
    then obtain db rest where bufs: "dyn_bufs dyn = db # rest" by (cases "dyn_bufs dyn") auto
    then have "content db \<noteq> []"
      using less.prems(1) block_ok_content [of db] by (simp add: dbuf_inv_def)
    then have "n - min (length (content db)) n < n" using False by (simp add: min_def)
    moreover obtain p1 dyn1 where del: "dbuf_delete p dyn (min (length (content db)) n) = (p1, dyn1)"
      by fastforce
    moreover note dbuf_delete_bytes [OF less.prems(1) del] pool_ok_delete [OF less.prems(2) del]
    ultimately show ?thesis
      using False bufs dbuf_inv_empty_iff [OF less.prems(1)] less.prems(3)
        less.IH [of "n - min (length (content db)) n" dyn1 p1]
      by (auto simp: dbuf_get_loop.simps [of p dyn n moved] dbuf_map_def Let_def)
  qed
qed

lemma pool_ok_get:
  assumes "dbuf_inv dyn" and "pool_ok env (k + length (dyn_bufs dyn)) p"
    and "dbuf_get p dyn n = Some (p', dyn', out)"
  shows "pool_ok env (k + length (dyn_bufs dyn')) p'"
  using assms pool_ok_get_loop by (auto simp: dbuf_get_def)

section \<open>A queue of bytes\<close>

datatype queue_op = Put string | Get nat

text \<open>
  A run of queue operations: the bytes taken out and those stored are collected; the run
  stops with \<open>None\<close> when an operation does not return.
\<close>

fun run_queue ::
  "(string \<Rightarrow> 'q \<Rightarrow> 'q \<times> bool) \<Rightarrow> (nat \<Rightarrow> 'q \<Rightarrow> ('q \<times> string) option) \<Rightarrow> queue_op list \<Rightarrow> 'q \<Rightarrow>
     ('q \<times> bool \<times> string) option" where
  "run_queue put get [] q = Some (q, True, [])"
| "run_queue put get (Put xs # ops) q =
     (case put xs q of (q1, ok) \<Rightarrow>
        if ok then run_queue put get ops q1 else Some (q1, False, []))"
| "run_queue put get (Get n # ops) q =
     get n q \<bind> (\<lambda>(q1, out). map_option (\<lambda>(q2, ok, out2). (q2, ok, out @ out2)) (run_queue put get ops q1))"

fun op_input :: "queue_op \<Rightarrow> string" where
  "op_input (Put xs) = xs"
| "op_input (Get n) = []"

definition inputs :: "queue_op list \<Rightarrow> string" where
  "inputs ops = concat (map op_input ops)"

locale byte_queue =
  fixes data :: "'q \<Rightarrow> string" and inv :: "'q \<Rightarrow> bool" and limit :: nat
    and put :: "string \<Rightarrow> 'q \<Rightarrow> 'q \<times> bool" and get :: "nat \<Rightarrow> 'q \<Rightarrow> ('q \<times> string) option"
  assumes put_law: "inv q \<Longrightarrow> length (data q) + length xs < limit \<Longrightarrow> put xs q = (q', ok) \<Longrightarrow>
      inv q' \<and> data q' = (if ok then data q @ xs else [])"
    and get_law: "inv q \<Longrightarrow> \<exists>q'. get n q = Some (q', take n (data q)) \<and> inv q' \<and> data q' = drop n (data q)"
begin

lemma run_total:
  "inv q \<Longrightarrow> length (data q) + length (inputs ops) < limit \<Longrightarrow>
     \<exists>q' ok out. run_queue put get ops q = Some (q', ok, out) \<and> inv q' \<and>
       (ok \<longrightarrow> out @ data q' = data q @ inputs ops)"
proof (induction ops arbitrary: q)
  case (Cons oper ops)
  show ?case
  proof (cases oper)
    case (Put xs)
    obtain q1 ok where put: "put xs q = (q1, ok)" by fastforce
    with put_law [OF Cons.prems(1) _ put] Cons.prems Cons.IH [of q1] Put show ?thesis
      by (cases ok) (auto simp: inputs_def)
  next
    case (Get n)
    obtain q1 where get: "get n q = Some (q1, take n (data q))" "inv q1" "data q1 = drop n (data q)"
      using get_law [OF Cons.prems(1)] by blast
    moreover have "length (data q1) + length (inputs ops) < limit"
      using Cons.prems(2) get(3) Get by (simp add: inputs_def)
    moreover from this obtain q2 ok out where "run_queue put get ops q1 = Some (q2, ok, out)" "inv q2"
        "ok \<longrightarrow> out @ data q2 = data q1 @ inputs ops"
      using Cons.IH [OF get(2)] by blast
    ultimately show ?thesis using Get by (auto simp: inputs_def)
  qed
qed (auto simp: inputs_def)

end

definition q_put :: "dbuf_env \<Rightarrow> string \<Rightarrow> dbuf_pool \<times> dbuf \<Rightarrow> (dbuf_pool \<times> dbuf) \<times> bool" where
  "q_put env xs = (\<lambda>(p, dyn). case dbuf_put env p dyn xs of (p1, dyn1, ok) \<Rightarrow> ((p1, dyn1), ok))"

definition q_get :: "nat \<Rightarrow> dbuf_pool \<times> dbuf \<Rightarrow> ((dbuf_pool \<times> dbuf) \<times> string) option" where
  "q_get n = (\<lambda>(p, dyn). map_option (\<lambda>(p1, dyn1, out). ((p1, dyn1), out)) (dbuf_get p dyn n))"

interpretation recvQ: byte_queue "\<lambda>(p, dyn). bytes dyn" "\<lambda>(p, dyn). dbuf_inv dyn" "2 ^ 32" "q_put env" q_get
proof (unfold_locales, goal_cases)
  case (1 q xs q' ok)
  obtain p dyn p1 dyn1 where "q = (p, dyn)" "dbuf_put env p dyn xs = (p1, dyn1, ok)" "q' = (p1, dyn1)"
    using 1 by (cases q) (auto simp: q_put_def split: prod.splits)
  with 1 dbuf_put_bytes [of dyn xs env p p1 dyn1 ok] show ?case by simp
next
  case (2 q n)
  obtain p dyn where "q = (p, dyn)" by (cases q)
  with 2 dbuf_get_bytes [of dyn p n] show ?case by (auto simp: q_get_def)
qed

section \<open>The connections of a server\<close>

text \<open>
  All receive queues draw on one pool. A step is one operation on one queue, or a new
  connection with an empty queue. \<open>DBufClear\<close> deletes the whole length.
\<close>

definition empty_dbuf :: dbuf where
  "empty_dbuf = \<lparr>dyn_length = 0, dyn_bufs = []\<rparr>"

definition DBufClear :: "dbuf_pool \<Rightarrow> dbuf \<Rightarrow> dbuf_pool \<times> dbuf" where
  "DBufClear p dyn = dbuf_delete p dyn (unat (dyn_length dyn))"

inductive recv_step :: "dbuf_env \<Rightarrow> dbuf_pool \<times> dbuf list \<Rightarrow> dbuf_pool \<times> dbuf list \<Rightarrow> bool"
  for env where
  step_accept: "recv_step env (p, qs) (p, qs @ [empty_dbuf])"
| step_put: "i < length qs \<Longrightarrow> length (bytes (qs ! i)) + length xs < 2 ^ 32 \<Longrightarrow>
    dbuf_put env p (qs ! i) xs = (p', q, ok) \<Longrightarrow> recv_step env (p, qs) (p', qs[i := q])"
| step_get: "i < length qs \<Longrightarrow> dbuf_get p (qs ! i) n = Some (p', q, out) \<Longrightarrow>
    recv_step env (p, qs) (p', qs[i := q])"
| step_getmsg: "i < length qs \<Longrightarrow> dbuf_getmsg p (qs ! i) n = Some (p', q, out) \<Longrightarrow>
    recv_step env (p, qs) (p', qs[i := q])"
| step_delete: "i < length qs \<Longrightarrow> dbuf_delete p (qs ! i) n = (p', q) \<Longrightarrow>
    recv_step env (p, qs) (p', qs[i := q])"
| step_clear: "i < length qs \<Longrightarrow> DBufClear p (qs ! i) = (p', q) \<Longrightarrow>
    recv_step env (p, qs) (p', qs[i := q])"

inductive_cases recv_stepE: "recv_step env (p, qs) s"

definition blocks :: "dbuf list \<Rightarrow> nat" where
  "blocks qs = sum_list (map (\<lambda>q. length (dyn_bufs q)) qs)"

definition recv_inv :: "dbuf_env \<Rightarrow> dbuf_pool \<times> dbuf list \<Rightarrow> bool" where
  "recv_inv env = (\<lambda>(p, qs). list_all dbuf_inv qs \<and> pool_ok env (blocks qs) p)"

definition others :: "dbuf list \<Rightarrow> nat \<Rightarrow> nat" where
  "others qs i = blocks (take i qs) + blocks (drop (Suc i) qs)"

lemma blocks_split:
  "i < length qs \<Longrightarrow> blocks qs = others qs i + length (dyn_bufs (qs ! i))"
  "i < length qs \<Longrightarrow> blocks (qs[i := q]) = others qs i + length (dyn_bufs q)"
  by (subst (1) id_take_nth_drop [of i qs]; simp add: blocks_def others_def)
    (simp add: upd_conv_take_nth_drop blocks_def others_def)

lemma recv_inv_update:
  assumes "recv_inv env (p, qs)" and "i < length qs" and "dbuf_inv q"
    and "pool_ok env (others qs i + length (dyn_bufs (qs ! i))) p \<Longrightarrow>
      pool_ok env (others qs i + length (dyn_bufs q)) p'"
  shows "recv_inv env (p', qs[i := q])"
  using assms blocks_split(1) [OF assms(2)] blocks_split(2) [OF assms(2), of q]
  by (auto simp: recv_inv_def list_all_length nth_list_update)

lemma recv_inv_nth: "recv_inv env (p, qs) \<Longrightarrow> i < length qs \<Longrightarrow> dbuf_inv (qs ! i)"
  by (simp add: recv_inv_def list_all_length)

lemma recv_step_inv:
  assumes "\<not> FEAT_HAS_FERGUSON_FLUSHER env" and "recv_step env s s'" and "recv_inv env s"
  shows "recv_inv env s'"
  using assms(2,3)
proof cases
  case (step_accept p qs)
  with assms(3) show ?thesis
    by (simp add: recv_inv_def blocks_def empty_dbuf_def dbuf_inv_def bytes_def)
next
  case (step_put i qs xs p p' q ok)
  with assms show ?thesis
    using dbuf_put_bytes recv_inv_nth recv_inv_update pool_ok_put by metis
next
  case (step_get i qs p n p' q out)
  with assms show ?thesis
    using dbuf_get_bytes [of "qs ! i" p n] recv_inv_nth recv_inv_update pool_ok_get
    by (metis option.inject prod.inject)
next
  case (step_getmsg i qs p n p' q out)
  with assms show ?thesis
    using dbuf_getmsg_spec [of "qs ! i" p n] recv_inv_nth recv_inv_update pool_ok_getmsg
    by (metis option.inject prod.inject)
next
  case (step_delete i qs p n p' q)
  with assms show ?thesis
    using dbuf_delete_bytes recv_inv_nth recv_inv_update pool_ok_delete by metis
next
  case (step_clear i qs p p' q)
  with assms show ?thesis unfolding DBufClear_def
    using dbuf_delete_bytes recv_inv_nth recv_inv_update pool_ok_delete by metis
qed

inductive recv_reach :: "dbuf_env \<Rightarrow> dbuf_pool \<times> dbuf list \<Rightarrow> bool" for env where
  reach_boot: "recv_reach env (\<lparr>dbufFreeList = [], DBufAllocCount = 0, DBufUsedCount = 0\<rparr>, [])"
| reach_step: "recv_reach env s \<Longrightarrow> recv_step env s s' \<Longrightarrow> recv_reach env s'"

lemma recv_reach_inv:
  assumes "recv_reach env s" and "\<not> FEAT_HAS_FERGUSON_FLUSHER env" and "0 \<le> FEAT_BUFFERPOOL env"
  shows "recv_inv env s"
  using assms(1)
proof induction
  case reach_boot
  with assms(3) show ?case
    by (simp add: recv_inv_def blocks_def pool_ok_def DBUF_SIZE_def)
next
  case (reach_step s s')
  then show ?case using recv_step_inv [OF assms(2)] by blast
qed

section \<open>Reading lines\<close>

definition frame :: "string list \<Rightarrow> string" where
  "frame lines = concat (map (\<lambda>l. l @ [CHR 0x0D, CHR 0x0A]) lines)"

definition line_ok :: "nat \<Rightarrow> string \<Rightarrow> bool" where
  "line_ok n l \<longleftrightarrow> l \<noteq> [] \<and> length l < n \<and> list_all (\<lambda>c. \<not> IsEol c) l"

fun read_lines :: "nat \<Rightarrow> nat \<Rightarrow> dbuf_pool \<Rightarrow> dbuf \<Rightarrow> (dbuf_pool \<times> dbuf \<times> string list) option" where
  "read_lines n 0 p dyn = Some (p, dyn, [])"
| "read_lines n (Suc k) p dyn =
     dbuf_getmsg p dyn n \<bind> (\<lambda>(p1, dyn1, l).
       map_option (\<lambda>(p2, dyn2, ls). (p2, dyn2, l # ls)) (read_lines n k p1 dyn1))"

lemma takeWhile_all_append:
  "list_all P xs \<Longrightarrow> \<not> P y \<Longrightarrow> takeWhile P (xs @ y # ys) = xs"
  by (induction xs) auto

lemma IsEol_crlf [simp]: "IsEol (CHR 0x0D)" "IsEol (CHR 0x0A)"
  by (simp_all add: IsEol_iff)

lemma dropWhile_frame:
  "list_all (line_ok n) lines \<Longrightarrow> dropWhile IsEol (frame lines) = frame lines"
  by (cases lines; cases "hd lines") (auto simp: frame_def line_ok_def)

lemma getmsg_spec_frame:
  assumes "list_all (line_ok n) (l # lines)"
  shows "getmsg_spec n (frame (l # lines)) = (l, frame lines)"
proof -
  let ?tail = "CHR 0x0D # CHR 0x0A # frame lines"
  have bs: "frame (l # lines) = l @ ?tail" by (simp add: frame_def)
  have l: "list_all (\<lambda>c. \<not> IsEol c) l" "length l < n" using assms by (auto simp: line_ok_def)
  then obtain m where m: "n - length l = Suc m" by (metis Suc_diff_Suc)
  have "takeWhile (\<lambda>c. \<not> IsEol c) (take n (l @ ?tail)) = l"
    using l m takeWhile_all_append [of "\<lambda>c. \<not> IsEol c" l "CHR 0x0D"] by simp
  then show ?thesis
    using l dropWhile_frame [OF assms] dropWhile_frame [of n lines] assms bs
    by (simp add: getmsg_spec_def Let_def)
qed

lemma read_lines_frame:
  assumes "list_all (line_ok n) lines" and "dbuf_inv dyn" and "bytes dyn = frame lines"
  shows "\<exists>p' dyn'. read_lines n (length lines) p dyn = Some (p', dyn', lines) \<and>
    dbuf_inv dyn' \<and> bytes dyn' = []"
  using assms
proof (induction lines arbitrary: p dyn)
  case (Cons l lines)
  obtain p1 dyn1 where "dbuf_getmsg p dyn n = Some (p1, dyn1, l)" "dbuf_inv dyn1" "bytes dyn1 = frame lines"
    using dbuf_getmsg_spec [OF Cons.prems(2), of p n] getmsg_spec_frame [OF Cons.prems(1)] Cons.prems(3)
    by auto
  then show ?case using Cons.IH [of dyn1 p1] Cons.prems(1) by auto
qed (auto simp: frame_def)

section \<open>Properties\<close>

definition demo_env :: dbuf_env where
  "demo_env = \<lparr>FEAT_BUFFERPOOL = 27000000, FEAT_HAS_FERGUSON_FLUSHER = False, flush_connections = id\<rparr>"

definition demo_pool :: dbuf_pool where
  "demo_pool = \<lparr>dbufFreeList = [], DBufAllocCount = 0, DBufUsedCount = 0\<rparr>"

lemma demo_empty: "dbuf_inv empty_dbuf" "bytes empty_dbuf = []"
  by (simp_all add: dbuf_inv_def empty_dbuf_def bytes_def)

text \<open>C1. A receive queue is a byte stream. Every run of \<^verbatim>\<open>dbuf_put\<close> and \<^verbatim>\<open>dbuf_get\<close> calls on a
  well-formed queue terminates in a well-formed queue, and unless a put fails for want of blocks
  the bytes taken out, followed by those still queued, are the bytes queued at the start followed
  by all bytes put, in order.\<close>

theorem dbuf_fifo:
  assumes "dbuf_inv dyn" and "length (bytes dyn) + length (inputs ops) < 2 ^ 32"
  shows "\<exists>p' dyn' ok out. run_queue (q_put env) q_get ops (p, dyn) = Some ((p', dyn'), ok, out) \<and>
    dbuf_inv dyn' \<and> (ok \<longrightarrow> out @ bytes dyn' = bytes dyn @ inputs ops)"
  using recvQ.run_total [of "(p, dyn)" ops env] assms by auto

theorem dbuf_fifo_witness:
  "\<exists>p' dyn' ok out. run_queue (q_put demo_env) q_get [Put ''NICK'', Get 2, Put ''a'', Get 7] (demo_pool, empty_dbuf) =
      Some ((p', dyn'), ok, out) \<and>
    dbuf_inv dyn' \<and> (ok \<longrightarrow> out @ bytes dyn' = ''NICKa'')"
  using dbuf_fifo [of empty_dbuf "[Put ''NICK'', Get 2, Put ''a'', Get 7]" demo_env demo_pool] demo_empty
  by (simp add: inputs_def)

text \<open>C2. \<^verbatim>\<open>dbuf_getmsg\<close> refines its specification on the byte stream, whatever the division into
  blocks: leading line ends are dropped; if a line end follows within the next \<open>n\<close> bytes the line
  before it is returned and removed together with the line ends that follow it, and otherwise
  nothing is returned. It always returns, and keeps the queue well-formed.\<close>

theorem dbuf_getmsg_refines:
  assumes "dbuf_inv dyn"
  shows "\<exists>p' dyn' line. dbuf_getmsg p dyn n = Some (p', dyn', line) \<and>
    dbuf_inv dyn' \<and> (line, bytes dyn') = getmsg_spec n (bytes dyn)"
  using dbuf_getmsg_spec [OF assms, of p n] by auto

theorem dbuf_getmsg_refines_witness:
  "\<exists>p' dyn' line. dbuf_getmsg demo_pool empty_dbuf 512 = Some (p', dyn', line) \<and>
    dbuf_inv dyn' \<and> (line, bytes dyn') = ([], [])"
  using dbuf_getmsg_refines [OF demo_empty(1), of demo_pool 512] demo_empty(2)
  by (simp add: getmsg_spec_def)

text \<open>C3. Lines survive the buffering. When lines that are not empty, hold no line end and are
  shorter than the caller's buffer are stored, each followed by CR and LF, in an empty queue and
  the put succeeds, as many calls of \<^verbatim>\<open>dbuf_getmsg\<close> as there are lines return exactly these
  lines in order, and leave the queue empty.\<close>

theorem dbuf_lines_roundtrip:
  assumes "list_all (line_ok n) lines" and "length (frame lines) < 2 ^ 32"
    and "dbuf_put env p empty_dbuf (frame lines) = (p1, dyn1, True)"
  shows "\<exists>p' dyn'. read_lines n (length lines) p1 dyn1 = Some (p', dyn', lines) \<and>
    dbuf_inv dyn' \<and> bytes dyn' = []"
  using dbuf_put_bytes [OF demo_empty(1) _ assms(3)] assms demo_empty(2) read_lines_frame by auto

lemma demo_put:
  "dbuf_put demo_env demo_pool empty_dbuf (frame [''PING a'', ''QUIT'']) =
     (\<lparr>dbufFreeList = [], DBufAllocCount = 1, DBufUsedCount = 1\<rparr>,
      \<lparr>dyn_length = 14, dyn_bufs = [\<lparr>buf_start = 0, buf_data = frame [''PING a'', ''QUIT'']\<rparr>]\<rparr>, True)"
  by (simp add: dbuf_put_def empty_dbuf_def demo_pool_def demo_env_def dbuf_put_loop.simps frame_def
      dbuf_alloc_retry_def dbuf_alloc_def DBUF_SIZE_def new_buffer_def)

theorem dbuf_lines_roundtrip_witness:
  "\<exists>p' dyn'. read_lines 512 (length [''PING a'', ''QUIT'']) \<lparr>dbufFreeList = [], DBufAllocCount = 1, DBufUsedCount = 1\<rparr>
      \<lparr>dyn_length = 14, dyn_bufs = [\<lparr>buf_start = 0, buf_data = frame [''PING a'', ''QUIT'']\<rparr>]\<rparr> =
      Some (p', dyn', [''PING a'', ''QUIT'']) \<and> dbuf_inv dyn' \<and> bytes dyn' = []"
  by (rule dbuf_lines_roundtrip [OF _ _ demo_put]) (simp_all add: line_ok_def IsEol_iff frame_def)

text \<open>C4. No block is lost or shared, for a server whose feature HAS_FERGUSON_FLUSHER is off (the default). In every state that
  accepting, putting, getting, deleting and clearing on any number of connections lead to, each queue is well-formed, the blocks counted
  as used are exactly those in the queues, the other allocated ones are on the free list, and the pool exceeds the configured
  size by less than one block. A flush or a dead link outside of \<^verbatim>\<open>dbuf_put\<close> acts on the queues by clearing them, which is one of the
  steps. With the feature on, \<^verbatim>\<open>dbuf_put\<close> itself calls \<^verbatim>\<open>flush_connections\<close>, which can clear the queue that is being filled, and nothing
  is claimed.\<close>

theorem dbuf_pool_accounts:
  assumes "recv_reach env (p, qs)" and "\<not> FEAT_HAS_FERGUSON_FLUSHER env" and "0 \<le> FEAT_BUFFERPOOL env"
  shows "list_all dbuf_inv qs \<and> DBufUsedCount p = int (blocks qs) \<and>
    DBufAllocCount p = DBufUsedCount p + int (length (dbufFreeList p)) \<and>
    DBufAllocCount p * int DBUF_SIZE < FEAT_BUFFERPOOL env + int DBUF_SIZE"
  using recv_reach_inv [OF assms] unfolding recv_inv_def pool_ok_def by blast

lemma demo_reach:
  "recv_reach demo_env (\<lparr>dbufFreeList = [], DBufAllocCount = 1, DBufUsedCount = 1\<rparr>,
     [\<lparr>dyn_length = 14, dyn_bufs = [\<lparr>buf_start = 0, buf_data = frame [''PING a'', ''QUIT'']\<rparr>]\<rparr>])"
proof -
  have "recv_reach demo_env (demo_pool, [empty_dbuf])"
    using reach_step [OF reach_boot step_accept] by (simp add: demo_pool_def)
  moreover have "length (bytes ([empty_dbuf] ! 0)) + length (frame [''PING a'', ''QUIT'']) < 2 ^ 32"
    using demo_empty by (simp add: frame_def)
  ultimately show ?thesis using reach_step step_put [of 0 "[empty_dbuf]"] demo_put by fastforce
qed

theorem dbuf_pool_accounts_witness:
  "(1 :: int) * int DBUF_SIZE < 27000000 + int DBUF_SIZE \<and>
   blocks [\<lparr>dyn_length = 14, dyn_bufs = [\<lparr>buf_start = 0, buf_data = frame [''PING a'', ''QUIT'']\<rparr>]\<rparr>] = 1"
  using dbuf_pool_accounts [OF demo_reach] by (simp add: demo_env_def)

end
