(* ===== verification/Match.thy ===== *)
theory Match
  imports Chattr
begin

text \<open>
  Wildcard masks (\<^verbatim>\<open>ircd/match.c\<close>): the matcher \<^verbatim>\<open>match\<close> and the normaliser \<^verbatim>\<open>collapse\<close>.

  A pointer into a string is a split of the string: the state of \<^verbatim>\<open>match\<close> has the part of
  the mask between \<^verbatim>\<open>m_tmp\<close> and \<^verbatim>\<open>m\<close> and the part from \<^verbatim>\<open>m\<close> on, and likewise for the name
  with \<^verbatim>\<open>n_tmp\<close> and \<^verbatim>\<open>n\<close>. The test \<^verbatim>\<open>m_tmp == mask\<close> asks whether a star has been passed. A
  read behind the end of a string is \<open>Fault\<close>.

  The reference is \<open>glob\<close>, the usual recursive definition of \<^verbatim>\<open>*\<close> and \<^verbatim>\<open>?\<close> with characters
  compared without case. The matcher is shown equal to it on masks without backslashes; on
  masks with backslashes it differs, which three examples show.
\<close>

section \<open>Reference semantics\<close>

fun glob :: "string \<Rightarrow> string \<Rightarrow> bool" where
  "glob [] n = (n = [])"
| "glob (x # m) [] = (x = CHR ''*'' \<and> glob m [])"
| "glob (x # m) (c # n) =
     (if x = CHR ''*'' then glob m (c # n) \<or> glob (x # m) n
      else (x = CHR ''?'' \<or> ToLower x = ToLower c) \<and> glob m n)"

section \<open>The matcher\<close>

datatype mstep = Ret nat | Fault | Go bool string string string string

definition backtrack :: "bool \<Rightarrow> string \<Rightarrow> string \<Rightarrow> string \<Rightarrow> string \<Rightarrow> mstep" where
  "backtrack st w m u n =
     (if \<not> st then Ret 1
      else case u @ n of
        [] \<Rightarrow> Fault
      | _ # n1 \<Rightarrow> if n1 = [] then Ret 1 else Go True [] (w @ m) [] n1)"

definition match_default :: "bool \<Rightarrow> string \<Rightarrow> string \<Rightarrow> string \<Rightarrow> string \<Rightarrow> mstep" where
  "match_default st w m u n =
     (case n of
        [] \<Rightarrow> Ret (if m = [] then 0 else 1)
      | c # n1 \<Rightarrow>
          (case m of
             [] \<Rightarrow> backtrack st w m u n
           | x # m1 \<Rightarrow>
               if ToLower x = ToLower c then Go st (w @ [x]) m1 (u @ [c]) n1
               else backtrack st w m u n))"

text \<open>A run of stars and question marks; \<open>None\<close> when the name ends in it.\<close>

fun wild_run :: "bool \<Rightarrow> string \<Rightarrow> string \<Rightarrow> string \<Rightarrow> string \<Rightarrow> (bool \<times> string \<times> string \<times> string \<times> string) option" where
  "wild_run star_p w [] u n = Some (star_p, w, [], u, n)"
| "wild_run star_p w (x # m) u n =
     (if x = CHR ''*'' then wild_run True (w @ [x]) m u n
      else if x = CHR ''?''
      then (case n of [] \<Rightarrow> None | c # n1 \<Rightarrow> wild_run star_p (w @ [x]) m (u @ [c]) n1)
      else Some (star_p, w, x # m, u, n))"

definition match_step :: "bool \<Rightarrow> string \<Rightarrow> string \<Rightarrow> string \<Rightarrow> string \<Rightarrow> mstep" where
  "match_step st w m u n =
     (case m of
        [] \<Rightarrow> if n = [] then Ret 0 else backtrack st w m u n
      | x # m1 \<Rightarrow>
          if x = CHR 0x5C
          then (case (m1, n) of
                  ([], []) \<Rightarrow> Fault
                | (y # m2, c # n1) \<Rightarrow>
                    if y = c then Go st (w @ [x, y]) m2 (u @ [c]) n1 else backtrack st w m u n
                | _ \<Rightarrow> backtrack st w m u n)
          else if x = CHR ''*'' \<or> x = CHR ''?''
          then (case wild_run False w m u n of
                  None \<Rightarrow> backtrack st w m u n
                | Some (star_p, w2, m2, u2, n2) \<Rightarrow>
                    if star_p
                    then (case m2 of
                            [] \<Rightarrow> Ret 0
                          | y # m3 \<Rightarrow>
                              if y = CHR 0x5C
                              then (case m3 of
                                      [] \<Rightarrow> Ret 1
                                    | z # _ \<Rightarrow>
                                        match_default True [] m3 (takeWhile (\<lambda>c. c \<noteq> z) n2) (dropWhile (\<lambda>c. c \<noteq> z) n2))
                              else match_default True [] m2
                                     (takeWhile (\<lambda>c. ToLower c \<noteq> ToLower y) n2)
                                     (dropWhile (\<lambda>c. ToLower c \<noteq> ToLower y) n2))
                    else match_default st w2 m2 u2 n2)
          else match_default st w m u n)"

definition mm_measure :: "bool \<times> string \<times> string \<times> string \<times> string \<Rightarrow> nat \<times> nat \<times> nat \<times> nat" where
  "mm_measure = (\<lambda>(st, w, m, u, n). (if st then 0 else 1, length w + length m, length u + length n, length m))"

lemma wild_run_split:
  "wild_run star_p w m u n = Some (star_p', w', m', u', n') \<Longrightarrow>
     w' @ m' = w @ m \<and> u' @ n' = u @ n \<and> length m' \<le> length m \<and>
     (hd (m @ ''x'') \<in> {CHR ''*'', CHR ''?''} \<longrightarrow> length m' < length m)"
  by (induction star_p w m u n rule: wild_run.induct) (auto split: if_splits list.splits)

lemma backtrack_smaller:
  assumes "backtrack st w m u n = Go st' w' m' u' n'"
  shows "st \<and> st' \<and> length w' + length m' = length w + length m \<and>
    length u' + length n' < length u + length n"
proof -
  obtain c n1 where un: "u @ n = c # n1" and "st" "n1 \<noteq> []"
      "st'" "w' = []" "m' = w @ m" "u' = []" "n' = n1"
    using assms by (cases "u @ n") (auto simp: backtrack_def split: if_splits)
  moreover from un have "length u + length n = Suc (length n1)" by (metis length_Cons length_append)
  ultimately show ?thesis by simp
qed

lemma default_smaller:
  assumes "match_default st w m u n = Go st' w' m' u' n'"
  shows "st' = st \<and> length w' + length m' = length w + length m \<and>
    (length u' + length n' < length u + length n \<or>
     length u' + length n' = length u + length n \<and> length m' < length m)"
  using assms backtrack_smaller
  by (fastforce simp: match_default_def split: list.splits if_splits)


lemma match_step_smaller:
  assumes "match_step st w m u n = Go st' w' m' u' n'"
  shows "(mm_measure (st', w', m', u', n'), mm_measure (st, w, m, u, n)) \<in>
    less_than <*lex*> less_than <*lex*> less_than <*lex*> less_than"
proof (cases m)
  case Nil
  with assms show ?thesis
    by (auto simp: match_step_def mm_measure_def split: if_splits dest!: backtrack_smaller)
next
  case (Cons x m1)
  show ?thesis
  proof (cases "x = CHR ''*'' \<or> x = CHR ''?''")
    case False
    with assms Cons show ?thesis
      by (auto simp: match_step_def mm_measure_def split: if_splits list.splits
          dest!: backtrack_smaller default_smaller)
  next
    case wild: True
    show ?thesis
    proof (cases "wild_run False w m u n")
      case None
      with assms Cons wild show ?thesis
        by (auto simp: match_step_def mm_measure_def dest!: backtrack_smaller)
    next
      case (Some r)
      then obtain star_p w2 m2 u2 n2 where r: "wild_run False w m u n = Some (star_p, w2, m2, u2, n2)"
        by (cases r) auto
      have "length (w2 @ m2) = length (w @ m)" "length (u2 @ n2) = length (u @ n)"
          and len1: "length m2 < length m"
        using wild_run_split [OF r] Cons wild by auto
      then have len: "length w2 + length m2 = length w + length m" "length u2 + length n2 = length u + length n"
        by simp_all
      show ?thesis
      proof (cases star_p)
        case False
        with assms Cons wild r len len1 show ?thesis
          by (auto simp: match_step_def mm_measure_def dest!: default_smaller)
      next
        case True
        with assms Cons wild r len len1 show ?thesis
          by (auto simp: match_step_def mm_measure_def split: list.splits if_splits
              dest!: default_smaller)
      qed
    qed
  qed
qed

function match_loop :: "bool \<Rightarrow> string \<Rightarrow> string \<Rightarrow> string \<Rightarrow> string \<Rightarrow> nat option" where
  "match_loop st w m u n =
     (case match_step st w m u n of
        Ret r \<Rightarrow> Some r
      | Fault \<Rightarrow> None
      | Go st1 w1 m1 u1 n1 \<Rightarrow> match_loop st1 w1 m1 u1 n1)"
  by pat_completeness auto
termination
  by (relation "inv_image (less_than <*lex*> less_than <*lex*> less_than <*lex*> less_than) mm_measure")
    (auto intro!: match_step_smaller wf_lex_prod)

declare match_loop.simps [simp del]

definition match :: "string \<Rightarrow> string \<Rightarrow> nat option" where
  "match msk name = match_loop False [] msk [] name"

section \<open>Correctness on masks without backslashes\<close>

lemma glob_prefix:
  "CHR ''*'' \<notin> set w \<Longrightarrow> glob (w @ m) x \<Longrightarrow> length w \<le> length x \<and> glob m (drop (length w) x)"
proof (induction w arbitrary: x)
  case (Cons a w)
  then show ?case by (cases x) (auto split: if_splits)
qed simp

lemma glob_star: "glob (CHR ''*'' # m) x \<longleftrightarrow> (\<exists>k. glob m (drop k x))"
proof (induction x)
  case (Cons c x)
  have "(\<exists>k. glob m (drop k (c # x))) \<longleftrightarrow> glob m (c # x) \<or> (\<exists>k. glob m (drop k x))"
    by (metis drop_0 drop_Suc_Cons not0_implies_Suc)
  with Cons show ?case by simp
qed simp

lemma glob_star_suffix: "glob (CHR ''*'' # m) (drop k x) \<Longrightarrow> glob (CHR ''*'' # m) x"
  by (auto simp: glob_star)

definition globs :: "bool \<Rightarrow> string \<Rightarrow> string \<Rightarrow> bool" where
  "globs star m n = (if star then \<exists>k. glob m (drop k n) else glob m n)"

lemma globs_question:
  "globs star (CHR ''?'' # m) [] \<longleftrightarrow> False"
  "globs star (CHR ''?'' # m) (c # n) \<longleftrightarrow> globs star m n"
proof -
  show "globs star (CHR ''?'' # m) [] \<longleftrightarrow> False" by (simp add: globs_def)
  have "(\<exists>k. glob (CHR ''?'' # m) (drop k (c # n))) \<longleftrightarrow> (\<exists>k. glob m (drop k n))"
  proof
    assume "\<exists>k. glob (CHR ''?'' # m) (drop k (c # n))"
    then obtain k where k: "glob (CHR ''?'' # m) (drop k (c # n))" by blast
    then obtain d r where "drop k (c # n) = d # r" by (cases "drop k (c # n)") auto
    then have "r = drop k n" by (metis drop_Suc_Cons drop_Suc list.sel(3) tl_drop)
    with k \<open>drop k (c # n) = d # r\<close> show "\<exists>k. glob m (drop k n)" by auto
  next
    assume "\<exists>k. glob m (drop k n)"
    then obtain k where "glob m (drop k n)" by blast
    moreover have "drop (min k (length n)) n = drop k n" by (simp add: min_def)
    ultimately have "glob m (drop (min k (length n)) n)" by simp
    moreover have "drop (min k (length n)) (c # n) = (c # n) ! min k (length n) # drop (min k (length n)) n"
      using Cons_nth_drop_Suc [of "min k (length n)" "c # n"] by simp
    ultimately have "glob (CHR ''?'' # m) (drop (min k (length n)) (c # n))" by simp
    then show "\<exists>k. glob (CHR ''?'' # m) (drop k (c # n))" by blast
  qed
  then show "globs star (CHR ''?'' # m) (c # n) \<longleftrightarrow> globs star m n" by (simp add: globs_def)
qed

lemma globs_star: "globs star (CHR ''*'' # m) n \<longleftrightarrow> globs True m n"
  by (auto simp: globs_def glob_star) (metis add_0)

lemma wild_run_None: "wild_run star w m u n = None \<Longrightarrow> \<not> globs star m n"
  by (induction star w m u n rule: wild_run.induct)
    (auto simp: globs_question globs_star split: if_splits list.splits)

lemma wild_run_Some:
  "wild_run star w m u n = Some (star', w', m', u', n') \<Longrightarrow>
     globs star m n = globs star' m' n' \<and> (m' = [] \<or> hd m' \<notin> {CHR ''*'', CHR ''?''}) \<and>
     (\<not> star' \<longrightarrow> \<not> star \<and> (\<exists>q v. w' = w @ q \<and> CHR ''*'' \<notin> set q \<and> u' = u @ v \<and> length v = length q))"
  by (induction star w m u n rule: wild_run.induct)
    (fastforce simp: globs_question globs_star split: if_splits list.splits)+

lemma wild_run_mono:
  "wild_run False w m u n = Some (True, w', m', u', n') \<Longrightarrow> glob m (drop j n) \<Longrightarrow> glob m n"
proof (induction False w m u n rule: wild_run.induct)
  case (2 w x m u n)
  show ?case
  proof (cases "x = CHR ''*''")
    case True
    with 2 show ?thesis using glob_star_suffix by blast
  next
    case False
    with 2 have x: "x = CHR ''?''" by (auto split: if_splits)
    with 2 obtain c n1 where n: "n = c # n1" by (cases n) auto
    obtain d r where dr: "drop j n = d # r" using "2.prems"(2) x by (cases "drop j n") auto
    then have "r = drop j n1" using n by (metis drop_Suc_Cons drop_Suc list.sel(3) tl_drop)
    with 2 x n dr False show ?thesis by auto
  qed
qed auto

text \<open>
  The invariant of the loop. After a star, the part of the name since \<^verbatim>\<open>n_tmp\<close> consists of
  characters that were skipped because they cannot start a match, and of one character for
  every character of the mask since \<^verbatim>\<open>m_tmp\<close>.
\<close>

definition mm_inv :: "bool \<Rightarrow> string \<Rightarrow> string \<Rightarrow> string \<Rightarrow> string \<Rightarrow> bool" where
  "mm_inv st w m u n \<longleftrightarrow> CHR 0x5C \<notin> set (w @ m) \<and>
     (st \<longrightarrow> (\<exists>s v. u = s @ v \<and> length v = length w \<and> (\<forall>c\<in>set s. ToLower c \<noteq> ToLower (hd (w @ m)))) \<and>
        CHR ''*'' \<notin> set w \<and> w @ m \<noteq> [] \<and> hd (w @ m) \<notin> {CHR ''*'', CHR ''?''})"

definition mm_sem :: "bool \<Rightarrow> string \<Rightarrow> string \<Rightarrow> string \<Rightarrow> string \<Rightarrow> bool" where
  "mm_sem st w m u n \<longleftrightarrow> glob m n \<or> (st \<and> (\<exists>k>0. glob (w @ m) (drop k (u @ n))))"

fun step_ok :: "bool \<Rightarrow> mstep \<Rightarrow> bool" where
  "step_ok b (Ret r) = (r = (if b then 0 else 1))"
| "step_ok b Fault = False"
| "step_ok b (Go st w m u n) = (mm_inv st w m u n \<and> (st \<longrightarrow> u @ n \<noteq> []) \<and> mm_sem st w m u n = b)"

lemma glob_first:
  "m \<noteq> [] \<Longrightarrow> hd m \<notin> {CHR ''*'', CHR ''?''} \<Longrightarrow> glob m x \<Longrightarrow> x \<noteq> [] \<and> ToLower (hd x) = ToLower (hd m)"
  by (cases m; cases x) auto

lemma mm_later:
  assumes "mm_inv True w m u n" and "glob (w @ m) (drop k (u @ n))"
  shows "\<exists>j. glob m (drop j n)"
proof -
  obtain s v where u: "u = s @ v" "length v = length w" "\<forall>c\<in>set s. ToLower c \<noteq> ToLower (hd (w @ m))"
    and w: "CHR ''*'' \<notin> set w" "w @ m \<noteq> []" "hd (w @ m) \<notin> {CHR ''*'', CHR ''?''}"
    using assms(1) by (auto simp: mm_inv_def)
  have "\<not> k < length s"
  proof
    assume k: "k < length s"
    then have "hd (drop k (u @ n)) = s ! k" using u by (simp add: hd_drop_conv_nth nth_append)
    with glob_first [OF w(2,3) assms(2)] u(3) k show False by simp
  qed
  moreover have "glob m (drop (length w + k) (u @ n))"
    using conjunct2 [OF glob_prefix [OF w(1) assms(2)]] unfolding drop_drop .
  ultimately show ?thesis using u by (auto simp: not_less intro!: exI [of _ "k - length s"])
qed

lemma backtrack_ok:
  assumes inv: "mm_inv st w m u n" and ne: "st \<longrightarrow> u @ n \<noteq> []" and no: "\<not> glob m n"
  shows "step_ok (mm_sem st w m u n) (backtrack st w m u n)"
proof (cases st)
  case False
  with no show ?thesis by (simp add: backtrack_def mm_sem_def)
next
  case True
  with ne obtain c n1 where un: "u @ n = c # n1" by (cases "u @ n") auto
  have mt: "w @ m \<noteq> []" "hd (w @ m) \<notin> {CHR ''*'', CHR ''?''}" using inv True by (auto simp: mm_inv_def)
  have sem: "mm_sem st w m u n \<longleftrightarrow> (\<exists>k. glob (w @ m) (drop k n1))"
    using True no un by (auto simp: mm_sem_def gr0_conv_Suc)
  show ?thesis
  proof (cases "n1 = []")
    case True
    then show ?thesis using sem glob_first [OF mt, of "[]"] \<open>st\<close> un by (auto simp: backtrack_def)
  next
    case False
    have "mm_inv True [] (w @ m) [] n1" using inv \<open>st\<close> mt by (auto simp: mm_inv_def)
    moreover have "mm_sem True [] (w @ m) [] n1 \<longleftrightarrow> (\<exists>k. glob (w @ m) (drop k n1))"
      unfolding mm_sem_def append_Nil by (metis drop_0 gr_zeroI)
    ultimately show ?thesis using sem \<open>st\<close> un False by (simp add: backtrack_def)
  qed
qed

lemma mm_inv_shift:
  assumes "mm_inv st w (x # m) u n" and "x \<noteq> CHR ''*''"
  shows "mm_inv st (w @ [x]) m (u @ [c]) n'"
proof -
  have "\<exists>s v. u @ [c] = s @ v \<and> length v = length (w @ [x]) \<and> (\<forall>c\<in>set s. ToLower c \<noteq> ToLower (hd ((w @ [x]) @ m)))"
    if st
  proof -
    obtain s v where "u = s @ v" "length v = length w" "\<forall>c\<in>set s. ToLower c \<noteq> ToLower (hd (w @ x # m))"
      using assms(1) \<open>st\<close> by (auto simp: mm_inv_def)
    then show ?thesis by (intro exI [of _ s] exI [of _ "v @ [c]"]) simp
  qed
  with assms show ?thesis by (auto simp: mm_inv_def)
qed

lemma default_ok:
  assumes inv: "mm_inv st w m u n" and m: "m = [] \<or> hd m \<notin> {CHR ''*'', CHR ''?''}"
  shows "step_ok (mm_sem st w m u n) (match_default st w m u n)"
proof (cases n)
  case Nil
  have "m \<noteq> [] \<Longrightarrow> \<not> glob m []" using m by (cases m) auto
  moreover have "st \<Longrightarrow> glob (w @ m) (drop k (u @ n)) \<Longrightarrow> glob m []" for k
    using mm_later [of w m u n k] inv Nil by auto
  ultimately show ?thesis using Nil by (auto simp: match_default_def mm_sem_def)
next
  case (Cons c n1)
  show ?thesis
  proof (cases m)
    case Nil
    then show ?thesis using Cons backtrack_ok [OF inv] by (simp add: match_default_def)
  next
    case m1: (Cons x m1)
    show ?thesis
    proof (cases "ToLower x = ToLower c")
      case True
      have "mm_inv st (w @ [x]) m1 (u @ [c]) n1"
        using inv m m1 mm_inv_shift by simp
      moreover have "mm_sem st (w @ [x]) m1 (u @ [c]) n1 = mm_sem st w m u n"
        using m m1 Cons True by (simp add: mm_sem_def)
      ultimately show ?thesis using True Cons m1 by (simp add: match_default_def)
    next
      case False
      then show ?thesis using Cons m1 m backtrack_ok [OF inv] by (simp add: match_default_def)
    qed
  qed
qed

lemma mm_inv_run:
  assumes "mm_inv st w (q @ m) u n" and "CHR ''*'' \<notin> set q" and "length v = length q"
  shows "mm_inv st (w @ q) m (u @ v) n'"
  using assms
proof (induction q arbitrary: w u v)
  case Nil
  then show ?case by (simp add: mm_inv_def)
next
  case (Cons x q)
  then obtain c v' where v: "v = c # v'" by (cases v) auto
  have "mm_inv st (w @ [x]) (q @ m) (u @ [c]) n" using mm_inv_shift [of st w x "q @ m" u n c n] Cons.prems by auto
  from Cons.IH [OF this, of v'] Cons.prems v show ?case by simp
qed

lemma mm_inv_star:
  assumes "CHR 0x5C \<notin> set (y # m)" and "y \<notin> {CHR ''*'', CHR ''?''}"
  shows "mm_inv True [] (y # m) (takeWhile (\<lambda>c. ToLower c \<noteq> ToLower y) n) n'"
  using assms by (auto simp: mm_inv_def dest: set_takeWhileD)

lemma mm_sem_star:
  assumes "y \<notin> {CHR ''*'', CHR ''?''}"
  defines "P \<equiv> \<lambda>c. ToLower c \<noteq> ToLower y"
  shows "mm_sem True [] (y # m) (takeWhile P n) (dropWhile P n) \<longleftrightarrow> globs True (y # m) n"
proof -
  have "glob (y # m) (dropWhile P n)" if "glob (y # m) n"
    using that assms by (cases n) auto
  moreover have "dropWhile P n = drop (length (takeWhile P n)) n" by (rule dropWhile_eq_drop)
  ultimately show ?thesis unfolding mm_sem_def globs_def append_Nil takeWhile_dropWhile_id
    by (metis drop_0 gr_zeroI)
qed

lemma match_step_ok:
  assumes inv: "mm_inv st w m u n" and ne: "st \<longrightarrow> u @ n \<noteq> []"
  shows "step_ok (mm_sem st w m u n) (match_step st w m u n)"
proof (cases m)
  case Nil
  with backtrack_ok [OF inv ne] show ?thesis by (auto simp: match_step_def mm_sem_def)
next
  case (Cons x m1)
  have x: "x \<noteq> CHR 0x5C" using inv Cons by (auto simp: mm_inv_def)
  show ?thesis
  proof (cases "x \<in> {CHR ''*'', CHR ''?''}")
    case False
    with x Cons default_ok [OF inv] show ?thesis by (simp add: match_step_def)
  next
    case wild: True
    show ?thesis
    proof (cases "wild_run False w m u n")
      case None
      with wild Cons x backtrack_ok [OF inv ne] wild_run_None [OF None] show ?thesis
        by (auto simp: match_step_def globs_def)
    next
      case (Some r)
      then obtain star_p w2 m2 u2 n2 where r: "wild_run False w m u n = Some (star_p, w2, m2, u2, n2)"
        by (cases r) auto
      note run = wild_run_Some [OF r] and split = wild_run_split [OF r]
      have nb: "CHR 0x5C \<notin> set m2" using split inv by (metis UnCI mm_inv_def set_append)
      have step: "match_step st w m u n = (if star_p then (case m2 of [] \<Rightarrow> Ret 0 | y # m3 \<Rightarrow>
          match_default True [] m2 (takeWhile (\<lambda>c. ToLower c \<noteq> ToLower y) n2)
            (dropWhile (\<lambda>c. ToLower c \<noteq> ToLower y) n2)) else match_default st w2 m2 u2 n2)"
        using wild x Cons r nb by (cases m2) (auto simp: match_step_def simp del: wild_run.simps)
      show ?thesis
      proof (cases star_p)
        case False
        then obtain q v where q: "w2 = w @ q" "CHR ''*'' \<notin> set q" "u2 = u @ v" "length v = length q"
          using run by auto
        then have "m = q @ m2" "n = v @ n2" using split by auto
        then have "mm_inv st w2 m2 u2 n2" using mm_inv_run [of st w q m2 u n v n2] inv q by simp
        from default_ok [OF this] run split False show ?thesis
          by (simp add: step globs_def mm_sem_def)
      next
        case True
        have mono: "mm_sem st w m u n \<longleftrightarrow> glob m n"
          using wild_run_mono r True mm_later [of w m u n] inv unfolding mm_sem_def by metis
        then have sem: "mm_sem st w m u n \<longleftrightarrow> globs True m2 n2" using run True by (simp add: globs_def)
        show ?thesis
        proof (cases m2)
          case Nil
          then have "globs True m2 n2" by (auto simp: globs_def)
          with sem step True Nil show ?thesis by simp
        next
          case m3: (Cons y m3)
          have y: "y \<notin> {CHR ''*'', CHR ''?''}" using run m3 by auto
          have "mm_inv True [] (y # m3) (takeWhile (\<lambda>c. ToLower c \<noteq> ToLower y) n2)
              (dropWhile (\<lambda>c. ToLower c \<noteq> ToLower y) n2)"
            using mm_inv_star [OF _ y] nb m3 by simp
          from default_ok [OF this] mm_sem_star [OF y, of m3 n2] y sem step True m3 show ?thesis by simp
        qed
      qed
    qed
  qed
qed

lemma match_loop_ok:
  "mm_inv st w m u n \<Longrightarrow> st \<longrightarrow> u @ n \<noteq> [] \<Longrightarrow>
     match_loop st w m u n = Some (if mm_sem st w m u n then 0 else 1)"
proof (induction st w m u n rule: match_loop.induct)
  case (1 st w m u n)
  show ?case
  proof (cases "match_step st w m u n")
    case (Go st1 w1 m1 u1 n1)
    with match_step_ok [OF "1.prems"] "1.IH" [OF Go] show ?thesis
      by (simp add: match_loop.simps [of st w m u n])
  qed (use match_step_ok [OF "1.prems"] in \<open>auto simp: match_loop.simps [of st w m u n]\<close>)
qed

lemma match_glob:
  "CHR 0x5C \<notin> set msk \<Longrightarrow> match msk name = Some (if glob msk name then 0 else 1)"
  by (simp add: match_def match_loop_ok mm_inv_def mm_sem_def)

section \<open>Masks with backslashes\<close>

text \<open>
  The meaning of a mask in general is a list of tokens. In \<^verbatim>\<open>match\<close> a backslash makes the
  next character, whichever it is, match itself and only itself (\<open>Exact\<close>); everywhere else in
  the file a backslash makes a following star or question mark an ordinary character, and any
  other backslash is an ordinary character itself.
\<close>

datatype mtok = Star | Any | Lit char | Exact char

fun tok_char :: "mtok \<Rightarrow> char \<Rightarrow> bool" where
  "tok_char Star c = False"
| "tok_char Any c = True"
| "tok_char (Lit x) c = (ToLower x = ToLower c)"
| "tok_char (Exact x) c = (x = c)"

fun tglob :: "mtok list \<Rightarrow> string \<Rightarrow> bool" where
  "tglob [] n = (n = [])"
| "tglob (t # ts) [] = (t = Star \<and> tglob ts [])"
| "tglob (t # ts) (c # n) =
     (if t = Star then tglob ts (c # n) \<or> tglob (t # ts) n else tok_char t c \<and> tglob ts n)"

definition wild_tok :: "char \<Rightarrow> mtok" where
  "wild_tok x = (if x = CHR ''*'' then Star else if x = CHR ''?'' then Any else Lit x)"

fun match_toks :: "string \<Rightarrow> mtok list" where
  "match_toks [] = []"
| "match_toks (x # m) =
     (if x = CHR 0x5C then (case m of [] \<Rightarrow> [Lit x] | y # m1 \<Rightarrow> Exact y # match_toks m1)
      else wild_tok x # match_toks m)"

fun mask_toks :: "string \<Rightarrow> mtok list" where
  "mask_toks [] = []"
| "mask_toks (x # m) =
     (if x = CHR 0x5C \<and> m \<noteq> [] \<and> (hd m = CHR ''*'' \<or> hd m = CHR ''?'') then Lit (hd m) # mask_toks (tl m)
      else wild_tok x # mask_toks m)"

lemma tglob_glob: "tglob (map wild_tok m) n = glob m n"
  by (induction m n rule: glob.induct) (auto simp: wild_tok_def)

lemma match_toks_plain: "CHR 0x5C \<notin> set m \<Longrightarrow> match_toks m = map wild_tok m"
  by (induction m rule: match_toks.induct) auto

lemma mask_toks_plain: "CHR 0x5C \<notin> set m \<Longrightarrow> mask_toks m = map wild_tok m"
  by (induction m rule: mask_toks.induct) auto

section \<open>Collapsing a mask\<close>

text \<open>
  The inner loop copies the mask from the first redundant star on; it holds back a star until
  a character that is neither star nor question mark, or the end, follows. It works in place,
  never writing ahead of where it reads.
\<close>

fun collapse_run :: "bool \<Rightarrow> string \<Rightarrow> string" where
  "collapse_run star [] = (if star then ''*'' else [])"
| "collapse_run star (x # m) =
     (if x = CHR ''*'' then collapse_run True m
      else let star1 = (star \<and> x = CHR ''?'') in
        (if star \<and> x \<noteq> CHR ''?'' then ''*'' else []) @ [x] @
        (if x = CHR 0x5C \<and> m \<noteq> [] \<and> (hd m = CHR ''*'' \<or> hd m = CHR ''?'')
         then hd m # collapse_run star1 (tl m) else collapse_run star1 m))"

fun collapse :: "string \<Rightarrow> string" where
  "collapse [] = []"
| "collapse (x # m) =
     (if m \<noteq> [] \<and> (hd m = CHR ''*'' \<or> hd m = CHR ''?'')
      then if x = CHR ''*'' then collapse_run False (x # m)
           else if x = CHR 0x5C then x # hd m # collapse (tl m)
           else x # collapse m
      else x # collapse m)"

definition tstar :: "bool \<Rightarrow> mtok list \<Rightarrow> mtok list" where
  "tstar star ts = (if star then Star # ts else ts)"

lemma tglob_Nil_Star [simp]: "tglob (Star # ts) [] = tglob ts []" by simp

lemma tglob_Star: "tglob (Star # ts) n \<longleftrightarrow> (\<exists>k. tglob ts (drop k n))"
proof (induction n)
  case (Cons c n)
  have "(\<exists>k. tglob ts (drop k (c # n))) \<longleftrightarrow> tglob ts (c # n) \<or> (\<exists>k. tglob ts (drop k n))"
    by (metis drop_0 drop_Suc_Cons not0_implies_Suc)
  with Cons show ?case by simp
qed simp

lemma tglob_Star_Star: "tglob (Star # Star # ts) n = tglob (Star # ts) n"
  by (auto simp: tglob_Star) (metis add_0)

lemma tglob_Star_Any: "tglob (Star # Any # ts) n = tglob (Any # Star # ts) n"
proof (induction n)
  case (Cons c n)
  then show ?case by (cases n) auto
qed simp

lemma tglob_cong: "(\<And>n. tglob ts n = tglob ts' n) \<Longrightarrow> tglob (t # ts) n = tglob (t # ts') n"
  by (induction n) auto

lemma tstar_cong: "(\<And>n. tglob ts n = tglob ts' n) \<Longrightarrow> tglob (tstar star ts) n = tglob (tstar star ts') n"
  using tglob_cong [of ts ts' Star] by (simp add: tstar_def)

lemma mask_toks_escape:
  "y = CHR ''*'' \<or> y = CHR ''?'' \<Longrightarrow> mask_toks (CHR 0x5C # y # m) = Lit y # mask_toks m"
  by auto

lemma mask_toks_other:
  "x \<noteq> CHR 0x5C \<or> m = [] \<or> hd m \<notin> {CHR ''*'', CHR ''?''} \<Longrightarrow> mask_toks (x # m) = wild_tok x # mask_toks m"
  by auto

lemma collapse_run_hd:
  "\<not> star \<Longrightarrow> m \<noteq> [] \<Longrightarrow> hd m \<notin> {CHR ''*'', CHR ''?''} \<Longrightarrow>
     collapse_run star m \<noteq> [] \<and> hd (collapse_run star m) = hd m"
  by (cases m) (auto simp: Let_def)

lemma mask_toks_collapse_run:
  assumes "x \<noteq> CHR ''*''" and "star1 \<longrightarrow> x = CHR ''?''"
    and esc: "\<not> (x = CHR 0x5C \<and> m \<noteq> [] \<and> (hd m = CHR ''*'' \<or> hd m = CHR ''?''))"
  shows "mask_toks (x # collapse_run star1 m) = wild_tok x # mask_toks (collapse_run star1 m)"
proof (cases "x = CHR 0x5C")
  case True
  with assms have "\<not> star1" by auto
  then show ?thesis
    using True esc collapse_run_hd [of star1 m] by (cases "m = []") (auto intro!: mask_toks_other)
qed (simp add: mask_toks_other)

lemma collapse_run_glob:
  "tglob (mask_toks (collapse_run star m)) n = tglob (tstar star (mask_toks m)) n"
proof (induction star m arbitrary: n rule: collapse_run.induct)
  case (1 star)
  then show ?case by (simp add: tstar_def wild_tok_def)
next
  case (2 star x m)
  show ?case
  proof (cases "x = CHR ''*''")
    case True
    then show ?thesis
      using "2.IH"(1) tglob_Star_Star by (simp add: tstar_def wild_tok_def)
  next
    case x: False
    let ?s = "star \<and> x = CHR ''?''"
    let ?star = "if star \<and> x \<noteq> CHR ''?'' then ''*'' else []"
    show ?thesis
    proof (cases "x = CHR 0x5C \<and> m \<noteq> [] \<and> (hd m = CHR ''*'' \<or> hd m = CHR ''?'')")
      case esc: True
      then obtain y m1 where m: "m = y # m1" by (cases m) auto
      have "tglob (Lit y # mask_toks (collapse_run False m1)) k = tglob (Lit y # mask_toks m1) k" for k
        using "2.IH"(2) [OF x refl esc] esc m by (intro tglob_cong) (simp add: tstar_def)
      then have "tglob (tstar star (Lit y # mask_toks (collapse_run False m1))) n =
          tglob (tstar star (Lit y # mask_toks m1)) n"
        by (rule tstar_cong)
      with esc m x show ?thesis by (auto simp: tstar_def wild_tok_def)
    next
      case esc: False
      have run: "collapse_run star (x # m) = ?star @ x # collapse_run ?s m"
        using x esc by (auto simp: Let_def)
      have tk: "mask_toks (x # collapse_run ?s m) = wild_tok x # mask_toks (collapse_run ?s m)"
        by (rule mask_toks_collapse_run) (use x esc in auto)
      have IH: "tglob (wild_tok x # mask_toks (collapse_run ?s m)) k =
          tglob (wild_tok x # tstar ?s (mask_toks m)) k" for k
        using "2.IH"(3) [OF x refl esc] by (intro tglob_cong) simp
      have xm: "mask_toks (x # m) = wild_tok x # mask_toks m"
        using esc by (intro mask_toks_other) auto
      show ?thesis
      proof (cases "x = CHR ''?''")
        case True
        with run tk IH xm show ?thesis
          by (cases star) (simp_all add: tstar_def wild_tok_def tglob_Star_Any)
      next
        case False
        have "tglob (tstar star (wild_tok x # mask_toks (collapse_run False m))) n =
            tglob (tstar star (wild_tok x # mask_toks m)) n"
          using IH False by (intro tstar_cong) (simp add: tstar_def)
        with False run tk xm show ?thesis by (cases star) (simp_all add: tstar_def wild_tok_def)
      qed
    qed
  qed
qed

lemma collapse_hd: "m \<noteq> [] \<Longrightarrow> hd m \<notin> {CHR ''*'', CHR ''?''} \<Longrightarrow> collapse m \<noteq> [] \<and> hd (collapse m) = hd m"
  by (cases m) auto

lemma collapse_glob: "tglob (mask_toks (collapse m)) n = tglob (mask_toks m) n"
proof (induction m arbitrary: n rule: collapse.induct)
  case (2 x m)
  show ?case
  proof (cases "m \<noteq> [] \<and> (hd m = CHR ''*'' \<or> hd m = CHR ''?'')")
    case wild: True
    then obtain y m1 where m: "m = y # m1" by (cases m) auto
    consider "x = CHR ''*''" | "x = CHR 0x5C" | "x \<noteq> CHR ''*''" "x \<noteq> CHR 0x5C" by blast
    then show ?thesis
    proof cases
      case 1
      then show ?thesis using wild collapse_run_glob [of False "x # m"] by (simp add: tstar_def)
    next
      case 2
      then show ?thesis
        using wild m "2.IH"(1) [OF wild] by (auto intro!: tglob_cong)
    next
      case 3
      then show ?thesis using wild "2.IH"(2) [OF wild] by (auto intro!: tglob_cong)
    qed
  next
    case False
    have "mask_toks (x # collapse m) = wild_tok x # mask_toks (collapse m)"
      using False collapse_hd [of m] by (cases "m = []") (auto intro!: mask_toks_other)
    moreover have "mask_toks (x # m) = wild_tok x # mask_toks m"
      using False by (intro mask_toks_other) auto
    ultimately show ?thesis using False "2.IH"(3) [OF False] by (auto intro!: tglob_cong)
  qed
qed simp

lemma collapse_run_length: "length (collapse_run star m) \<le> length m + (if star then 1 else 0)"
proof (induction star m rule: collapse_run.induct)
  case (2 star x m)
  show ?case
  proof (cases "x = CHR ''*''")
    case True
    then show ?thesis using "2.IH"(1) by simp
  next
    case x: False
    show ?thesis
    proof (cases "x = CHR 0x5C \<and> m \<noteq> [] \<and> (hd m = CHR ''*'' \<or> hd m = CHR ''?'')")
      case True
      then show ?thesis using "2.IH"(2) [OF x refl True] by (cases m) (auto simp: Let_def)
    next
      case False
      have "collapse_run star (x # m) = (if star \<and> x \<noteq> CHR ''?'' then ''*'' else []) @ x # collapse_run (star \<and> x = CHR ''?'') m"
        using x False by (auto simp: Let_def)
      then show ?thesis using "2.IH"(3) [OF x refl False] by (auto simp del: collapse_run.simps)
    qed
  qed
qed simp

lemma collapse_length: "length (collapse m) \<le> length m"
proof (induction m rule: collapse.induct)
  case (2 x m)
  then show ?case using collapse_run_length [of False "x # m"] by (cases m) (auto simp del: collapse_run.simps)
qed simp

text \<open>A mask without redundant stars.\<close>

fun collapsed :: "string \<Rightarrow> bool" where
  "collapsed [] = True"
| "collapsed (x # m) =
     (if m \<noteq> [] \<and> (hd m = CHR ''*'' \<or> hd m = CHR ''?'')
      then if x = CHR 0x5C then collapsed (tl m) else x \<noteq> CHR ''*'' \<and> collapsed m
      else collapsed m)"

lemma collapsed_Cons:
  "x \<noteq> CHR ''*'' \<Longrightarrow> x \<noteq> CHR 0x5C \<or> m = [] \<or> hd m \<notin> {CHR ''*'', CHR ''?''} \<Longrightarrow> collapsed (x # m) = collapsed m"
  by (cases m) auto

lemma collapsed_star:
  "x \<notin> {CHR ''*'', CHR ''?''} \<Longrightarrow> collapsed (CHR ''*'' # x # m) = collapsed (x # m)"
  by simp

lemma collapse_run_collapsed: "collapsed (collapse_run star m)"
proof (induction star m rule: collapse_run.induct)
  case (2 star x m)
  show ?case
  proof (cases "x = CHR ''*''")
    case True
    then show ?thesis using "2.IH"(1) by simp
  next
    case x: False
    show ?thesis
    proof (cases "x = CHR 0x5C \<and> m \<noteq> [] \<and> (hd m = CHR ''*'' \<or> hd m = CHR ''?'')")
      case True
      then show ?thesis using "2.IH"(2) [OF x refl True] by (auto simp: Let_def)
    next
      case False
      let ?r = "collapse_run (star \<and> x = CHR ''?'') m"
      have run: "collapse_run star (x # m) = (if star \<and> x \<noteq> CHR ''?'' then ''*'' else []) @ x # ?r"
        using x False by (auto simp: Let_def)
      have "x \<noteq> CHR 0x5C \<or> ?r = [] \<or> hd ?r \<notin> {CHR ''*'', CHR ''?''}"
        using False collapse_run_hd [of False m] by (cases "m = []") auto
      then have "collapsed (x # ?r)"
        using collapsed_Cons [OF x, of ?r] "2.IH"(3) [OF x refl False] by blast
      then show ?thesis using x unfolding run
        by (auto simp: collapsed_star simp del: collapsed.simps collapse_run.simps)
    qed
  qed
qed simp

lemma collapse_collapsed: "collapsed (collapse m)"
proof (induction m rule: collapse.induct)
  case (2 x m)
  show ?case
  proof (cases "m \<noteq> [] \<and> (hd m = CHR ''*'' \<or> hd m = CHR ''?'')")
    case wild: True
    consider "x = CHR ''*''" | "x = CHR 0x5C" | "x \<noteq> CHR ''*''" "x \<noteq> CHR 0x5C" by blast
    then show ?thesis
    proof cases
      case 1
      then show ?thesis using wild collapse_run_collapsed [of False "x # m"] by simp
    next
      case 2
      then show ?thesis using wild "2.IH"(1) [OF wild] by auto
    next
      case 3
      then show ?thesis using wild "2.IH"(2) [OF wild] by auto
    qed
  next
    case False
    then have "collapse m = [] \<or> hd (collapse m) \<notin> {CHR ''*'', CHR ''?''}"
      using collapse_hd [of m] by (cases "m = []") auto
    then show ?thesis using False "2.IH"(3) [OF False] by auto
  qed
qed simp

lemma collapse_id: "collapsed m \<Longrightarrow> collapse m = m"
  by (induction m rule: collapse.induct) (auto split: if_splits)

section \<open>Properties\<close>

text \<open>C15. On every mask without backslashes and every name, \<^verbatim>\<open>match\<close> terminates, reads no
  character behind the end of either string, and returns 0 exactly when the name matches the
  mask: a star stands for any characters, a question mark for one, any other character for
  itself without regard to case. One remembered position suffices for the backtracking.\<close>

theorem match_correct:
  assumes "CHR 0x5C \<notin> set msk"
  shows "match msk name = Some (if glob msk name then 0 else 1)"
  using match_glob [OF assms] .

theorem match_correct_witness:
  "match ''*.Under?et.*'' ''uk.undernet.org'' = Some (if glob ''*.Under?et.*'' ''uk.undernet.org'' then 0 else 1)"
  by (rule match_correct) simp

text \<open>\<^verbatim>\<open>match\<close> does not implement the backslash. After it backtracks to an escaped star the
  star is a wildcard again, so a name without the required star matches; a backslash behind a
  question mark is taken literally; and a mask that ends in a backslash makes it read behind
  the end of the mask when the name ends there, too.\<close>

lemma match_escapes_wrong:
  "match [CHR ''*'', CHR 0x5C, CHR ''*'', CHR ''b''] ''a*cb'' = Some 0 \<and>
   \<not> tglob (match_toks [CHR ''*'', CHR 0x5C, CHR ''*'', CHR ''b'']) ''a*cb'' \<and>
   match [CHR ''?'', CHR 0x5C, CHR ''*''] ''a*'' = Some 1 \<and>
   tglob (match_toks [CHR ''?'', CHR 0x5C, CHR ''*'']) ''a*'' \<and>
   match [CHR ''a'', CHR 0x5C] ''a'' = None"
  by code_simp

text \<open>C33. \<^verbatim>\<open>collapse\<close> does not change which names a mask matches, whatever it contains, does not
  lengthen the mask, leaves no star followed by another wildcard, and does nothing to a mask
  that has no such star.\<close>

theorem collapse_correct:
  "(\<forall>n. tglob (mask_toks (collapse m)) n = tglob (mask_toks m) n) \<and>
   length (collapse m) \<le> length m \<and> collapsed (collapse m) \<and> collapse (collapse m) = collapse m"
  using collapse_glob collapse_length collapse_collapsed collapse_id by blast

end
