(* ===== verification/MatchComp.thy ===== *)
theory MatchComp
  imports Match
begin

text \<open>
  Compiled masks (\<^verbatim>\<open>matchcomp\<close> and \<^verbatim>\<open>matchexec\<close> of \<^verbatim>\<open>ircd/match.c\<close>). In a compiled mask a
  star is the letter Z, a question mark the letter A, all other characters are in lower case,
  and the part behind the last star stands, reversed, behind the first one.

  The in-place reversal and the in-place exchange of two adjacent blocks are modelled as the
  loops they are. \<^verbatim>\<open>matchexec\<close> scans the name forwards, backwards and forwards again; its three
  labelled loops are three functions on the parts of the strings that are still to be read.
  \<open>junk\<close> is the byte before the name, which the backward loop may read; a read further out is
  \<open>None\<close>. The main theorem says that a compiled mask matches what the mask matches.
\<close>

section \<open>Compiling\<close>

record comp_state =
  cb :: string
  cfs :: "nat option"
  cls :: "nat option"
  cstar :: bool
  ccnt :: nat
  cset :: u32
  cset2 :: u32

definition comp_star :: "comp_state \<Rightarrow> comp_state" where
  "comp_star st =
     st\<lparr>cls := Some (length (cb st)),
        cfs := (case cfs st of None \<Rightarrow> Some (length (cb st)) | Some f \<Rightarrow> Some f),
        cb := cb st @ ''Z''\<rparr>"

definition comp_char :: "char \<Rightarrow> comp_state \<Rightarrow> comp_state" where
  "comp_char ch st =
     (let st1 = (if cstar st then (comp_star st)\<lparr>cset2 := cset2 st AND NOT NTL_LOWER, cstar := False\<rparr> else st)
      in st1\<lparr>ccnt := Suc (ccnt st1), cb := cb st1 @ [ToLower ch],
             cset := cset st1 AND makeTables (ToLower ch), cset2 := cset2 st1 AND NOT NTL_UPPER\<rparr>)"

definition comp_question :: "comp_state \<Rightarrow> comp_state" where
  "comp_question st = st\<lparr>ccnt := Suc (ccnt st), cb := cb st @ ''A'', cset2 := cset2 st AND NOT NTL_LOWER\<rparr>"

fun matchcomp_loop :: "string \<Rightarrow> comp_state \<Rightarrow> comp_state" where
  "matchcomp_loop [] st = st"
| "matchcomp_loop (ch # m) st =
     (if ch = CHR ''*'' then matchcomp_loop m (st\<lparr>cstar := True\<rparr>)
      else if ch = CHR ''?'' then matchcomp_loop m (comp_question st)
      else if ch = CHR 0x5C \<and> m \<noteq> [] \<and> (hd m = CHR ''*'' \<or> hd m = CHR ''?'')
      then matchcomp_loop (tl m) (comp_char (hd m) st)
      else matchcomp_loop m (comp_char ch st))"

text \<open>Reversal in place: the outermost characters are exchanged first.\<close>

function rev_swap :: "string \<Rightarrow> string" where
  "rev_swap xs = (if length xs \<le> 1 then xs else last xs # rev_swap (butlast (tl xs)) @ [hd xs])"
  by pat_completeness auto
termination by (relation "measure length") auto

text \<open>Exchange in place of two adjacent blocks.\<close>

function swap_blocks :: "string \<Rightarrow> string \<Rightarrow> string" where
  "swap_blocks x1 x2 =
     (if x1 = [] \<or> x2 = [] then x1 @ x2
      else if length x1 < length x2
      then take (length x1) x2 @ swap_blocks x1 (drop (length x1) x2)
      else if length x2 < length x1
      then x2 @ swap_blocks (drop (length x2) x1) (take (length x2) x1)
      else x2 @ x1)"
  by pat_completeness auto
termination by (relation "measure (\<lambda>(x1, x2). length x1 + length x2)") auto

declare rev_swap.simps [simp del] swap_blocks.simps [simp del]

definition comp_init :: comp_state where
  "comp_init = \<lparr>cb = [], cfs = None, cls = None, cstar = False, ccnt = 0, cset = NOT 0, cset2 = NTL_LOWER OR NTL_UPPER\<rparr>"

definition matchcomp :: "string \<Rightarrow> string \<times> nat \<times> u32" where
  "matchcomp msk =
     (let st = matchcomp_loop msk comp_init;
          charset = cset st OR cset2 st;
          st1 = (if cstar st then comp_star st else st);
          b = cb st1
      in case (cfs st1, cls st1) of
           (Some fs, Some ls) \<Rightarrow>
             let b1 = take (Suc ls) b @ rev_swap (drop (Suc ls) b)
             in (take fs b1 @ swap_blocks (take (ls - fs) (drop fs b1)) (drop ls b1), ccnt st1, charset)
         | _ \<Rightarrow> (b, ccnt st1, charset))"

section \<open>Executing\<close>

datatype exec = ERet nat | EFault | ENext string string

fun try_head :: "string \<Rightarrow> string \<Rightarrow> exec" where
  "try_head [] b = ERet (if b = [] \<or> b = ''Z'' then 0 else 1)"
| "try_head (c # s) [] = ERet 1"
| "try_head (c # s) (x # b) =
     (if ToLower c = x then try_head s b
      else if x = CHR ''Z'' then ENext (c # s) b
      else if x = CHR ''A'' then try_head s b
      else ERet 1)"

text \<open>The name is given reversed.\<close>

fun try_tail :: "char \<Rightarrow> string \<Rightarrow> string \<Rightarrow> exec" where
  "try_tail junk rs [] = ERet 0"
| "try_tail junk [] (x # b) =
     (if ToLower junk = x then EFault else if x = CHR ''Z'' then ENext [] b
      else if x = CHR ''A'' then EFault else ERet 1)"
| "try_tail junk (c # rs) (x # b) =
     (if ToLower c = x then try_tail junk rs b
      else if x = CHR ''Z'' then ENext rs b
      else if x = CHR ''A'' then try_tail junk rs b
      else ERet 1)"

text \<open>Seek the first character of a chunk: where it is found and how much may still be skipped.\<close>

fun seek_chunk :: "char \<Rightarrow> string \<Rightarrow> nat \<Rightarrow> (nat + string \<times> nat) option" where
  "seek_chunk ch [] trash = (if trash = 0 then Some (Inl 4) else None)"
| "seek_chunk ch (c # s) trash =
     (if ToLower c = ch then Some (Inr (c # s, trash))
      else if trash = 0 then Some (Inl 4) else seek_chunk ch s (trash - 1))"

text \<open>The rest of a chunk; \<open>ERet 1\<close> stands for the rollback.\<close>

fun try_chunk :: "string \<Rightarrow> string \<Rightarrow> exec" where
  "try_chunk s [] = ERet 0"
| "try_chunk [] (x # b) =
     (if x = CHR ''Z'' then ENext [] b else if x = CHR ''A'' then EFault else ERet 1)"
| "try_chunk (c # s) (x # b) =
     (if ToLower c = x then try_chunk s b
      else if x = CHR ''Z'' then ENext (c # s) b
      else if x = CHR ''A'' then try_chunk s b
      else ERet 1)"

lemma seek_chunk_length: "seek_chunk ch s trash = Some (Inr (s1, t)) \<Longrightarrow> length s1 - 1 < length s \<and> s1 \<noteq> []"
  by (induction ch s trash rule: seek_chunk.induct) (auto split: if_splits)

lemma try_chunk_length: "try_chunk s b = ENext s1 b1 \<Longrightarrow> length b1 < length b"
  by (induction s b rule: try_chunk.induct) (auto split: if_splits)

function chunk_loop :: "string \<Rightarrow> string \<Rightarrow> nat \<Rightarrow> nat option" where
  "chunk_loop s b trash =
     (case b of
        [] \<Rightarrow> Some 0
      | ch # b1 \<Rightarrow>
          (case seek_chunk ch s trash of
             None \<Rightarrow> None
           | Some (Inl r) \<Rightarrow> Some r
           | Some (Inr (bs, trash1)) \<Rightarrow>
               (case try_chunk (tl bs) b1 of
                  ERet r \<Rightarrow>
                    if r = 0 then Some 0
                    else if trash1 = 0 then Some 5
                    else chunk_loop (tl bs) b (trash1 - 1)
                | EFault \<Rightarrow> None
                | ENext s2 b2 \<Rightarrow> chunk_loop s2 b2 trash1)))"
  by pat_completeness auto
termination
  by (relation "measures [\<lambda>(s, b, trash). length b, \<lambda>(s, b, trash). length s]")
    (auto dest!: seek_chunk_length try_chunk_length)

declare chunk_loop.simps [simp del]

definition matchexec :: "char \<Rightarrow> string \<Rightarrow> string \<Rightarrow> nat \<Rightarrow> nat option" where
  "matchexec junk name cmask minlen =
     (case try_head name cmask of
        ERet r \<Rightarrow> Some r
      | EFault \<Rightarrow> None
      | ENext bs b \<Rightarrow>
          if length name < minlen then Some 2
          else (case try_tail junk (rev name) b of
                  ERet r \<Rightarrow> Some r
                | EFault \<Rightarrow> None
                | ENext _ b1 \<Rightarrow> chunk_loop bs b1 (length name - minlen)))"

section \<open>Decompiling\<close>

definition decomp_char :: "char \<Rightarrow> string" where
  "decomp_char x = (if x = CHR ''?'' \<or> x = CHR ''*'' then [CHR 0x5C, x] else if x = CHR ''A'' then ''?'' else [x])"

definition decomp_body :: "char \<Rightarrow> string" where
  "decomp_body x = (if x = CHR ''Z'' then ''*'' else decomp_char x)"

text \<open>Head, star, chunks each followed by a star, and the tail read backwards.\<close>

definition matchdecomp :: "string \<Rightarrow> string" where
  "matchdecomp cm =
     (let notZ = (\<lambda>x. x \<noteq> CHR ''Z''); head = takeWhile notZ cm; r = dropWhile notZ cm
      in concat (map decomp_char head) @
         (if r = [] then []
          else let tail = takeWhile notZ (tl r); r2 = dropWhile notZ (tl r)
               in ''*'' @ (if r2 = [] then [] else concat (map decomp_body (tl r2)) @ ''*'') @
                  concat (map decomp_char (rev tail))))"

section \<open>What compiling produces\<close>

lemma rev_swap_rev: "rev_swap xs = rev xs"
proof (induction xs rule: rev_swap.induct)
  case (1 xs)
  show ?case
  proof (cases "length xs \<le> 1")
    case True
    then show ?thesis by (cases xs) (auto simp: rev_swap.simps)
  next
    case False
    then obtain a ys z where xs: "xs = a # ys @ [z]"
      by (metis One_nat_def Suc_leI append_butlast_last_id length_Cons length_0_conv list.exhaust not_le not_less_eq_eq zero_less_Suc le0 list.size(3))
    with False 1 show ?thesis by (simp add: rev_swap.simps [of "a # ys @ [z]"])
  qed
qed

lemma swap_blocks_append: "swap_blocks x1 x2 = x2 @ x1"
proof (induction x1 x2 rule: swap_blocks.induct)
  case (1 x1 x2)
  then show ?case by (auto simp: swap_blocks.simps [of x1 x2] not_less simp flip: append_assoc)
qed

definition cm_tok :: "char \<Rightarrow> mtok" where
  "cm_tok x = (if x = CHR ''Z'' then Star else if x = CHR ''A'' then Any else Lit x)"

definition plain :: "string \<Rightarrow> bool" where
  "plain s \<longleftrightarrow> (\<forall>x\<in>set s. x = CHR ''A'' \<or> ToLower x = x)"

definition chunk :: "string \<Rightarrow> bool" where
  "chunk c \<longleftrightarrow> plain c \<and> c \<noteq> [] \<and> hd c \<noteq> CHR ''A''"

definition chunks :: "string list \<Rightarrow> string" where
  "chunks cs = concat (map (\<lambda>c. CHR ''Z'' # c) cs)"

lemma ToLower_not_wild [simp]: "ToLower c \<noteq> CHR ''A''" "ToLower c \<noteq> CHR ''Z''"
  "CHR ''A'' \<noteq> ToLower c" "CHR ''Z'' \<noteq> ToLower c"
proof -
  have "code (ToLower c) \<noteq> 65" "code (ToLower c) \<noteq> 90" by (auto simp: code_ToLower)
  moreover have "code (CHR ''A'') = 65" "code (CHR ''Z'') = 90" by (simp_all add: code_def)
  ultimately show "ToLower c \<noteq> CHR ''A''" "ToLower c \<noteq> CHR ''Z''" "CHR ''A'' \<noteq> ToLower c" "CHR ''Z'' \<noteq> ToLower c"
    by metis+
qed

lemma cm_tok_simps [simp]:
  "cm_tok (CHR ''Z'') = Star" "cm_tok (CHR ''A'') = Any" "cm_tok (ToLower c) = Lit (ToLower c)"
  by (simp_all add: cm_tok_def)

lemma plain_simps [simp]:
  "plain []" "plain (x # s) \<longleftrightarrow> (x = CHR ''A'' \<or> ToLower x = x) \<and> plain s" "plain (s @ t) \<longleftrightarrow> plain s \<and> plain t"
  by (auto simp: plain_def)

lemma plain_noZ: "plain s \<Longrightarrow> CHR ''Z'' \<notin> set s"
proof
  assume "plain s" and "CHR ''Z'' \<in> set s"
  then have "CHR ''Z'' = CHR ''A'' \<or> ToLower (CHR ''Z'') = CHR ''Z''" unfolding plain_def by blast
  then show False by simp
qed

text \<open>
  The compiled text is made of a head, and if there was a star, of chunks and a tail, which
  stays open until the next star.
\<close>

definition comp_ok :: "comp_state \<Rightarrow> bool" where
  "comp_ok st \<longleftrightarrow>
     (cfs st = None \<and> cls st = None \<and> plain (cb st) \<and> ccnt st = length (cb st)) \<or>
     (\<exists>h cs t. cfs st = Some (length h) \<and> cls st = Some (length h + length (chunks cs)) \<and>
        cb st = h @ chunks cs @ CHR ''Z'' # t \<and> plain h \<and> list_all chunk cs \<and> chunk t \<and>
        ccnt st = length h + length (concat cs) + length t)"

lemma comp_ok_init: "comp_ok comp_init"
  by (simp add: comp_ok_def comp_init_def)

lemma comp_ok_question: "comp_ok st \<Longrightarrow> comp_ok (comp_question st)"
proof -
  assume "comp_ok st"
  then show ?thesis
  proof (unfold comp_ok_def, elim disjE exE conjE, goal_cases)
    case 1
    then show ?case by (simp add: comp_question_def)
  next
    case (2 h cs t)
    then show ?case
      by (intro disjI2 exI [of _ h] exI [of _ cs] exI [of _ "t @ ''A''"])
        (auto simp: comp_question_def chunk_def)
  qed
qed

lemma comp_star_parts:
  assumes "comp_ok st"
  shows "\<exists>h cs. cfs (comp_star st) = Some (length h) \<and>
    cls (comp_star st) = Some (length h + length (chunks cs)) \<and>
    cb (comp_star st) = h @ chunks cs @ ''Z'' \<and> plain h \<and> list_all chunk cs \<and>
    ccnt st = length h + length (concat cs)"
  using assms
proof (unfold comp_ok_def, elim disjE exE conjE, goal_cases)
  case 1
  then show ?case
    by (intro exI [of _ "cb st"] exI [of _ "[]"]) (simp add: comp_star_def chunks_def)
next
  case (2 h cs t)
  then show ?case
    by (intro exI [of _ h] exI [of _ "cs @ [t]"]) (simp add: comp_star_def chunks_def)
qed

lemma comp_ok_char: 
  assumes "comp_ok st"
  shows "comp_ok (comp_char ch st)"
proof (cases "cstar st")
  case True
  obtain h cs where p: "cfs (comp_star st) = Some (length h)"
      "cls (comp_star st) = Some (length h + length (chunks cs))"
      "cb (comp_star st) = h @ chunks cs @ ''Z''" "plain h" "list_all chunk cs"
      "ccnt st = length h + length (concat cs)"
    using comp_star_parts [OF assms] by blast
  have "ccnt (comp_star st) = ccnt st" by (simp add: comp_star_def)
  then have "cfs (comp_char ch st) = Some (length h) \<and>
      cls (comp_char ch st) = Some (length h + length (chunks cs)) \<and>
      cb (comp_char ch st) = h @ chunks cs @ CHR ''Z'' # [ToLower ch] \<and>
      ccnt (comp_char ch st) = length h + length (concat cs) + length [ToLower ch] \<and> chunk [ToLower ch]"
    using p True by (simp add: comp_char_def Let_def chunk_def)
  with p(4,5) show ?thesis unfolding comp_ok_def by blast
next
  case False
  with assms show ?thesis
  proof (unfold comp_ok_def, elim disjE exE conjE, goal_cases)
    case 1
    then show ?case by (simp add: comp_char_def)
  next
    case (2 h cs t)
    then show ?case
      by (intro disjI2 exI [of _ h] exI [of _ cs] exI [of _ "t @ [ToLower ch]"])
        (auto simp: comp_char_def chunk_def)
  qed
qed

lemma comp_ok_loop: "comp_ok st \<Longrightarrow> comp_ok (matchcomp_loop m st)"
proof (induction m st rule: matchcomp_loop.induct)
  case (2 ch m st)
  have "comp_ok (st\<lparr>cstar := True\<rparr>)" using "2.prems" by (simp add: comp_ok_def)
  with 2 comp_ok_question comp_ok_char show ?case by simp
qed simp

text \<open>The compiled text before the tail is moved has the meaning of the mask.\<close>

lemma tglob_prefix_cong:
  "(\<And>n. tglob ts n = tglob us n) \<Longrightarrow> tglob (xs @ ts) n = tglob (xs @ us) n"
  by (induction xs arbitrary: n) (auto intro!: tglob_cong)

lemma tglob_Lit_lower: "tglob (Lit (ToLower c) # ts) n = tglob (Lit c # ts) n"
  by (cases n) auto

lemma comp_loop_glob:
  "tglob (map cm_tok (cb (matchcomp_loop m st)) @ tstar (cstar (matchcomp_loop m st)) []) n =
     tglob (map cm_tok (cb st) @ tstar (cstar st) (mask_toks m)) n"
proof (induction m st rule: matchcomp_loop.induct)
  case (2 ch m st)
  have char: "tglob (map cm_tok (cb (comp_char c st)) @ tstar (cstar (comp_char c st)) ts) n =
      tglob (map cm_tok (cb st) @ tstar (cstar st) (Lit c # ts)) n" for c ts
  proof -
    have "tglob (map cm_tok (cb st) @ tstar (cstar st) (Lit (ToLower c) # ts)) n =
        tglob (map cm_tok (cb st) @ tstar (cstar st) (Lit c # ts)) n"
      by (intro tglob_prefix_cong tstar_cong tglob_Lit_lower)
    then show ?thesis
      by (auto simp: comp_char_def comp_star_def Let_def tstar_def)
  qed
  consider "ch = CHR ''*''" | "ch = CHR ''?''"
    | "ch \<noteq> CHR ''*''" "ch \<noteq> CHR ''?''" "ch = CHR 0x5C \<and> m \<noteq> [] \<and> (hd m = CHR ''*'' \<or> hd m = CHR ''?'')"
    | "ch \<noteq> CHR ''*''" "ch \<noteq> CHR ''?''" "\<not> (ch = CHR 0x5C \<and> m \<noteq> [] \<and> (hd m = CHR ''*'' \<or> hd m = CHR ''?''))"
    by blast
  then show ?case
  proof cases
    case 1
    then show ?thesis using "2.IH"(1) tglob_prefix_cong [OF tglob_Star_Star]
      by (simp add: tstar_def wild_tok_def)
  next
    case 2
    have "tglob (map cm_tok (cb st) @ Any # tstar (cstar st) (mask_toks m)) n =
        tglob (map cm_tok (cb st) @ tstar (cstar st) (Any # mask_toks m)) n"
      by (intro tglob_prefix_cong) (simp add: tstar_def tglob_Star_Any)
    with 2 "2.IH"(2) show ?thesis by (simp add: comp_question_def wild_tok_def)
  next
    case 3
    then show ?thesis using "2.IH"(3) char by simp
  next
    case 4
    then have "mask_toks (ch # m) = Lit ch # mask_toks m" by (subst mask_toks_other) (auto simp: wild_tok_def)
    moreover have "matchcomp_loop (ch # m) st = matchcomp_loop m (comp_char ch st)"
      using 4 unfolding matchcomp_loop.simps by (simp only: if_False HOL.simp_thms)
    ultimately show ?thesis using 4 "2.IH"(4) char by (simp del: matchcomp_loop.simps mask_toks.simps)
  qed
qed simp

lemma matchcomp_parts:
  assumes "matchcomp msk = (cm, minlen, charset)"
  shows "(plain cm \<and> minlen = length cm \<and> (\<forall>n. tglob (mask_toks msk) n = tglob (map cm_tok cm) n)) \<or>
    (\<exists>h cs t. cm = h @ CHR ''Z'' # rev t @ chunks cs \<and> plain h \<and> plain t \<and> list_all chunk cs \<and>
       minlen = length h + length (concat cs) + length t \<and>
       (\<forall>n. tglob (mask_toks msk) n = tglob (map cm_tok (h @ chunks cs @ CHR ''Z'' # t)) n))"
proof -
  define st where "st = matchcomp_loop msk comp_init"
  define st1 where "st1 = (if cstar st then comp_star st else st)"
  have ok: "comp_ok st" by (simp add: st_def comp_ok_loop comp_ok_init)
  have "tglob (map cm_tok (cb st) @ tstar (cstar st) []) n = tglob (mask_toks msk) n" for n
    using comp_loop_glob [of msk comp_init n] by (simp add: st_def comp_init_def tstar_def)
  moreover have "map cm_tok (cb st1) = map cm_tok (cb st) @ tstar (cstar st) []"
    by (simp add: st1_def comp_star_def tstar_def)
  ultimately have glob: "tglob (mask_toks msk) n = tglob (map cm_tok (cb st1)) n" for n by simp
  have parts: "(cfs st1 = None \<and> cls st1 = None \<and> plain (cb st1) \<and> ccnt st1 = length (cb st1)) \<or>
     (\<exists>h cs t. cfs st1 = Some (length h) \<and> cls st1 = Some (length h + length (chunks cs)) \<and>
        cb st1 = h @ chunks cs @ CHR ''Z'' # t \<and> plain h \<and> list_all chunk cs \<and> plain t \<and>
        ccnt st1 = length h + length (concat cs) + length t)"
  proof (cases "cstar st")
    case True
    with comp_star_parts [OF ok] show ?thesis
      by (fastforce simp: st1_def comp_star_def)
  next
    case False
    with ok show ?thesis unfolding comp_ok_def st1_def chunk_def by auto
  qed
  from parts show ?thesis
  proof (elim disjE exE conjE, goal_cases)
    case 1
    then have "cm = cb st1" "minlen = length cm"
      using assms by (auto simp: matchcomp_def Let_def simp flip: st_def st1_def)
    with 1 glob show ?thesis by simp
  next
    case (2 h cs t)
    then have "cm = h @ CHR ''Z'' # rev t @ chunks cs" "minlen = ccnt st1"
      using assms
      by (simp_all add: matchcomp_def Let_def rev_swap_rev swap_blocks_append flip: st_def st1_def)
    with 2 glob show ?thesis by auto
  qed
qed

section \<open>What executing decides\<close>

definition seg :: "string \<Rightarrow> string \<Rightarrow> bool" where
  "seg p s \<longleftrightarrow> list_all2 (\<lambda>x c. x = CHR ''A'' \<or> ToLower c = x) p s"

lemma seg_simps [simp]:
  "seg [] s \<longleftrightarrow> s = []" "seg (x # p) (c # s) \<longleftrightarrow> (x = CHR ''A'' \<or> ToLower c = x) \<and> seg p s"
  by (auto simp: seg_def)

lemma tglob_append: "tglob (ts @ us) n \<longleftrightarrow> (\<exists>k\<le>length n. tglob ts (take k n) \<and> tglob us (drop k n))"
proof (induction ts n rule: tglob.induct)
  case (3 t ts c n)
  have ex: "(\<exists>k\<le>Suc (length n). Q k) \<longleftrightarrow> Q 0 \<or> (\<exists>k\<le>length n. Q (Suc k))" for Q
    by (metis Suc_le_mono le0 not0_implies_Suc)
  show ?case
  proof (cases "t = Star")
    case True
    then have "tglob (t # ts) [] = tglob ts []" by simp
    with True 3 show ?thesis by (auto simp: ex)
  next
    case False
    with 3 show ?thesis by (auto simp: ex)
  qed
qed auto

lemma tglob_plain:
  "plain p \<Longrightarrow> tglob (map cm_tok p @ ts) n \<longleftrightarrow>
     length p \<le> length n \<and> seg p (take (length p) n) \<and> tglob ts (drop (length p) n)"
proof (induction p arbitrary: n)
  case (Cons x p)
  have "cm_tok x \<noteq> Star \<and> (tok_char (cm_tok x) c \<longleftrightarrow> x = CHR ''A'' \<or> ToLower c = x)" for c
    using Cons.prems plain_noZ [of "x # p"] by (auto simp: cm_tok_def)
  with Cons show ?case by (cases n) auto
qed simp

lemma try_head_plain:
  assumes "rest = [] \<or> hd rest = CHR ''Z''"
  shows "plain h \<Longrightarrow> try_head n (h @ rest) =
    (if length h \<le> length n \<and> seg h (take (length h) n) then try_head (drop (length h) n) rest else ERet 1)"
proof (induction h arbitrary: n)
  case (Cons x h)
  then show ?case using plain_noZ [of "x # h"] by (cases n) auto
qed simp

lemma try_tail_plain:
  "plain t \<Longrightarrow> length t \<le> length rs \<Longrightarrow> try_tail junk rs (t @ rest) =
    (if seg t (take (length t) rs) then try_tail junk (drop (length t) rs) rest else ERet 1)"
proof (induction t arbitrary: rs)
  case (Cons x t)
  then show ?case using plain_noZ [of "x # t"] by (cases rs) auto
qed simp

lemma try_tail_end: "try_tail junk rs [] = ERet 0" "try_tail junk rs (CHR ''Z'' # b) = ENext (tl rs) b"
  by (cases rs; simp)+

lemma try_chunk_plain:
  "plain p \<Longrightarrow> length p \<le> length s \<Longrightarrow> try_chunk s (p @ rest) =
    (if seg p (take (length p) s) then try_chunk (drop (length p) s) rest else ERet 1)"
proof (induction p arbitrary: s)
  case (Cons x p)
  then show ?case using plain_noZ [of "x # p"] by (cases s) auto
qed simp

lemma try_chunk_end: "try_chunk s [] = ERet 0" "try_chunk s (CHR ''Z'' # b) = ENext s b"
  by (cases s; simp)+

lemma seek_chunk_first:
  "trash < length s \<Longrightarrow>
     (seek_chunk ch s trash = Some (Inl 4) \<and> (\<forall>i\<le>trash. ToLower (s ! i) \<noteq> ch)) \<or>
     (\<exists>i\<le>trash. seek_chunk ch s trash = Some (Inr (drop i s, trash - i)) \<and> ToLower (s ! i) = ch \<and>
        (\<forall>j<i. ToLower (s ! j) \<noteq> ch))"
proof (induction ch s trash rule: seek_chunk.induct)
  case (2 ch c s trash)
  show ?case
  proof (cases "ToLower c = ch \<or> trash = 0")
    case True
    then show ?thesis by auto
  next
    case False
    then have "trash - 1 < length s" using "2.prems" by (cases trash) auto
    moreover have ne: "ToLower c \<noteq> ch" "trash \<noteq> 0" using False by auto
    ultimately have "(seek_chunk ch s (trash - 1) = Some (Inl 4) \<and> (\<forall>i\<le>trash - 1. ToLower (s ! i) \<noteq> ch)) \<or>
       (\<exists>i\<le>trash - 1. seek_chunk ch s (trash - 1) = Some (Inr (drop i s, trash - 1 - i)) \<and> ToLower (s ! i) = ch \<and>
          (\<forall>j<i. ToLower (s ! j) \<noteq> ch))"
      by (rule "2.IH" [rotated 2])
    with ne show ?thesis
    proof (elim disjE exE conjE, goal_cases)
      case 1
      then show ?thesis by (auto simp: nth_Cons split: nat.splits)
    next
      case (2 i)
      then show ?thesis
        by (intro disjI2 exI [of _ "Suc i"]) (auto simp: nth_Cons split: nat.splits)
    qed
  qed
qed simp

definition placed :: "string list \<Rightarrow> string \<Rightarrow> bool" where
  "placed cs r \<longleftrightarrow> tglob (map cm_tok (chunks cs @ ''Z'')) r"

lemma tglob_StarNil: "tglob [Star] r"
  by (induction r) auto

lemma placed_Nil [simp]: "placed [] r"
  by (simp add: placed_def chunks_def tglob_StarNil)

lemma placed_Cons:
  assumes "plain c"
  shows "placed (c # cs) r \<longleftrightarrow>
    (\<exists>i. i + length c \<le> length r \<and> seg c (take (length c) (drop i r)) \<and> placed cs (drop (i + length c) r))"
proof -
  have *: "map cm_tok (chunks (c # cs) @ ''Z'') = Star # map cm_tok c @ map cm_tok (chunks cs @ ''Z'')"
    by (simp add: chunks_def)
  have "placed (c # cs) r \<longleftrightarrow> (\<exists>i. length c \<le> length r - i \<and> seg c (take (length c) (drop i r)) \<and> placed cs (drop (i + length c) r))"
    unfolding placed_def * tglob_Star tglob_plain [OF assms] by (simp add: add.commute)
  also have "\<dots> \<longleftrightarrow> (\<exists>i. i + length c \<le> length r \<and> seg c (take (length c) (drop i r)) \<and> placed cs (drop (i + length c) r))"
  proof
    assume "\<exists>i. length c \<le> length r - i \<and> seg c (take (length c) (drop i r)) \<and> placed cs (drop (i + length c) r)"
    then obtain i where i: "length c \<le> length r - i" "seg c (take (length c) (drop i r))" "placed cs (drop (i + length c) r)"
      by blast
    show "\<exists>i. i + length c \<le> length r \<and> seg c (take (length c) (drop i r)) \<and> placed cs (drop (i + length c) r)"
    proof (cases "i \<le> length r")
      case True
      with i show ?thesis by (intro exI [of _ i]) simp
    next
      case False
      with i show ?thesis by (intro exI [of _ "length r"]) simp
    qed
  next
    assume "\<exists>i. i + length c \<le> length r \<and> seg c (take (length c) (drop i r)) \<and> placed cs (drop (i + length c) r)"
    then obtain i where "i + length c \<le> length r" "seg c (take (length c) (drop i r))" "placed cs (drop (i + length c) r)"
      by blast
    then show "\<exists>i. length c \<le> length r - i \<and> seg c (take (length c) (drop i r)) \<and> placed cs (drop (i + length c) r)"
      by (intro exI [of _ i]) simp
  qed
  finally show ?thesis .
qed

lemma placed_mono: "placed cs (drop j r) \<Longrightarrow> placed cs r"
proof (cases cs)
  case (Cons c cs')
  assume "placed cs (drop j r)"
  then show ?thesis unfolding placed_def Cons
    by (simp add: chunks_def tglob_Star) blast
qed simp

lemma placed_length: "list_all plain cs \<Longrightarrow> placed cs r \<Longrightarrow> length (concat cs) \<le> length r"
proof (induction cs arbitrary: r)
  case (Cons c cs)
  from Cons.prems obtain i where "i + length c \<le> length r" "placed cs (drop (i + length c) r)"
    by (auto simp: placed_Cons)
  with Cons.IH [of "drop (i + length c) r"] Cons.prems show ?case by simp
qed simp

lemma seg_take: "seg p (take (length p) s) \<Longrightarrow> p \<noteq> [] \<Longrightarrow> hd p \<noteq> CHR ''A'' \<Longrightarrow> s \<noteq> [] \<and> ToLower (hd s) = hd p"
  by (cases p; cases s) (auto simp: seg_def)

lemma take_drop_take: "i + l \<le> m \<Longrightarrow> take l (drop i (take m s)) = take l (drop i s)"
  by (simp add: drop_take min_def)

lemma seg_Cons_drop:
  assumes "i < length s" and "ToLower (s ! i) = x"
  shows "seg (x # p) (take (Suc (length p)) (drop i s)) \<longleftrightarrow> seg p (take (length p) (drop (Suc i) s))"
  using assms by (simp flip: Cons_nth_drop_Suc)

lemma placed_pos:
  assumes c: "chunk c" and cs: "list_all plain cs" and p: "placed (c # cs) R"
    and len: "length R = length (concat (c # cs)) + trash"
  shows "\<exists>j\<le>trash. j + length c \<le> length R \<and> ToLower (R ! j) = hd c \<and>
    seg c (take (length c) (drop j R)) \<and> placed cs (drop (j + length c) R)"
proof -
  have pl: "plain c" using c by (simp add: chunk_def)
  obtain j where j: "j + length c \<le> length R" "seg c (take (length c) (drop j R))" "placed cs (drop (j + length c) R)"
    using p by (auto simp: placed_Cons [OF pl])
  have "length (concat cs) \<le> length R - (j + length c)" using placed_length [OF cs j(3)] by simp
  then have "j \<le> trash" using len j(1) by simp
  moreover have "ToLower (R ! j) = hd c"
    using seg_take [OF j(2)] c j(1) by (auto simp: hd_drop_conv_nth chunk_def not_le)
  ultimately show ?thesis using j by blast
qed

lemma placed_here:
  assumes "plain c" and "i + length c \<le> length R" and "seg c (take (length c) (drop i R))"
    and least: "\<And>j. seg c (take (length c) (drop j R)) \<Longrightarrow> j + length c \<le> length R \<Longrightarrow> i \<le> j"
  shows "placed (c # cs) R \<longleftrightarrow> placed cs (drop (i + length c) R)"
proof
  assume "placed (c # cs) R"
  then obtain j where j: "j + length c \<le> length R" "seg c (take (length c) (drop j R))"
      "placed cs (drop (j + length c) R)"
    by (auto simp: placed_Cons [OF assms(1)])
  have "drop (j + length c) R = drop (j - i) (drop (i + length c) R)"
    using least [OF j(2,1)] by simp
  with j(3) placed_mono show "placed cs (drop (i + length c) R)" by metis
qed (use assms in \<open>auto simp: placed_Cons\<close>)

lemma placed_skip:
  assumes "plain c"
    and later: "\<And>j. seg c (take (length c) (drop j R)) \<Longrightarrow> j + length c \<le> length R \<Longrightarrow> i \<le> j"
  shows "placed (c # cs) R \<longleftrightarrow> placed (c # cs) (drop i R)"
proof
  assume "placed (c # cs) R"
  then obtain j where j: "j + length c \<le> length R" "seg c (take (length c) (drop j R))"
      "placed cs (drop (j + length c) R)"
    by (auto simp: placed_Cons [OF assms(1)])
  with later [OF j(2,1)] show "placed (c # cs) (drop i R)"
    unfolding placed_Cons [OF assms(1)] by (intro exI [of _ "j - i"]) auto
qed (rule placed_mono)

lemma chunk_loop_step:
  "chunk_loop s (ch # b1) trash = (case seek_chunk ch s trash of
       None \<Rightarrow> None
     | Some (Inl r) \<Rightarrow> Some r
     | Some (Inr (bs, trash1)) \<Rightarrow>
         (case try_chunk (tl bs) b1 of
            ERet r \<Rightarrow> if r = 0 then Some 0 else if trash1 = 0 then Some 5 else chunk_loop (tl bs) (ch # b1) (trash1 - 1)
          | EFault \<Rightarrow> None
          | ENext s2 b2 \<Rightarrow> chunk_loop s2 b2 trash1))"
  by (simp add: chunk_loop.simps [of s "ch # b1" trash])

text \<open>What a successful seek says about the region in which the chunks must be placed.\<close>

lemma seek_region:
  assumes c: "chunk (ch # c1)" and R: "R = take (length s - k) s"
    and len: "length R = length (concat ((ch # c1) # cs)) + trash" "length s = length R + k"
    and i: "i \<le> trash" "ToLower (s ! i) = ch" "\<forall>j<i. ToLower (s ! j) \<noteq> ch"
  shows "seg (ch # c1) (take (Suc (length c1)) (drop i R)) \<longleftrightarrow> seg c1 (take (length c1) (drop (Suc i) s))"
    and "seg (ch # c1) (take (Suc (length c1)) (drop j R)) \<Longrightarrow> j + Suc (length c1) \<le> length R \<Longrightarrow> i \<le> j"
proof -
  have "take (Suc (length c1)) (drop i R) = take (Suc (length c1)) (drop i s)"
    using len i(1) unfolding R by (intro take_drop_take) simp
  then show "seg (ch # c1) (take (Suc (length c1)) (drop i R)) \<longleftrightarrow> seg c1 (take (length c1) (drop (Suc i) s))"
    using seg_Cons_drop [of i s ch c1] i len by simp
  assume j: "seg (ch # c1) (take (Suc (length c1)) (drop j R))" "j + Suc (length c1) \<le> length R"
  then have "ToLower (R ! j) = ch"
    using seg_take [of "ch # c1" "drop j R"] c by (simp add: chunk_def hd_drop_conv_nth)
  moreover have "R ! j = s ! j" using j(2) by (simp add: R)
  ultimately show "i \<le> j" using i(3) not_less by metis
qed

lemma chunk_loop_placed:
  assumes "b = c @ chunks cs" and "list_all chunk (c # cs)"
    and "length s = length (concat (c # cs)) + trash + k"
  shows "\<exists>r. chunk_loop s b trash = Some r \<and> (r = 0 \<longleftrightarrow> placed (c # cs) (take (length s - k) s))"
  using assms
proof (induction s b trash arbitrary: c cs rule: chunk_loop.induct)
  case (1 s b trash)
  obtain ch c1 where c: "c = ch # c1" and ch: "chunk (ch # c1)" and pl: "plain (ch # c1)" "plain c1"
    using "1.prems"(2) by (cases c) (auto simp: chunk_def)
  have plcs: "list_all plain cs" using "1.prems"(2) by (auto simp: chunk_def list_all_iff)
  define R where "R = take (length s - k) s"
  have lenR: "length R = length (concat ((ch # c1) # cs)) + trash" "length s = length R + k"
    using "1.prems"(3) c by (simp_all add: R_def)
  have b: "b = ch # c1 @ chunks cs" using "1.prems"(1) c by simp
  note step = chunk_loop_step [of s ch "c1 @ chunks cs" trash, folded b]
  have "trash < length s" using "1.prems"(3) c by simp
  from seek_chunk_first [OF this, of ch]
  have "\<exists>r. chunk_loop s b trash = Some r \<and> (r = 0 \<longleftrightarrow> placed ((ch # c1) # cs) R)"
  proof (elim disjE exE conjE)
    assume "seek_chunk ch s trash = Some (Inl 4)" and no: "\<forall>i\<le>trash. ToLower (s ! i) \<noteq> ch"
    moreover have "\<not> placed ((ch # c1) # cs) R"
      using placed_pos [OF ch plcs _ lenR(1)] no by (fastforce simp: R_def)
    ultimately show ?thesis using step by auto
  next
    fix i assume i: "i \<le> trash" "seek_chunk ch s trash = Some (Inr (drop i s, trash - i))"
      "ToLower (s ! i) = ch" "\<forall>j<i. ToLower (s ! j) \<noteq> ch"
    note reg = seek_region [OF ch R_def lenR i(1,3,4)]
    have tl: "tl (drop i s) = drop (Suc i) s" by (simp add: drop_Suc tl_drop)
    have "length c1 \<le> length (drop (Suc i) s)" using "1.prems"(3) i(1) c by simp
    note tryc = try_chunk_plain [OF pl(2) this, of "chunks cs"]
    show ?thesis
    proof (cases "seg c1 (take (length c1) (drop (Suc i) s))")
      case True
      have here: "placed ((ch # c1) # cs) R \<longleftrightarrow> placed cs (drop (i + Suc (length c1)) R)"
        using placed_here [OF pl(1), of i R] reg True lenR(1) i(1) by simp
      show ?thesis
      proof (cases cs)
        case Nil
        then show ?thesis using step i(2) tl tryc True here by (simp add: chunks_def try_chunk_end)
      next
        case (Cons c2 cs2)
        let ?s2 = "drop (i + Suc (length c1)) s" and ?b2 = "c2 @ chunks cs2"
        have "chunks cs = CHR ''Z'' # ?b2" using Cons by (simp add: chunks_def)
        then have try2: "try_chunk (tl (drop i s)) (c1 @ chunks cs) = ENext ?s2 ?b2"
          using tl tryc True by (simp add: try_chunk_end add.commute)
        moreover have "\<exists>r. chunk_loop ?s2 ?b2 (trash - i) = Some r \<and>
            (r = 0 \<longleftrightarrow> placed (c2 # cs2) (take (length ?s2 - k) ?s2))"
          by (rule "1.IH"(2) [OF b i(2) refl refl try2]) (use "1.prems"(2,3) i(1) Cons c in auto)
        moreover have "take (length ?s2 - k) ?s2 = drop (i + Suc (length c1)) R"
          by (simp add: R_def drop_take algebra_simps)
        ultimately show ?thesis using here Cons step i(2) by simp
      qed
    next
      case False
      have try2: "try_chunk (tl (drop i s)) (c1 @ chunks cs) = ERet 1" using tl tryc False by simp
      have later: "Suc i \<le> j" if "seg (ch # c1) (take (length (ch # c1)) (drop j R))" "j + length (ch # c1) \<le> length R" for j
        using reg(1) reg(2) [of j] that False by (metis Suc_leI le_neq_implies_less length_Cons)
      show ?thesis
      proof (cases "trash - i = 0")
        case True
        then have "\<not> placed ((ch # c1) # cs) R"
          using placed_pos [OF ch plcs _ lenR(1)] later i(1) by (metis diff_is_0_eq le_trans not_less_eq_eq)
        with True step i(2) try2 show ?thesis by simp
      next
        case more: False
        have "\<exists>r. chunk_loop (tl (drop i s)) b (trash - i - 1) = Some r \<and>
            (r = 0 \<longleftrightarrow> placed (c # cs) (take (length (tl (drop i s)) - k) (tl (drop i s))))"
          by (rule "1.IH"(1) [OF b i(2) refl refl try2 _ more]) (use "1.prems" i(1) more in auto)
        moreover have "take (length (drop (Suc i) s) - k) (drop (Suc i) s) = drop (Suc i) R"
          by (simp add: R_def drop_take algebra_simps)
        ultimately show ?thesis
          using placed_skip [OF pl(1) later] step i(2) try2 more tl c by auto
      qed
    qed
  qed
  then show ?case by (simp add: c R_def)
qed

lemma matchexec_plain:
  assumes "plain cm"
  shows "matchexec junk name cm (length cm) = Some (if tglob (map cm_tok cm) name then 0 else 1)"
  using try_head_plain [of "[]" cm name] tglob_plain [OF assms, of "[]" name] assms
  by (cases "drop (length cm) name") (auto simp: matchexec_def)

lemma seg_rev: "seg (rev p) (rev s) = seg p s"
  by (simp add: seg_def list_all2_rev)

lemma seg_length: "seg p s \<Longrightarrow> length p = length s"
  by (simp add: seg_def list_all2_lengthD)

text \<open>A mask with a star: the head and the tail do not overlap, and the chunks lie between them.\<close>

lemma tglob_parts:
  assumes "plain h" and "plain t"
  shows "tglob (map cm_tok (h @ chunks cs @ CHR ''Z'' # t)) n \<longleftrightarrow>
    length h + length t \<le> length n \<and> seg h (take (length h) n) \<and> seg t (drop (length n - length t) n) \<and>
    placed cs (take (length n - length h - length t) (drop (length h) n))"
proof -
  let ?n = "drop (length h) n"
  have tail: "tglob (map cm_tok t) x \<longleftrightarrow> seg t x" for x
    using tglob_plain [OF assms(2), of "[]" x] seg_length [of t x] by (cases "length t = length x") auto
  have "tglob (map cm_tok (chunks cs @ ''Z'') @ map cm_tok t) ?n \<longleftrightarrow>
      (\<exists>k\<le>length ?n. placed cs (take k ?n) \<and> seg t (drop k ?n))"
    by (simp only: tglob_append tail placed_def)
  also have "\<dots> \<longleftrightarrow> length t \<le> length ?n \<and> placed cs (take (length ?n - length t) ?n) \<and> seg t (drop (length ?n - length t) ?n)"
  proof
    assume "\<exists>k\<le>length ?n. placed cs (take k ?n) \<and> seg t (drop k ?n)"
    then obtain k where "k \<le> length ?n" "placed cs (take k ?n)" "seg t (drop k ?n)" by blast
    moreover from this have "length t = length ?n - k" using seg_length [of t] by force
    moreover from this \<open>k \<le> length ?n\<close> have "length ?n - length t = k" "length t \<le> length ?n" by simp_all
    ultimately show "length t \<le> length ?n \<and> placed cs (take (length ?n - length t) ?n) \<and> seg t (drop (length ?n - length t) ?n)"
      by metis
  next
    assume "length t \<le> length ?n \<and> placed cs (take (length ?n - length t) ?n) \<and> seg t (drop (length ?n - length t) ?n)"
    then show "\<exists>k\<le>length ?n. placed cs (take k ?n) \<and> seg t (drop k ?n)"
      by (intro exI [of _ "length ?n - length t"]) simp
  qed
  finally have mid: "tglob (map cm_tok (chunks cs @ ''Z'') @ map cm_tok t) ?n \<longleftrightarrow>
      length t \<le> length ?n \<and> placed cs (take (length ?n - length t) ?n) \<and> seg t (drop (length ?n - length t) ?n)" .
  have "tglob (map cm_tok (h @ chunks cs @ CHR ''Z'' # t)) n \<longleftrightarrow>
      length h \<le> length n \<and> seg h (take (length h) n) \<and> tglob (map cm_tok (chunks cs @ ''Z'') @ map cm_tok t) ?n"
    using tglob_plain [OF assms(1), of "map cm_tok (chunks cs @ ''Z'') @ map cm_tok t" n] by simp
  then show ?thesis unfolding mid by auto
qed

lemma matchexec_tail:
  assumes "plain t" and "list_all chunk cs"
    and "length r = length (concat cs) + trash + length t" and "length t \<le> length name"
  shows "\<exists>x. (case try_tail junk (rev name) (rev t @ chunks cs) of ERet y \<Rightarrow> Some y | EFault \<Rightarrow> None
      | ENext _ b1 \<Rightarrow> chunk_loop r b1 trash) = Some x \<and>
    (x = 0 \<longleftrightarrow> seg t (drop (length name - length t) name) \<and> placed cs (take (length r - length t) r))"
proof -
  have "plain (rev t)" "length (rev t) \<le> length (rev name)" using assms by (simp_all add: plain_def)
  note tail = try_tail_plain [OF this, of junk "chunks cs"]
  have seg: "seg (rev t) (take (length (rev t)) (rev name)) \<longleftrightarrow> seg t (drop (length name - length t) name)"
    by (simp add: take_rev seg_rev)
  show ?thesis
  proof (cases cs)
    case Nil
    with tail seg show ?thesis by (auto simp: chunks_def try_tail_end)
  next
    case (Cons c cs2)
    then have ch: "chunks cs = CHR ''Z'' # c @ chunks cs2" by (simp add: chunks_def)
    have "\<exists>x. chunk_loop r (c @ chunks cs2) trash = Some x \<and> (x = 0 \<longleftrightarrow> placed (c # cs2) (take (length r - length t) r))"
      by (rule chunk_loop_placed) (use Cons assms in auto)
    then show ?thesis using tail seg ch Cons by (auto simp: try_tail_end)
  qed
qed

lemma matchexec_parts:
  assumes "plain h" and "plain t" and "list_all chunk cs"
  shows "\<exists>r. matchexec junk name (h @ CHR ''Z'' # rev t @ chunks cs) (length h + length (concat cs) + length t) = Some r \<and>
    (r = 0 \<longleftrightarrow> tglob (map cm_tok (h @ chunks cs @ CHR ''Z'' # t)) name)"
proof -
  let ?b = "rev t @ chunks cs" and ?min = "length h + length (concat cs) + length t"
  have plcs: "list_all plain cs" using assms(3) by (auto simp: chunk_def list_all_iff)
  note glob = tglob_parts [OF assms(1,2), of cs name]
  have short: "tglob (map cm_tok (h @ chunks cs @ CHR ''Z'' # t)) name \<Longrightarrow> ?min \<le> length name"
    using placed_length [OF plcs] unfolding glob by fastforce
  have head: "try_head name (h @ CHR ''Z'' # ?b) =
      (if length h \<le> length name \<and> seg h (take (length h) name)
       then (if drop (length h) name = [] then ERet (if ?b = [] then 0 else 1) else ENext (drop (length h) name) ?b)
       else ERet 1)"
    using try_head_plain [of "CHR ''Z'' # ?b" h name] assms(1) by (cases "drop (length h) name") auto
  show ?thesis
  proof (cases "length h \<le> length name \<and> seg h (take (length h) name)")
    case False
    then show ?thesis using head glob by (auto simp: matchexec_def)
  next
    case hd: True
    consider "drop (length h) name = []" | "drop (length h) name \<noteq> []" "length name < ?min"
      | "drop (length h) name \<noteq> []" "?min \<le> length name" by force
    then show ?thesis
    proof cases
      case 1
      show ?thesis
      proof (cases "?b = []")
        case True
        then have "t = []" "cs = []" by (simp_all add: chunks_def)
        with 1 hd head glob show ?thesis by (simp add: matchexec_def chunks_def)
      next
        case False
        then have "length h < ?min" using assms(3) by (cases cs) (auto simp: chunk_def chunks_def)
        with 1 hd have "length name < ?min" by simp
        with 1 hd head short False show ?thesis by (auto simp: matchexec_def simp del: append_is_Nil_conv)
      qed
    next
      case 2
      with hd head short show ?thesis by (auto simp: matchexec_def)
    next
      case 3
      have "matchexec junk name (h @ CHR ''Z'' # ?b) ?min =
          (case try_tail junk (rev name) ?b of ERet r \<Rightarrow> Some r | EFault \<Rightarrow> None
           | ENext _ b1 \<Rightarrow> chunk_loop (drop (length h) name) b1 (length name - ?min))"
        using 3 hd head by (simp add: matchexec_def)
      moreover have "tglob (map cm_tok (h @ chunks cs @ CHR ''Z'' # t)) name \<longleftrightarrow>
          seg t (drop (length name - length t) name) \<and>
          placed cs (take (length (drop (length h) name) - length t) (drop (length h) name))"
        using glob hd 3(2) by simp
      ultimately show ?thesis
        using matchexec_tail [OF assms(2,3), of "drop (length h) name" "length name - ?min" name junk] 3(2) by simp
    qed
  qed
qed

section \<open>Properties\<close>

text \<open>C19. A compiled mask decides the same question as the mask. For every mask and every name,
  \<^verbatim>\<open>matchexec\<close> on what \<^verbatim>\<open>matchcomp\<close> produced returns, without reading outside the strings but for
  the byte before the name, on whose value the result does not depend, and it returns zero
  exactly when the name matches the mask.\<close>

theorem matchexec_correct:
  assumes "matchcomp msk = (cm, minlen, charset)"
  shows "\<exists>r. matchexec junk name cm minlen = Some r \<and> (r = 0 \<longleftrightarrow> tglob (mask_toks msk) name)"
  using matchcomp_parts [OF assms]
proof (elim disjE exE conjE)
  fix h cs t assume "cm = h @ CHR ''Z'' # rev t @ chunks cs" "plain h" "plain t" "list_all chunk cs"
    "minlen = length h + length (concat cs) + length t"
    "\<forall>n. tglob (mask_toks msk) n = tglob (map cm_tok (h @ chunks cs @ CHR ''Z'' # t)) n"
  with matchexec_parts show ?thesis by metis
qed (simp add: matchexec_plain)

theorem matchexec_correct_witness:
  "\<exists>r. matchexec (CHR '' '') ''Services.Net'' (fst (matchcomp ''*.*net'')) (fst (snd (matchcomp ''*.*net''))) = Some r \<and>
     (r = 0 \<longleftrightarrow> tglob (mask_toks ''*.*net'') ''Services.Net'')"
  by (rule matchexec_correct [where charset = "snd (snd (matchcomp ''*.*net''))"]) simp


lemma decomp_plain:
  "plain p \<Longrightarrow> mask_toks (concat (map decomp_char p) @ m) = map cm_tok p @ mask_toks m"
proof (induction p)
  case (Cons x p)
  have "x \<noteq> CHR 0x5C"
  proof
    assume "x = CHR 0x5C"
    then have "ToLower (CHR 0x5C) = CHR 0x5C" using Cons.prems by auto
    then show False by (simp add: code_inject [symmetric] code_ToLower) (simp add: code_def)
  qed
  moreover have "x \<noteq> CHR ''Z''" using plain_noZ [OF Cons.prems] by auto
  ultimately show ?case using Cons
    by (auto simp: decomp_char_def cm_tok_def wild_tok_def)
qed simp

lemma decomp_body_plain: "plain p \<Longrightarrow> map decomp_body p = map decomp_char p"
  using plain_noZ by (fastforce simp: decomp_body_def)

lemma decomp_chunks:
  "list_all chunk (c # cs) \<Longrightarrow> mask_toks (concat (map decomp_body (c @ chunks cs)) @ m) =
     map cm_tok (c @ chunks cs) @ mask_toks m"
proof (induction cs arbitrary: c)
  case Nil
  then have "plain c" by (simp add: chunk_def)
  then show ?case by (simp add: decomp_plain decomp_body_plain chunks_def)
next
  case (Cons d cs)
  have "plain c" using Cons.prems by (simp add: chunk_def)
  then have "mask_toks (concat (map decomp_body c) @ CHR ''*'' # concat (map decomp_body (d @ chunks cs)) @ m) =
      map cm_tok c @ Star # mask_toks (concat (map decomp_body (d @ chunks cs)) @ m)"
    by (simp add: decomp_plain decomp_body_plain wild_tok_def)
  moreover have "decomp_body (CHR ''Z'') = ''*''" by (simp add: decomp_body_def)
  ultimately show ?case using Cons by (simp add: chunks_def)
qed

lemma takeWhile_noZ: "CHR ''Z'' \<notin> set p \<Longrightarrow>
    takeWhile (\<lambda>x. x \<noteq> CHR ''Z'') (p @ r) = p @ takeWhile (\<lambda>x. x \<noteq> CHR ''Z'') r \<and>
    dropWhile (\<lambda>x. x \<noteq> CHR ''Z'') (p @ r) = dropWhile (\<lambda>x. x \<noteq> CHR ''Z'') r"
  by (induction p) auto

lemma matchdecomp_plain: "plain cm \<Longrightarrow> mask_toks (matchdecomp cm) = map cm_tok cm"
proof -
  assume "plain cm"
  note tw = takeWhile_noZ [OF plain_noZ [OF this], of "[]"]
  show ?thesis
    using decomp_plain [OF \<open>plain cm\<close>, of "[]"] plain_noZ [OF \<open>plain cm\<close>]
    by (simp add: matchdecomp_def Let_def tw [simplified append_Nil2 takeWhile.simps dropWhile.simps])
qed

lemma matchdecomp_parts:
  assumes "plain h" "plain t" "list_all chunk cs"
  shows "mask_toks (matchdecomp (h @ CHR ''Z'' # rev t @ chunks cs)) = map cm_tok (h @ chunks cs @ CHR ''Z'' # t)"
proof -
  have pr: "plain (rev t)" using assms(2) by (simp add: plain_def)
  note tw = takeWhile_noZ [OF plain_noZ [OF assms(1)]] takeWhile_noZ [OF plain_noZ [OF pr]]
  show ?thesis
  proof (cases cs)
    case Nil
    then have "matchdecomp (h @ CHR ''Z'' # rev t @ chunks cs) =
        concat (map decomp_char h) @ CHR ''*'' # concat (map decomp_char t)"
      by (simp add: matchdecomp_def Let_def tw tw(2) [of "[]", simplified append_Nil2 takeWhile.simps dropWhile.simps] chunks_def)
    then show ?thesis
      using decomp_plain [OF assms(1)] decomp_plain [OF assms(2), of "[]"] Nil by (simp add: wild_tok_def chunks_def)
  next
    case (Cons c cs2)
    then have ch: "chunks cs = CHR ''Z'' # c @ chunks cs2" by (simp add: chunks_def)
    have "matchdecomp (h @ CHR ''Z'' # rev t @ chunks cs) =
        concat (map decomp_char h) @ CHR ''*'' # concat (map decomp_body (c @ chunks cs2)) @
          CHR ''*'' # concat (map decomp_char t)"
      by (simp add: matchdecomp_def Let_def tw ch)
    then show ?thesis
      using decomp_plain [OF assms(1)] decomp_plain [OF assms(2), of "[]"] decomp_chunks [of c cs2] assms(3) Cons ch
      by (simp add: wild_tok_def)
  qed
qed

text \<open>C34. Decompiling is inverse to compiling up to meaning: the text that \<^verbatim>\<open>matchdecomp\<close> prints for
  a compiled mask matches the same names as the mask that was compiled.\<close>

theorem matchdecomp_correct:
  assumes "matchcomp msk = (cm, minlen, charset)"
  shows "tglob (mask_toks (matchdecomp cm)) n = tglob (mask_toks msk) n"
  using matchcomp_parts [OF assms] matchdecomp_plain matchdecomp_parts by auto

theorem matchdecomp_correct_witness:
  "tglob (mask_toks (matchdecomp (fst (matchcomp ''Head*c?*tail'')))) ''headxctail'' = tglob (mask_toks ''Head*c?*tail'') ''headxctail''"
  by (rule matchdecomp_correct [where minlen = "fst (snd (matchcomp ''Head*c?*tail''))" and charset = "snd (snd (matchcomp ''Head*c?*tail''))"]) simp

end
