(* ===== verification/MMatch.thy ===== *)
theory MMatch
  imports Match
begin

text \<open>
  The test whether one mask makes another redundant (\<^verbatim>\<open>mmatch\<close> of \<^verbatim>\<open>ircd/match.c\<close>), used when
  bans are added and merged. The state is split as in the matcher: the part of the old mask
  between \<^verbatim>\<open>ma\<close> and \<^verbatim>\<open>m\<close> and the part from \<^verbatim>\<open>m\<close> on, and the same for the new mask with \<^verbatim>\<open>na\<close>
  and \<^verbatim>\<open>n\<close>. A read or a move outside a string is \<open>Fault\<close>.

  The theorem is soundness: for masks without backslashes a result of zero means that every
  name the new mask matches is matched by the old one. The converse does not hold and is not
  claimed by the code.
\<close>

section \<open>The loop\<close>

definition esc :: "string \<Rightarrow> bool" where
  "esc s \<longleftrightarrow> (case s of x # y # _ \<Rightarrow> x = CHR 0x5C \<and> (y = CHR ''*'' \<or> y = CHR ''?'') | _ \<Rightarrow> False)"

definition chr0 :: "string \<Rightarrow> char" where
  "chr0 s = (case s of [] \<Rightarrow> CHR 0x00 | c # _ \<Rightarrow> c)"

definition mm_retry :: "bool \<Rightarrow> string \<Rightarrow> string \<Rightarrow> string \<Rightarrow> string \<Rightarrow> mstep" where
  "mm_retry wild w m u n =
     (if \<not> wild then Ret 1
      else let na = (if esc (u @ n) then tl (u @ n) else u @ n)
           in if na = [] then Fault else Go wild [] (w @ m) [] (tl na))"

definition mm_compare :: "bool \<Rightarrow> string \<Rightarrow> string \<Rightarrow> string \<Rightarrow> string \<Rightarrow> mstep" where
  "mm_compare wild w m u n =
     (let mq = esc m; w1 = (if mq then w @ [hd m] else w); m1 = (if mq then tl m else m);
          nq = esc n; u1 = (if nq then u @ [hd n] else u); n1 = (if nq then tl n else n);
          x = chr0 m1; y = chr0 n1
      in if (x = CHR ''*'' \<and> \<not> mq) \<or> ((\<not> mq \<or> nq) \<and> ToLower x = ToLower y) \<or>
            (x = CHR ''?'' \<and> \<not> mq \<and> (y \<noteq> CHR ''*'' \<or> nq))
         then Go wild (w1 @ take 1 m1) (tl m1) (u1 @ take 1 n1) (tl n1)
         else mm_retry wild w m u n)"

text \<open>The old mask read backwards: question marks, then a star that is not the first character.\<close>

definition trailing_star :: "string \<Rightarrow> bool" where
  "trailing_star old =
     (case dropWhile (\<lambda>c. c = CHR ''?'') (rev old) of
        x # y # _ \<Rightarrow> x = CHR ''*'' \<and> y \<noteq> CHR 0x5C
      | _ \<Rightarrow> False)"

definition mm_step :: "string \<Rightarrow> bool \<Rightarrow> string \<Rightarrow> string \<Rightarrow> string \<Rightarrow> string \<Rightarrow> mstep" where
  "mm_step old wild0 w0 m0 u0 n =
     (let star = (chr0 m0 = CHR ''*'');
          m = dropWhile (\<lambda>c. c = CHR ''*'') m0;
          wild = (star \<or> wild0); w = (if star then [] else w0); u = (if star then [] else u0)
      in if m = []
         then if n = [] then Ret 0
              else if old = [] then Fault
              else if trailing_star old then Ret 0
              else (case mm_retry wild w m u n of
                      Go wild1 w1 m1 u1 n1 \<Rightarrow> mm_compare wild1 w1 m1 u1 n1
                    | r \<Rightarrow> r)
         else if n = [] then Ret (if dropWhile (\<lambda>c. c = CHR ''*'') m = [] then 0 else 1)
         else mm_compare wild w m u n)"

lemma mm_retry_smaller:
  assumes "mm_retry wild w m u n = Go wild' w' m' u' n'"
  shows "wild \<and> wild' \<and> length w' + length m' = length w + length m \<and>
    length u' + length n' < length u + length n"
proof -
  have "length (tl (u @ n)) \<le> length u + length n" by simp
  with assms show ?thesis
    by (auto simp: mm_retry_def Let_def length_greater_0_conv [symmetric] simp del: length_greater_0_conv
        split: if_splits)
qed

lemma mm_compare_cases:
  "mm_compare wild w m u n = mm_retry wild w m u n \<or>
   (\<exists>w1 m1 u1 n1. mm_compare wild w m u n = Go wild (w1 @ take 1 m1) (tl m1) (u1 @ take 1 n1) (tl n1) \<and>
      w1 @ m1 = w @ m \<and> u1 @ n1 = u @ n \<and> length m1 \<le> length m \<and> (m1 = [] \<longrightarrow> m = []))"
proof -
  let ?w1 = "if esc m then w @ [hd m] else w" and ?m1 = "if esc m then tl m else m"
  let ?u1 = "if esc n then u @ [hd n] else u" and ?n1 = "if esc n then tl n else n"
  have e: "esc s \<Longrightarrow> s \<noteq> [] \<and> tl s \<noteq> []" for s by (auto simp: esc_def split: list.splits)
  have "mm_compare wild w m u n = mm_retry wild w m u n \<or>
      mm_compare wild w m u n = Go wild (?w1 @ take 1 ?m1) (tl ?m1) (?u1 @ take 1 ?n1) (tl ?n1)"
    unfolding mm_compare_def Let_def by meson
  moreover have *: "?w1 @ ?m1 = w @ m" "?u1 @ ?n1 = u @ n" "length ?m1 \<le> length m" "?m1 = [] \<longrightarrow> m = []"
    using e [of m] e [of n] by auto
  ultimately show ?thesis
  proof (elim disjE)
    assume "mm_compare wild w m u n = Go wild (?w1 @ take 1 ?m1) (tl ?m1) (?u1 @ take 1 ?n1) (tl ?n1)"
    with * show ?thesis
      by (intro disjI2 exI [of _ ?w1] exI [of _ ?m1] exI [of _ ?u1] exI [of _ ?n1] conjI)
  qed (rule disjI1)
qed

lemma mm_compare_smaller:
  assumes "mm_compare wild w m u n = Go wild' w' m' u' n'"
  shows "wild' = wild \<and> length w' + length m' = length w + length m \<and>
    (length u' + length n' < length u + length n \<or>
     length u' + length n' = length u + length n \<and> (length m' < length m \<or> m = []))"
proof -
  have app: "length (xs @ take 1 ys) + length (tl ys) = length (xs @ ys)" for xs ys :: string
    by (cases ys) auto
  from mm_compare_cases [of wild w m u n] show ?thesis
  proof (elim disjE exE conjE)
    assume "mm_compare wild w m u n = mm_retry wild w m u n"
    with assms mm_retry_smaller [of wild w m u n] show ?thesis by simp
  next
    fix w1 m1 u1 n1 assume *: "mm_compare wild w m u n = Go wild (w1 @ take 1 m1) (tl m1) (u1 @ take 1 n1) (tl n1)"
      "w1 @ m1 = w @ m" "u1 @ n1 = u @ n" "length m1 \<le> length m" "m1 = [] \<longrightarrow> m = []"
    have "length w' + length m' = length w + length m" "length u' + length n' = length u + length n"
      using * assms app [of w1 m1] app [of u1 n1] by simp_all
    moreover have "length m' < length m \<or> m = []" using * assms by (cases m1) auto
    ultimately show ?thesis using * assms by simp
  qed
qed

lemma dropWhile_smaller: "chr0 m = x \<Longrightarrow> x \<noteq> CHR 0x00 \<Longrightarrow> length (dropWhile (\<lambda>c. c = x) m) < length m"
  by (cases m) (auto simp: chr0_def intro: le_imp_less_Suc length_dropWhile_le)

lemma mm_step_smaller:
  assumes "mm_step old wild w m u n = Go wild' w' m' u' n'"
  shows "(mm_measure (wild', w', m', u', n'), mm_measure (wild, w, m, u, n)) \<in>
    less_than <*lex*> less_than <*lex*> less_than <*lex*> less_than"
proof -
  let ?star = "chr0 m = CHR ''*''" and ?m = "dropWhile (\<lambda>c. c = CHR ''*'') m"
  let ?wild = "?star \<or> wild" and ?w = "if ?star then [] else w" and ?u = "if ?star then [] else u"
  have nostar: "\<not> ?star \<Longrightarrow> ?m = m" by (cases m) (auto simp: chr0_def)
  have star: "?star \<Longrightarrow> length ?m < length m" by (rule dropWhile_smaller) auto
  consider "mm_compare ?wild ?w ?m ?u n = Go wild' w' m' u' n'" "?m \<noteq> []"
    | wild1 w1 m1 u1 n1 where "mm_retry ?wild ?w ?m ?u n = Go wild1 w1 m1 u1 n1"
        "mm_compare wild1 w1 m1 u1 n1 = Go wild' w' m' u' n'"
    using assms by (auto simp: mm_step_def Let_def split: if_splits mstep.splits)
  then show ?thesis
  proof cases
    case 1
    from mm_compare_smaller [OF 1(1)] 1(2) nostar star show ?thesis
      by (cases ?star; cases wild) (auto simp: mm_measure_def)
  next
    case 2
    from mm_retry_smaller [OF 2(1)] mm_compare_smaller [OF 2(2)] nostar star show ?thesis
      by (cases ?star; cases wild) (auto simp: mm_measure_def)
  qed
qed

function mmatch_loop :: "string \<Rightarrow> bool \<Rightarrow> string \<Rightarrow> string \<Rightarrow> string \<Rightarrow> string \<Rightarrow> nat option" where
  "mmatch_loop old wild w m u n =
     (case mm_step old wild w m u n of
        Ret r \<Rightarrow> Some r
      | Fault \<Rightarrow> None
      | Go wild1 w1 m1 u1 n1 \<Rightarrow> mmatch_loop old wild1 w1 m1 u1 n1)"
  by pat_completeness auto
termination
  by (relation "inv_image (less_than <*lex*> less_than <*lex*> less_than <*lex*> less_than) (\<lambda>(old, s). mm_measure s)")
    (auto intro!: mm_step_smaller wf_lex_prod)

declare mmatch_loop.simps [simp del]

definition mmatch :: "string \<Rightarrow> string \<Rightarrow> nat option" where
  "mmatch old_mask new_mask = mmatch_loop old_mask False [] old_mask [] new_mask"

section \<open>Soundness on masks without backslashes\<close>

definition covers :: "string \<Rightarrow> string \<Rightarrow> bool" where
  "covers m n \<longleftrightarrow> (\<forall>x. glob n x \<longrightarrow> glob m x)"

lemma covers_star: "covers m n \<Longrightarrow> covers (CHR ''*'' # m) n"
  unfolding covers_def glob_star by (metis drop_0)

lemma covers_star_tl: "n \<noteq> [] \<Longrightarrow> covers (CHR ''*'' # m) (tl n) \<Longrightarrow> covers (CHR ''*'' # m) n"
proof (cases n)
  case (Cons y n1)
  assume c: "covers (CHR ''*'' # m) (tl n)"
  have "\<exists>k. glob n1 (drop k x)" if "glob n x" for x
  proof (cases "y = CHR ''*''")
    case True
    then show ?thesis using that Cons by (simp add: glob_star)
  next
    case False
    then show ?thesis using that Cons by (cases x) (auto intro: exI [of _ 1])
  qed
  then show ?thesis using c Cons glob_star_suffix unfolding covers_def by (metis list.sel(3))
qed simp

lemma ToLower_wild: "ToLower x = ToLower y \<Longrightarrow> y = CHR ''*'' \<or> y = CHR ''?'' \<Longrightarrow> x = y"
  by (auto simp: code_inject [symmetric] code_ToLower) (auto simp: code_def split: if_splits)

lemma covers_Cons:
  assumes "covers m n" and x: "x \<noteq> CHR ''*''" and "ToLower x = ToLower y \<or> x = CHR ''?'' \<and> y \<noteq> CHR ''*''"
  shows "covers (x # m) (y # n)"
  unfolding covers_def
proof (intro allI impI)
  fix z assume z: "glob (y # n) z"
  have y: "y \<noteq> CHR ''*''" using assms ToLower_wild [of x y] by auto
  with z obtain c z1 where z1: "z = c # z1" "y = CHR ''?'' \<or> ToLower y = ToLower c" "glob n z1" by (cases z) auto
  then have "x = CHR ''?'' \<or> ToLower x = ToLower c" using assms(3) ToLower_wild [of x y] by auto
  with z1 x assms(1) show "glob (x # m) z" by (auto simp: covers_def)
qed

definition text_ok :: "string \<Rightarrow> bool" where
  "text_ok s \<longleftrightarrow> CHR 0x5C \<notin> set s \<and> CHR 0x00 \<notin> set s"

lemma text_ok_append [simp]: "text_ok (s @ t) \<longleftrightarrow> text_ok s \<and> text_ok t"
  by (auto simp: text_ok_def)

lemma text_ok_esc: "text_ok s \<Longrightarrow> \<not> esc s"
  by (auto simp: text_ok_def esc_def split: list.splits)

text \<open>
  The invariant: behind the last star passed, as many characters of the new mask as of the
  old mask have been passed, and no star was among them.
\<close>

definition mmatch_inv :: "string \<Rightarrow> bool \<Rightarrow> string \<Rightarrow> string \<Rightarrow> string \<Rightarrow> string \<Rightarrow> bool" where
  "mmatch_inv old wild w m u n \<longleftrightarrow> text_ok (w @ m) \<and> text_ok (u @ n) \<and>
     length u = length w \<and> CHR ''*'' \<notin> set u \<and> CHR ''*'' \<notin> set w \<and>
     (\<exists>pre. old = pre @ w @ m \<and> (if wild then pre \<noteq> [] \<and> last pre = CHR ''*'' else pre = []))"

definition mmatch_sem :: "bool \<Rightarrow> string \<Rightarrow> string \<Rightarrow> string \<Rightarrow> string \<Rightarrow> bool" where
  "mmatch_sem wild w m u n \<longleftrightarrow> covers m n \<or> (wild \<and> covers (CHR ''*'' # w @ m) (u @ n))"

text \<open>What a step must satisfy, given the state it starts from.\<close>

fun mstep_ok :: "string \<Rightarrow> bool \<Rightarrow> mstep \<Rightarrow> bool" where
  "mstep_ok old b (Ret r) = (r = 0 \<longrightarrow> b)"
| "mstep_ok old b Fault = False"
| "mstep_ok old b (Go wild w m u n) = (mmatch_inv old wild w m u n \<and> (mmatch_sem wild w m u n \<longrightarrow> b))"

lemma mm_retry_ok:
  assumes "mmatch_inv old wild w m u n" and "u @ n \<noteq> []"
  shows "mstep_ok old (mmatch_sem wild w m u n) (mm_retry wild w m u n)"
proof -
  have "\<not> esc (u @ n)" using assms(1) by (intro text_ok_esc) (simp add: mmatch_inv_def)
  then have retry: "mm_retry wild w m u n = (if wild then Go True [] (w @ m) [] (tl (u @ n)) else Ret 1)"
    using assms(2) by (auto simp: mm_retry_def)
  have "text_ok (tl (u @ n))" using assms by (cases "u @ n") (auto simp: mmatch_inv_def text_ok_def simp flip: set_append)
  then have "wild \<Longrightarrow> mmatch_inv old True [] (w @ m) [] (tl (u @ n))"
    using assms(1) by (auto simp: mmatch_inv_def)
  moreover have "mmatch_sem True [] (w @ m) [] (tl (u @ n)) \<Longrightarrow> covers (CHR ''*'' # w @ m) (u @ n)"
    using covers_star covers_star_tl [OF assms(2)] by (auto simp: mmatch_sem_def)
  ultimately show ?thesis by (auto simp: retry mmatch_sem_def)
qed

lemma mm_compare_ok:
  assumes inv: "mmatch_inv old wild w m u n" and m: "m = [] \<or> hd m \<noteq> CHR ''*''" and n: "n = [] \<longrightarrow> m = []"
  shows "mstep_ok old (mmatch_sem wild w m u n) (mm_compare wild w m u n)"
proof -
  have "\<not> esc m" "\<not> esc n" using inv by (auto intro!: text_ok_esc simp: mmatch_inv_def)
  then have cmp: "mm_compare wild w m u n =
      (if chr0 m = CHR ''*'' \<or> ToLower (chr0 m) = ToLower (chr0 n) \<or> (chr0 m = CHR ''?'' \<and> chr0 n \<noteq> CHR ''*'')
       then Go wild (w @ take 1 m) (tl m) (u @ take 1 n) (tl n) else mm_retry wild w m u n)"
    by (simp add: mm_compare_def Let_def)
  show ?thesis
  proof (cases "n = []")
    case True
    then show ?thesis using n inv cmp by (auto simp: chr0_def mmatch_sem_def)
  next
    case False
    then obtain y n1 where n1: "n = y # n1" by (cases n) auto
    have y: "y \<noteq> CHR 0x00" using inv n1 by (auto simp: mmatch_inv_def text_ok_def)
    note retry = mm_retry_ok [OF inv]
    show ?thesis
    proof (cases m)
      case Nil
      have "ToLower (CHR 0x00) \<noteq> ToLower y" using y ToLower_NUL_iff by metis
      then have "mm_compare wild w m u n = mm_retry wild w m u n" using Nil n1 cmp by (simp add: chr0_def)
      then show ?thesis using retry n1 by simp
    next
      case (Cons x m1)
      have x: "x \<noteq> CHR ''*''" using m Cons by simp
      show ?thesis
      proof (cases "ToLower x = ToLower y \<or> x = CHR ''?'' \<and> y \<noteq> CHR ''*''")
        case True
        have "y \<noteq> CHR ''*''" using True x ToLower_wild [of x y] by auto
        then have "mmatch_inv old wild (w @ [x]) m1 (u @ [y]) n1"
          using inv Cons n1 x by (auto simp: mmatch_inv_def)
        moreover have "mmatch_sem wild (w @ [x]) m1 (u @ [y]) n1 \<Longrightarrow> mmatch_sem wild w m u n"
          using covers_Cons [OF _ x True] Cons n1 by (auto simp: mmatch_sem_def)
        moreover have "mm_compare wild w m u n = Go wild (w @ [x]) m1 (u @ [y]) n1"
          using True Cons n1 cmp by (auto simp: chr0_def)
        ultimately show ?thesis by simp
      next
        case False
        then have "mm_compare wild w m u n = mm_retry wild w m u n"
          using x Cons n1 cmp by (auto simp: chr0_def)
        then show ?thesis using retry n1 by simp
      qed
    qed
  qed
qed

lemma glob_replicate_question: "glob (replicate k (CHR ''?'')) x \<longleftrightarrow> length x = k"
proof (induction k arbitrary: x)
  case (Suc k)
  then show ?case by (cases x) auto
qed simp

lemma covers_questions:
  assumes "set w \<subseteq> {CHR ''?''}" and "length u = length w" and "CHR ''*'' \<notin> set u"
  shows "covers (CHR ''*'' # w) (u @ n)"
  unfolding covers_def
proof (intro allI impI)
  fix x assume "glob (u @ n) x"
  then have "length w \<le> length x" using glob_prefix [OF assms(3)] assms(2) by auto
  moreover have "w = replicate (length w) (CHR ''?'')" using assms(1) by (intro replicate_eqI) auto
  ultimately show "glob (CHR ''*'' # w) x"
    unfolding glob_star by (metis diff_diff_cancel glob_replicate_question length_drop)
qed

lemma trailing_star_questions:
  assumes "trailing_star (pre @ w)" and "CHR ''*'' \<notin> set w"
  shows "set w \<subseteq> {CHR ''?''} \<and> pre \<noteq> []"
proof -
  let ?Q = "\<lambda>c. c = CHR ''?''"
  obtain y z where d: "dropWhile ?Q (rev w @ rev pre) = CHR ''*'' # y # z"
    using assms(1) by (auto simp: trailing_star_def split: list.splits)
  have all: "?Q c" if "c \<in> set (rev w)" for c
  proof (rule ccontr)
    assume "\<not> ?Q c"
    with that have "dropWhile ?Q (rev w @ rev pre) = dropWhile ?Q (rev w) @ rev pre"
      and ne: "dropWhile ?Q (rev w) \<noteq> []"
      by (rule dropWhile_append1) (use that \<open>\<not> ?Q c\<close> in \<open>auto simp: dropWhile_eq_Nil_conv\<close>)
    with d have "CHR ''*'' \<in> set (dropWhile ?Q (rev w))" by (metis hd_append2 hd_in_set list.sel(1))
    with assms(2) show False by (metis set_dropWhileD set_rev)
  qed
  have "dropWhile ?Q (rev w @ rev pre) = dropWhile ?Q (rev pre)" by (rule dropWhile_append2) (rule all)
  with d all show ?thesis by auto
qed

lemma dropWhile_stars:
  "\<exists>k. m = replicate k (CHR ''*'') @ dropWhile (\<lambda>c. c = CHR ''*'') m \<and> (chr0 m = CHR ''*'' \<longrightarrow> k \<noteq> 0)"
proof (induction m)
  case (Cons c m)
  then obtain k where k: "m = replicate k (CHR ''*'') @ dropWhile (\<lambda>c. c = CHR ''*'') m" by blast
  then show ?case
    by (cases "c = CHR ''*''") (auto simp: chr0_def intro: exI [of _ 0] exI [of _ "Suc k"])
qed (simp add: chr0_def)

lemma covers_stars: "covers (CHR ''*'' # m) n \<Longrightarrow> k \<noteq> 0 \<Longrightarrow> covers (replicate k (CHR ''*'') @ m) n"
proof (induction k)
  case (Suc k)
  then show ?case by (cases "k = 0") (auto intro: covers_star)
qed simp

lemma mm_step_ok:
  assumes inv: "mmatch_inv old wild w m u n" and old: "old \<noteq> []"
  shows "mstep_ok old (mmatch_sem wild w m u n) (mm_step old wild w m u n)"
proof -
  define star where "star \<longleftrightarrow> chr0 m = CHR ''*''"
  define m1 where "m1 = dropWhile (\<lambda>c. c = CHR ''*'') m"
  define wild1 w1 u1 where "wild1 = (star \<or> wild)" and "w1 = (if star then [] else w)" and "u1 = (if star then [] else u)"
  obtain k where k: "m = replicate k (CHR ''*'') @ m1" "star \<longrightarrow> k \<noteq> 0"
    using dropWhile_stars [of m] by (auto simp: m1_def star_def)
  have m1: "m1 = [] \<or> hd m1 \<noteq> CHR ''*''" using hd_dropWhile [of "\<lambda>c. c = CHR ''*''" m] by (auto simp: m1_def)
  have nostar: "\<not> star \<Longrightarrow> m1 = m" by (cases m) (auto simp: star_def m1_def chr0_def)
  have inv1: "mmatch_inv old wild1 w1 m1 u1 n"
  proof (cases star)
    case True
    obtain pre where "old = pre @ w @ m" using inv by (auto simp: mmatch_inv_def)
    then have "old = (pre @ w @ replicate k (CHR ''*'')) @ [] @ m1" using k by simp
    moreover have "last (pre @ w @ replicate k (CHR ''*'')) = CHR ''*''" "pre @ w @ replicate k (CHR ''*'') \<noteq> []"
      using True k by simp_all
    ultimately have "\<exists>pre. old = pre @ [] @ m1 \<and> (if True then pre \<noteq> [] \<and> last pre = CHR ''*'' else pre = [])"
      by metis
    moreover have "text_ok m1" "text_ok n" using inv k(1) by (simp_all add: mmatch_inv_def)
    ultimately show ?thesis using True unfolding mmatch_inv_def wild1_def w1_def u1_def by simp
  next
    case False
    with inv nostar show ?thesis by (simp add: wild1_def w1_def u1_def)
  qed
  have sem: "mmatch_sem wild1 w1 m1 u1 n \<Longrightarrow> mmatch_sem wild w m u n"
  proof (cases star)
    case True
    assume "mmatch_sem wild1 w1 m1 u1 n"
    then have "covers (CHR ''*'' # m1) n"
      using True covers_star by (auto simp: mmatch_sem_def wild1_def w1_def u1_def)
    then have "covers m n" using covers_stars True k by simp
    then show ?thesis by (simp add: mmatch_sem_def)
  next
    case False
    assume "mmatch_sem wild1 w1 m1 u1 n"
    then show ?thesis using nostar [OF False] False by (simp add: wild1_def w1_def u1_def)
  qed
  have "mstep_ok old (mmatch_sem wild1 w1 m1 u1 n) (mm_step old wild w m u n)"
  proof (cases "m1 = [] \<and> n \<noteq> [] \<and> \<not> trailing_star old")
    case True
    then have step: "mm_step old wild w m u n = (case mm_retry wild1 w1 m1 u1 n of
        Go wild2 w2 m2 u2 n2 \<Rightarrow> mm_compare wild2 w2 m2 u2 n2 | r \<Rightarrow> r)"
      using old by (simp add: mm_step_def Let_def star_def m1_def wild1_def w1_def u1_def)
    have retry: "mstep_ok old (mmatch_sem wild1 w1 m1 u1 n) (mm_retry wild1 w1 m1 u1 n)"
      using mm_retry_ok [OF inv1] True by simp
    show ?thesis
    proof (cases "mm_retry wild1 w1 m1 u1 n")
      case (Go wild2 w2 m2 u2 n2)
      have "\<not> esc (u1 @ n)" using inv1 by (intro text_ok_esc) (simp add: mmatch_inv_def)
      then have eqs: "m2 = w1" "n2 = tl (u1 @ n)" "w2 = []"
        using Go True by (auto simp: mm_retry_def Let_def split: if_splits)
      have "hd m2 \<noteq> CHR ''*'' \<or> m2 = []" using eqs inv1 by (cases w1) (auto simp: mmatch_inv_def)
      moreover have "n2 = [] \<longrightarrow> m2 = []" using eqs inv1 True by (cases u1) (auto simp: mmatch_inv_def)
      ultimately have "mstep_ok old (mmatch_sem wild2 w2 m2 u2 n2) (mm_compare wild2 w2 m2 u2 n2)"
        using retry Go by (intro mm_compare_ok) auto
      with retry Go step show ?thesis by (cases "mm_compare wild2 w2 m2 u2 n2") auto
    qed (use retry step in auto)
  next
    case False
    have trail: "mmatch_sem wild1 w1 m1 u1 n" if e: "m1 = []" and t: "trailing_star old"
    proof -
      obtain pre where pre: "old = pre @ w1" "wild1 = (pre \<noteq> [])" "CHR ''*'' \<notin> set w1" "length u1 = length w1" "CHR ''*'' \<notin> set u1"
        using inv1 e by (auto simp: mmatch_inv_def split: if_splits)
      with trailing_star_questions [of pre w1] e t covers_questions [of w1 u1 n] show ?thesis
        by (simp add: mmatch_sem_def)
    qed
    have "m1 \<noteq> [] \<Longrightarrow> n = [] \<Longrightarrow> dropWhile (\<lambda>c. c = CHR ''*'') m1 \<noteq> []"
      using m1 by (cases m1) auto
    then show ?thesis
      using False old trail mm_compare_ok [OF inv1 m1]
      by (auto simp: mm_step_def Let_def mmatch_sem_def covers_def simp flip: star_def m1_def wild1_def w1_def u1_def)
  qed
  with sem show ?thesis by (cases "mm_step old wild w m u n") auto
qed

lemma mmatch_loop_ok:
  "mmatch_inv old wild w m u n \<Longrightarrow> old \<noteq> [] \<Longrightarrow>
     \<exists>r. mmatch_loop old wild w m u n = Some r \<and> (r = 0 \<longrightarrow> mmatch_sem wild w m u n)"
proof (induction old wild w m u n rule: mmatch_loop.induct)
  case (1 old wild w m u n)
  show ?case
  proof (cases "mm_step old wild w m u n")
    case (Go wild1 w1 m1 u1 n1)
    with mm_step_ok [OF "1.prems"] "1.IH" [OF Go] "1.prems"(2) show ?thesis
      by (auto simp: mmatch_loop.simps [of old wild w m u n])
  qed (use mm_step_ok [OF "1.prems"] in \<open>auto simp: mmatch_loop.simps [of old wild w m u n]\<close>)
qed

section \<open>Properties\<close>

text \<open>C22. Ban overlap is decided soundly: for masks without backslashes, the old one not empty,
  \<^verbatim>\<open>mmatch\<close> terminates without reading outside the masks, and when it returns zero every name that
  the new mask matches is matched by the old mask, so the new ban is redundant. The conditions are needed for the
  second part of it: for an empty old mask the code moves before the start of the mask and reads the byte there, and
  masks with escapes are outside the meaning \<^term>\<open>glob\<close>.\<close>

theorem mmatch_sound:
  assumes "text_ok old_mask" and "text_ok new_mask" and "old_mask \<noteq> []"
  shows "\<exists>r. mmatch old_mask new_mask = Some r \<and>
    (r = 0 \<longrightarrow> (\<forall>name. glob new_mask name \<longrightarrow> glob old_mask name))"
  using mmatch_loop_ok [of old_mask False "[]" old_mask "[]" new_mask] assms
  by (simp add: mmatch_def mmatch_inv_def mmatch_sem_def covers_def)

theorem mmatch_sound_witness:
  "mmatch ''*!*@*.com'' ''?ob!*@a.*.com'' = Some 0 \<and>
    glob ''?ob!*@a.*.com'' ''bob!u@a.b.com'' \<and> glob ''*!*@*.com'' ''bob!u@a.b.com''"
proof -
  have "mmatch ''*!*@*.com'' ''?ob!*@a.*.com'' = Some 0" by code_simp
  moreover have "glob ''?ob!*@a.*.com'' ''bob!u@a.b.com''" by code_simp
  ultimately show ?thesis
    using mmatch_sound [of "''*!*@*.com''" "''?ob!*@a.*.com''"] by (auto simp: text_ok_def)
qed

end
