(* ===== verification/IPMask.thy ===== *)
theory IPMask
  imports Numnick_IP
begin

text \<open>
  CIDR masks (\<^verbatim>\<open>ipmask_check\<close> and \<^verbatim>\<open>ipmask_clean\<close> of \<^verbatim>\<open>ircd/match.c\<close>), used for bans, G-lines and
  connection limits. Addresses are lists of eight segments in host byte order. The loops are
  shown to compare, and to keep, exactly the leading bits of the address.
\<close>

section \<open>Operations\<close>

fun ipmask_check_loop :: "irc_in_addr \<Rightarrow> irc_in_addr \<Rightarrow> nat \<Rightarrow> int" where
  "ipmask_check_loop (a # addr) (m # msk) bits =
     (if bits < 16 then (if drop_bit (16 - bits) (a XOR m) = 0 then 1 else 0)
      else if a \<noteq> m then 0
      else if bits - 16 = 0 then 1
      else ipmask_check_loop addr msk (bits - 16))"
| "ipmask_check_loop _ _ bits = - 1"

definition ipmask_check :: "irc_in_addr \<Rightarrow> irc_in_addr \<Rightarrow> nat \<Rightarrow> int" where
  "ipmask_check addr msk bits = ipmask_check_loop (take 8 addr) (take 8 msk) bits"

fun ipmask_clean_loop :: "irc_in_addr \<Rightarrow> nat \<Rightarrow> irc_in_addr" where
  "ipmask_clean_loop [] bits = []"
| "ipmask_clean_loop (m # msk) bits =
     (let res = (if bits = 0 then 0 else m);
          res1 = (if bits < 16 then push_bit (16 - bits) (drop_bit (16 - bits) m) else res);
          bits1 = (if bits < 16 then 0 else bits);
          bits2 = (if bits1 \<ge> 16 then bits1 - 16 else bits1)
      in res1 # ipmask_clean_loop msk bits2)"

definition ipmask_clean :: "irc_in_addr \<Rightarrow> nat \<Rightarrow> irc_in_addr" where
  "ipmask_clean msk bits = ipmask_clean_loop (take 8 msk) bits"

section \<open>Bits of an address\<close>

text \<open>Bit \<open>i\<close> of an address, counted from the most significant one.\<close>

definition abit :: "irc_in_addr \<Rightarrow> nat \<Rightarrow> bool" where
  "abit a i \<longleftrightarrow> bit (a ! (i div 16)) (15 - i mod 16)"

lemma abit_Cons_low: "i < 16 \<Longrightarrow> abit (x # a) i = bit x (15 - i)"
  by (simp add: abit_def)

lemma abit_Cons_high: "16 \<le> i \<Longrightarrow> abit (x # a) i = abit a (i - 16)"
proof -
  assume "16 \<le> i"
  then obtain j where "i = j + 16" by (metis le_add_diff_inverse2)
  then show ?thesis by (simp add: abit_def div_add_self2)
qed

lemma all_bits_split:
  assumes "16 \<le> (b :: nat)"
  shows "(\<forall>i<b. P i) \<longleftrightarrow> (\<forall>i<16. P i) \<and> (\<forall>i. 16 \<le> i \<and> i < b \<longrightarrow> P i)"
  using assms by (metis le_trans less_le_trans not_less)

lemma shift_bits: "(\<forall>i. 16 \<le> i \<and> i < b \<longrightarrow> P (i - 16)) \<longleftrightarrow> (\<forall>i<b - 16. P i)" for b :: nat
proof
  assume *: "\<forall>i. 16 \<le> i \<and> i < b \<longrightarrow> P (i - 16)"
  show "\<forall>i<b - 16. P i"
  proof (intro allI impI)
    fix i assume "i < b - 16"
    with * [THEN spec, of "i + 16"] show "P i" by simp
  qed
qed auto

lemma top_bits:
  fixes a m :: u16
  shows "drop_bit k (a XOR m) = 0 \<longleftrightarrow> (\<forall>j<16. k \<le> j \<longrightarrow> bit a j = bit m j)"
proof
  assume z: "drop_bit k (a XOR m) = 0"
  show "\<forall>j<16. k \<le> j \<longrightarrow> bit a j = bit m j"
  proof (intro allI impI)
    fix j :: nat assume "j < 16" "k \<le> j"
    then have "bit (drop_bit k (a XOR m)) (j - k) = (bit a j \<noteq> bit m j)"
      unfolding bit_drop_bit_eq by (simp add: bit_xor_iff)
    with z show "bit a j = bit m j" by simp
  qed
next
  assume eq: "\<forall>j<16. k \<le> j \<longrightarrow> bit a j = bit m j"
  show "drop_bit k (a XOR m) = 0"
  proof (rule bit_eqI)
    fix n
    have "bit a (k + n) = bit m (k + n)"
    proof (cases "k + n < 16")
      case False
      then have "\<not> bit w (k + n)" for w :: u16 using bit_imp_le_length [of w] by auto
      then show ?thesis by simp
    qed (use eq in simp)
    then show "bit (drop_bit k (a XOR m)) n = bit (0 :: u16) n"
      unfolding bit_drop_bit_eq by (simp add: bit_xor_iff)
  qed
qed

lemma reverse_bits: "b \<le> 16 \<Longrightarrow> (\<forall>i<b. P (15 - i)) \<longleftrightarrow> (\<forall>j<16. 16 - b \<le> j \<longrightarrow> P j)" for b :: nat
proof
  assume *: "\<forall>i<b. P (15 - i)" and "b \<le> 16"
  show "\<forall>j<16. 16 - b \<le> j \<longrightarrow> P j"
  proof (intro allI impI)
    fix j :: nat assume "j < 16" "16 - b \<le> j"
    with * [THEN spec, of "15 - j"] \<open>b \<le> 16\<close> show "P j" by simp
  qed
qed auto

lemma top_bits_equal:
  "b \<le> 16 \<Longrightarrow> drop_bit (16 - b) (a XOR m) = 0 \<longleftrightarrow> (\<forall>i<b. bit (a :: u16) (15 - i) = bit m (15 - i))"
  using reverse_bits [of b "\<lambda>j. bit a j = bit m j"] top_bits by blast

lemma word16_equal: "(a :: u16) = m \<longleftrightarrow> (\<forall>i<16. bit a (15 - i) = bit m (15 - i))"
proof -
  have "a = m \<longleftrightarrow> (\<forall>j<16. 0 \<le> j \<longrightarrow> bit a j = bit m j)"
    by (auto intro: bit_word_eqI)
  then show ?thesis using reverse_bits [of 16 "\<lambda>j. bit a j = bit m j"] by simp
qed

section \<open>The loops look at the leading bits\<close>

lemma abit_equal_Cons:
  "16 \<le> b \<Longrightarrow> (\<forall>i<b. abit (x # a) i = abit (y # m) i) \<longleftrightarrow> x = y \<and> (\<forall>i<b - 16. abit a i = abit m i)"
  unfolding all_bits_split [of b] word16_equal shift_bits [of b "\<lambda>i. abit a i = abit m i", symmetric]
  by (auto simp: abit_Cons_low abit_Cons_high)

lemma ipmask_check_loop_bits:
  "length addr = length msk \<Longrightarrow> b \<le> 16 * length addr \<Longrightarrow> addr \<noteq> [] \<Longrightarrow>
     ipmask_check_loop addr msk b = (if \<forall>i<b. abit addr i = abit msk i then 1 else 0)"
proof (induction addr msk b rule: ipmask_check_loop.induct)
  case (1 a addr m msk bits)
  show ?case
  proof (cases "bits < 16")
    case True
    then have "(\<forall>i<bits. abit (a # addr) i = abit (m # msk) i) \<longleftrightarrow> drop_bit (16 - bits) (a XOR m) = 0"
      unfolding top_bits_equal [of bits a m, OF less_imp_le, OF True] by (auto simp: abit_Cons_low)
    with True show ?thesis by simp
  next
    case False
    then show ?thesis using 1 abit_equal_Cons [of bits a addr m msk]
      by (cases "addr = []") auto
  qed
qed auto

lemma clean_low_bits:
  fixes m :: u16
  assumes "i < 16" and "b \<le> 16"
  shows "bit (push_bit (16 - b) (drop_bit (16 - b) m)) (15 - i) \<longleftrightarrow> i < b \<and> bit m (15 - i)"
proof -
  have "bit (push_bit (16 - b) (drop_bit (16 - b) m)) (15 - i) \<longleftrightarrow> 16 - b \<le> 15 - i \<and> bit m (15 - i)"
    using assms by (auto simp: bit_push_bit_iff bit_drop_bit_eq)
  also have "\<dots> \<longleftrightarrow> i < b \<and> bit m (15 - i)" using assms by auto
  finally show ?thesis .
qed

lemma ipmask_clean_loop_length: "length (ipmask_clean_loop m b) = length m"
  by (induction m b rule: ipmask_clean_loop.induct) (auto simp: Let_def)

lemma ipmask_clean_loop_bits:
  "i < 16 * length msk \<Longrightarrow> abit (ipmask_clean_loop msk b) i \<longleftrightarrow> i < b \<and> abit msk i"
proof (induction msk b arbitrary: i rule: ipmask_clean_loop.induct)
  case (2 m msk bits)
  let ?b2 = "if bits < 16 then 0 else bits - 16"
  have step: "ipmask_clean_loop (m # msk) bits =
      (if bits < 16 then push_bit (16 - bits) (drop_bit (16 - bits) m) else m) # ipmask_clean_loop msk ?b2"
    by (auto simp: Let_def)
  have IH: "j < 16 * length msk \<Longrightarrow> abit (ipmask_clean_loop msk ?b2) j \<longleftrightarrow> j < ?b2 \<and> abit msk j" for j
    using "2.IH" [OF refl refl refl refl, of j] by (auto simp: Let_def split: if_splits)
  show ?case
  proof (cases "i < 16")
    case True
    then show ?thesis unfolding step using clean_low_bits [OF True, of bits m] by (auto simp: abit_Cons_low)
  next
    case False
    then show ?thesis unfolding step using IH [of "i - 16"] "2.prems" by (auto simp: abit_Cons_high)
  qed
qed simp

section \<open>Properties\<close>

text \<open>C35. CIDR matching: for addresses of eight segments and at most 128 bits, \<^verbatim>\<open>ipmask_check\<close> is 1
  exactly when the addresses agree in that many leading bits and 0 otherwise; \<^verbatim>\<open>ipmask_clean\<close> keeps
  exactly these bits of the mask and clears the others, so that cleaning a mask does not change
  what it matches.\<close>

theorem ipmask_leading_bits:
  assumes "length addr = 8" and "length msk = 8" and "b \<le> 128"
  shows "ipmask_check addr msk b = (if \<forall>i<b. abit addr i = abit msk i then 1 else 0) \<and>
    (\<forall>i<128. abit (ipmask_clean msk b) i \<longleftrightarrow> i < b \<and> abit msk i) \<and>
    ipmask_check addr (ipmask_clean msk b) b = ipmask_check addr msk b"
proof -
  have check: "ipmask_check addr x b = (if \<forall>i<b. abit addr i = abit x i then 1 else 0)" if "length x = 8" for x
  proof -
    have "addr \<noteq> []" using assms(1) by auto
    with ipmask_check_loop_bits [of addr x b] assms that show ?thesis by (simp add: ipmask_check_def)
  qed
  have clean: "\<forall>i<128. abit (ipmask_clean msk b) i \<longleftrightarrow> i < b \<and> abit msk i"
    using ipmask_clean_loop_bits [of _ msk b] assms by (simp add: ipmask_clean_def)
  have "length (ipmask_clean msk b) = 8" using assms by (simp add: ipmask_clean_def ipmask_clean_loop_length)
  then show ?thesis using check [OF assms(2)] check clean assms(3) by auto
qed

theorem ipmask_leading_bits_witness:
  "ipmask_check [0, 0, 0, 0, 0, 65535, 0xC0A8, 0x0101] (ipmask_clean [0, 0, 0, 0, 0, 65535, 0xC0A8, 0x01FF] 120) 120 =
   ipmask_check [0, 0, 0, 0, 0, 65535, 0xC0A8, 0x0101] [0, 0, 0, 0, 0, 65535, 0xC0A8, 0x01FF] 120"
  using ipmask_leading_bits [of "[0, 0, 0, 0, 0, 65535, 0xC0A8, 0x0101]" "[0, 0, 0, 0, 0, 65535, 0xC0A8, 0x01FF]" 120]
  by simp

end
