(* ===== verification/Packet.thy ===== *)
theory Packet
  imports DBuf
begin

text \<open>
  From bytes to messages: the packet handlers of \<^verbatim>\<open>ircd/packet.c\<close> and the reader
  \<^verbatim>\<open>read_packet\<close> of \<^verbatim>\<open>ircd/s_bsd.c\<close>, which cut the input of a connection into lines and give
  each line to the parser.

  The type variable \<open>'w\<close> is the rest of the server state. What the handlers do with it, the
  parser first of all, comes in through the record \<open>cli_env\<close>: \<open>parse_client\<close> and \<open>parse_server\<close>
  return the new state and whether the client was killed, the predicates read the state of the
  connection. The contents of the array \<^verbatim>\<open>con_buffer\<close> before \<^verbatim>\<open>endp\<close> are a list, whose length is
  \<^verbatim>\<open>cli_count\<close>; a write outside the array is \<open>None\<close>.
\<close>

section \<open>Handlers\<close>

record 'w cli_env =
  parse_client :: "'w \<Rightarrow> string \<Rightarrow> 'w \<times> bool"
  parse_server :: "'w \<Rightarrow> string \<Rightarrow> 'w \<times> bool"
  exit_client :: "'w \<Rightarrow> string \<Rightarrow> 'w"
  cli_info :: "'w \<Rightarrow> string"
  IsDead :: "'w \<Rightarrow> bool"
  IsServer :: "'w \<Rightarrow> bool"
  IsHandshake :: "'w \<Rightarrow> bool"
  IsConnecting :: "'w \<Rightarrow> bool"
  IsUser :: "'w \<Rightarrow> bool"
  lag_ok :: "'w \<Rightarrow> bool"
  get_recvq :: "'w \<Rightarrow> nat"
  too_long :: "'w \<Rightarrow> 'w"
  got_data :: "'w \<Rightarrow> 'w"

record 'w conn =
  con_buffer :: string
  con_receiveB :: nat
  con_receiveM :: nat
  me_receiveB :: nat
  me_receiveM :: nat
  con_world :: 'w

datatype outcome = Done | Killed | Exited

definition update_bytes_received :: "nat \<Rightarrow> 'w conn \<Rightarrow> 'w conn" where
  "update_bytes_received n c = c\<lparr>me_receiveB := me_receiveB c + n, con_receiveB := con_receiveB c + n\<rparr>"

definition update_messages_received :: "'w conn \<Rightarrow> 'w conn" where
  "update_messages_received c = c\<lparr>me_receiveM := Suc (me_receiveM c), con_receiveM := Suc (con_receiveM c)\<rparr>"

text \<open>One complete line: parse it, then notice a kill or a dead socket.\<close>

definition handle_line :: "('w \<Rightarrow> string \<Rightarrow> 'w \<times> bool) \<Rightarrow> 'w cli_env \<Rightarrow> 'w conn \<Rightarrow> outcome \<times> 'w conn" where
  "handle_line parse env c =
     (let c1 = update_messages_received c; (w, killed) = parse (con_world c1) (con_buffer c1);
          c2 = c1\<lparr>con_world := w\<rparr>
      in if killed then (Killed, c2)
         else if IsDead env w then (Exited, c2\<lparr>con_world := exit_client env w (cli_info env w)\<rparr>)
         else (Done, c2))"

fun server_loop :: "'w cli_env \<Rightarrow> 'w conn \<Rightarrow> string \<Rightarrow> (outcome \<times> 'w conn) option" where
  "server_loop env c [] = Some (Done, c)"
| "server_loop env c (x # src) =
     (if \<not> length (con_buffer c) < BUFSIZE then None
      else if IsEol x
      then if con_buffer c = [] then server_loop env c src
           else (case handle_line (parse_server env) env c of
                   (Done, c1) \<Rightarrow> server_loop env (c1\<lparr>con_buffer := []\<rparr>) src
                 | (r, c1) \<Rightarrow> Some (r, c1))
      else server_loop env (if length (con_buffer c) < BUFSIZE then c\<lparr>con_buffer := con_buffer c @ [x]\<rparr> else c) src)"

definition server_dopacket :: "'w cli_env \<Rightarrow> 'w conn \<Rightarrow> string \<Rightarrow> (outcome \<times> 'w conn) option" where
  "server_dopacket env c buf = server_loop env (update_bytes_received (length buf) c) buf"

fun connect_loop :: "'w cli_env \<Rightarrow> 'w conn \<Rightarrow> string \<Rightarrow> (outcome \<times> 'w conn) option" where
  "connect_loop env c [] = Some (Done, c)"
| "connect_loop env c (x # src) =
     (if \<not> length (con_buffer c) < BUFSIZE then None
      else if IsEol x
      then if con_buffer c = [] then connect_loop env c src
           else (case handle_line (parse_client env) env c of
                   (Done, c1) \<Rightarrow>
                     if IsServer env (con_world c1)
                     then server_dopacket env (c1\<lparr>con_buffer := []\<rparr>) src
                     else connect_loop env (c1\<lparr>con_buffer := []\<rparr>) src
                 | (r, c1) \<Rightarrow> Some (r, c1))
      else connect_loop env (if length (con_buffer c) < BUFSIZE then c\<lparr>con_buffer := con_buffer c @ [x]\<rparr> else c) src)"

definition connect_dopacket :: "'w cli_env \<Rightarrow> 'w conn \<Rightarrow> string \<Rightarrow> (outcome \<times> 'w conn) option" where
  "connect_dopacket env c buf = connect_loop env (update_bytes_received (length buf) c) buf"

text \<open>The line of a local client was copied to its buffer by \<^verbatim>\<open>dbuf_getmsg\<close>.\<close>

definition client_dopacket :: "'w cli_env \<Rightarrow> 'w conn \<Rightarrow> outcome \<times> 'w conn" where
  "client_dopacket env c = handle_line (parse_client env) env (update_bytes_received (length (con_buffer c)) c)"


section \<open>Reading from a connection\<close>

datatype recv = IO_SUCCESS string | IO_BLOCKED | IO_FAILURE

datatype read_result = RDone bool | RKilled | RFailed

record 'w reader =
  rd_pool :: dbuf_pool
  rd_recvQ :: dbuf
  rd_nonl :: bool
  rd_conn :: "'w conn"

definition SERVER_TCP_WINDOW :: nat where "SERVER_TCP_WINDOW = 61440"

text \<open>A connection that registered as a server: the rest of its queue goes to the packet handlers.\<close>

partial_function (option) drain_loop :: "'w cli_env \<Rightarrow> 'w reader \<Rightarrow> (read_result \<times> 'w reader) option" where
  "drain_loop env s =
     dbuf_get (rd_pool s) (rd_recvQ s) SERVER_TCP_WINDOW \<bind> (\<lambda>(p, q, buf).
       let s1 = s\<lparr>rd_pool := p, rd_recvQ := q\<rparr> in
       if buf = [] then Some (RDone False, s1)
       else (if IsServer env (con_world (rd_conn s1)) then server_dopacket env (rd_conn s1) buf
             else connect_dopacket env (rd_conn s1) buf) \<bind> (\<lambda>(r, c).
               if r = Done then drain_loop env (s1\<lparr>rd_conn := c\<rparr>) else Some (RKilled, s1\<lparr>rd_conn := c\<rparr>)))"

text \<open>What an iteration of the loop does with the line it took: no line, or a line to parse.\<close>

definition client_line :: "'w cli_env \<Rightarrow> 'w reader \<Rightarrow> string \<Rightarrow> bool \<times> 'w reader" where
  "client_line env s line =
     (if line = []
      then if unat (dyn_length (rd_recvQ s)) < 510 then (False, s\<lparr>rd_nonl := True\<rparr>)
           else (case DBufClear (rd_pool s) (rd_recvQ s) of (p, q) \<Rightarrow>
                   (False, s\<lparr>rd_pool := p, rd_recvQ := q,
                      rd_conn := (rd_conn s)\<lparr>con_world := too_long env (con_world (rd_conn s))\<rparr>\<rparr>))
      else (case client_dopacket env ((rd_conn s)\<lparr>con_buffer := line\<rparr>) of
              (r, c) \<Rightarrow> (r \<noteq> Done, s\<lparr>rd_conn := c\<rparr>)))"

text \<open>The flag of \<open>RDone\<close> says whether the process timer is to be started.\<close>

partial_function (option) client_loop :: "'w cli_env \<Rightarrow> 'w reader \<Rightarrow> (read_result \<times> 'w reader) option" where
  "client_loop env s =
     (if dyn_length (rd_recvQ s) \<noteq> 0 \<and> \<not> rd_nonl s \<and> lag_ok env (con_world (rd_conn s))
      then dbuf_getmsg (rd_pool s) (rd_recvQ s) BUFSIZE \<bind> (\<lambda>(p, q, line).
        case client_line env (s\<lparr>rd_pool := p, rd_recvQ := q\<rparr>) line of (killed, s1) \<Rightarrow>
          if killed then Some (RKilled, s1)
          else if IsHandshake env (con_world (rd_conn s1)) \<or> IsServer env (con_world (rd_conn s1))
          then drain_loop env s1
          else client_loop env s1)
      else Some (RDone (dyn_length (rd_recvQ s) \<noteq> 0 \<and> \<not> rd_nonl s), s))"

definition exit_reader :: "'w cli_env \<Rightarrow> 'w reader \<Rightarrow> string \<Rightarrow> read_result \<times> 'w reader" where
  "exit_reader env s why =
     (RKilled, s\<lparr>rd_conn := (rd_conn s)\<lparr>con_world := exit_client env (con_world (rd_conn s)) why\<rparr>\<rparr>)"

definition packet_result :: "'w reader \<Rightarrow> (outcome \<times> 'w conn) option \<Rightarrow> (read_result \<times> 'w reader) option" where
  "packet_result s x =
     map_option (\<lambda>(r, c). (if r = Done then RDone False else RKilled, s\<lparr>rd_conn := c\<rparr>)) x"

definition read_packet ::
  "dbuf_env \<Rightarrow> 'w cli_env \<Rightarrow> 'w reader \<Rightarrow> bool \<Rightarrow> recv \<Rightarrow> (read_result \<times> 'w reader) option" where
  "read_packet denv env s socket_ready io =
     (let w = con_world (rd_conn s);
          reads = (socket_ready \<and> \<not> (IsUser env w \<and> unat (dyn_length (rd_recvQ s)) > get_recvq env w))
      in if reads \<and> io = IO_FAILURE then Some (RFailed, s)
         else let buf = (if reads then (case io of IO_SUCCESS x \<Rightarrow> x | _ \<Rightarrow> []) else []);
                  s1 = (if buf = [] then s
                        else s\<lparr>rd_nonl := False, rd_conn := (rd_conn s)\<lparr>con_world := got_data env w\<rparr>\<rparr>);
                  w1 = con_world (rd_conn s1)
              in if buf \<noteq> [] \<and> IsServer env w1 then packet_result s1 (server_dopacket env (rd_conn s1) buf)
                 else if buf \<noteq> [] \<and> (IsHandshake env w1 \<or> IsConnecting env w1)
                 then packet_result s1 (connect_dopacket env (rd_conn s1) buf)
                 else (case (if buf = [] then (rd_pool s1, rd_recvQ s1, True)
                             else dbuf_put denv (rd_pool s1) (rd_recvQ s1) buf) of
                         (p, q, ok) \<Rightarrow>
                           let s2 = s1\<lparr>rd_pool := p, rd_recvQ := q\<rparr> in
                           if \<not> ok then Some (exit_reader env s2 ''dbuf_put fail'')
                           else if unat (dyn_length q) > get_recvq env w1
                           then Some (exit_reader env s2 ''Excess Flood'')
                           else client_loop env s2))"

section \<open>Lines from a server\<close>

lemma server_loop_append:
  "server_loop env c (s1 @ s2) =
     server_loop env c s1 \<bind> (\<lambda>(r, c1). if r = Done then server_loop env c1 s2 else Some (r, c1))"
proof (induction env c s1 rule: server_loop.induct)
  case (2 env c x src)
  show ?case
  proof (cases "handle_line (parse_server env) env c")
    case (Pair r c1)
    with 2 show ?thesis by (cases r) auto
  qed
qed simp

lemma server_loop_text:
  "list_all (\<lambda>x. \<not> IsEol x) l \<Longrightarrow> length (con_buffer c) + length l \<le> BUFSIZE \<Longrightarrow>
     server_loop env c (l @ s) = server_loop env (c\<lparr>con_buffer := con_buffer c @ l\<rparr>) s"
proof (induction l arbitrary: c)
  case (Cons x l)
  then show ?case by simp
qed simp

text \<open>The lines of a packet handled one after the other until one ends the connection.\<close>

fun deliver :: "('w \<Rightarrow> string \<Rightarrow> 'w \<times> bool) \<Rightarrow> 'w cli_env \<Rightarrow> 'w conn \<Rightarrow> string list \<Rightarrow> outcome \<times> 'w conn" where
  "deliver parse env c [] = (Done, c)"
| "deliver parse env c (l # ls) =
     (case handle_line parse env (c\<lparr>con_buffer := l\<rparr>) of
        (Done, c1) \<Rightarrow> deliver parse env (c1\<lparr>con_buffer := []\<rparr>) ls
      | (r, c1) \<Rightarrow> (r, c1))"

lemma server_loop_frame:
  "list_all (line_ok BUFSIZE) lines \<Longrightarrow> con_buffer c = [] \<Longrightarrow>
     server_loop env c (frame lines) = Some (deliver (parse_server env) env c lines)"
proof (induction lines arbitrary: c)
  case (Cons l lines)
  let ?c = "c\<lparr>con_buffer := l\<rparr>"
  obtain r c1 where h: "handle_line (parse_server env) env ?c = (r, c1)" by fastforce
  have l: "l \<noteq> []" "length l < BUFSIZE" "list_all (\<lambda>x. \<not> IsEol x) l"
    using Cons.prems(1) by (auto simp: line_ok_def)
  have "frame (l # lines) = l @ CHR 0x0D # CHR 0x0A # frame lines" by (simp add: frame_def)
  then have "server_loop env c (frame (l # lines)) = server_loop env ?c (CHR 0x0D # CHR 0x0A # frame lines)"
    using server_loop_text [OF l(3), of c env] l(2) Cons.prems(2) by simp
  with l h Cons show ?case by (cases r) (auto simp: BUFSIZE_def)
qed (simp add: frame_def)

lemma server_loop_overrun:
  "list_all (\<lambda>x. \<not> IsEol x) l \<Longrightarrow> length (con_buffer c) \<le> BUFSIZE \<Longrightarrow>
     BUFSIZE < length (con_buffer c) + length l \<Longrightarrow> server_loop env c l = None"
proof (induction l arbitrary: c)
  case (Cons x l)
  then show ?case by (cases "length (con_buffer c) < BUFSIZE") auto
qed simp

section \<open>Lines from a client\<close>

lemma getmsg_spec_shorter: "getmsg_spec n bs = (line, rest) \<Longrightarrow> line \<noteq> [] \<Longrightarrow> length rest < length bs"
proof -
  assume g: "getmsg_spec n bs = (line, rest)" and ne: "line \<noteq> []"
  let ?b = "dropWhile IsEol bs"
  have "length rest \<le> length ?b - length line" "length ?b \<le> length bs" "length line < length ?b"
    using g ne length_dropWhile_le [of IsEol "drop (length line) ?b"]
    by (auto simp: getmsg_spec_def Let_def length_dropWhile_le split: if_splits)
  with ne show ?thesis by (cases line) auto
qed

function stream_loop :: "'w cli_env \<Rightarrow> string \<Rightarrow> bool \<Rightarrow> 'w conn \<Rightarrow> read_result \<times> string \<times> bool \<times> 'w conn" where
  "stream_loop env bs nonl c =
     (if bs \<noteq> [] \<and> \<not> nonl \<and> lag_ok env (con_world c)
      then let (line, rest) = getmsg_spec BUFSIZE bs
           in if line = []
              then if length rest < 510 then stream_loop env rest True c
                   else stream_loop env [] nonl (c\<lparr>con_world := too_long env (con_world c)\<rparr>)
              else (case client_dopacket env (c\<lparr>con_buffer := line\<rparr>) of
                      (r, c1) \<Rightarrow> if r \<noteq> Done then (RKilled, rest, nonl, c1) else stream_loop env rest nonl c1)
      else (RDone (bs \<noteq> [] \<and> \<not> nonl), bs, nonl, c))"
  by pat_completeness auto

termination
  by (relation "measures [\<lambda>(env, bs, nonl, c). if nonl then 0 else 1, \<lambda>(env, bs, nonl, c). length bs]")
    (auto dest: getmsg_spec_shorter [OF sym])

declare stream_loop.simps [simp del]

lemma DBufClear_bytes:
  "dbuf_inv q \<Longrightarrow> DBufClear p q = (p', q') \<Longrightarrow> dbuf_inv q' \<and> bytes q' = []"
  using dbuf_delete_bytes [of q p "unat (dyn_length q)" p' q'] by (simp add: DBufClear_def dbuf_inv_def)

lemma client_loop_stream:
  assumes "dbuf_inv (rd_recvQ s)" and "\<forall>w. \<not> IsHandshake env w \<and> \<not> IsServer env w"
    and "bs = bytes (rd_recvQ s)" and "nonl = rd_nonl s" and "c = rd_conn s"
  shows "\<exists>r s'. client_loop env s = Some (r, s') \<and> dbuf_inv (rd_recvQ s') \<and>
    (r, bytes (rd_recvQ s'), rd_nonl s', rd_conn s') = stream_loop env bs nonl c"
  using assms
proof (induction env bs nonl c arbitrary: s rule: stream_loop.induct)
  case (1 env bs nonl c)
  note inv = "1.prems"(1) and eqs = "1.prems"(3-5)
  have len: "dbuf_inv q \<Longrightarrow> unat (dyn_length q) = length (bytes q)" for q by (simp add: dbuf_inv_def)
  have z: "dyn_length (rd_recvQ s) \<noteq> 0 \<longleftrightarrow> bs \<noteq> []"
    using len [OF inv] eqs by (metis length_0_conv unat_eq_zero)
  show ?case
  proof (cases "bs \<noteq> [] \<and> \<not> nonl \<and> lag_ok env (con_world c)")
    case False
    then have "stream_loop env bs nonl c = (RDone (bs \<noteq> [] \<and> \<not> nonl), bs, nonl, c)"
      by (subst stream_loop.simps) (simp only: if_False)
    moreover have "client_loop env s = Some (RDone (bs \<noteq> [] \<and> \<not> nonl), s)"
      using False z eqs by (auto simp: client_loop.simps [of env s])
    ultimately show ?thesis using inv eqs by simp
  next
    case run: True
    obtain p q line where g: "dbuf_getmsg (rd_pool s) (rd_recvQ s) BUFSIZE = Some (p, q, line)"
      and q: "dbuf_inv q" and spec: "getmsg_spec BUFSIZE bs = (line, bytes q)"
      using dbuf_getmsg_spec [OF inv, of "rd_pool s" BUFSIZE] eqs by (metis prod.collapse)
    let ?s = "s\<lparr>rd_pool := p, rd_recvQ := q\<rparr>"
    have step: "client_loop env s = (case client_line env ?s line of (killed, s1) \<Rightarrow>
        if killed then Some (RKilled, s1) else client_loop env s1)"
      using run z g "1.prems" by (auto simp: client_loop.simps [of env s] split: prod.splits)
    have spec_step: "stream_loop env bs nonl c = (if line = []
        then if length (bytes q) < 510 then stream_loop env (bytes q) True c
             else stream_loop env [] nonl (c\<lparr>con_world := too_long env (con_world c)\<rparr>)
        else (case client_dopacket env (c\<lparr>con_buffer := line\<rparr>) of
                (r, c1) \<Rightarrow> if r \<noteq> Done then (RKilled, bytes q, nonl, c1) else stream_loop env (bytes q) nonl c1))"
      using run spec by (cases nonl) (simp_all add: stream_loop.simps [of env bs] split: prod.splits)
    consider "line = []" "length (bytes q) < 510" | "line = []" "\<not> length (bytes q) < 510" | "line \<noteq> []" by blast
    then show ?thesis
    proof cases
      case 1
      with "1.IH"(1) [OF run spec [symmetric] refl 1, of "?s\<lparr>rd_nonl := True\<rparr>"] "1.prems" q step spec_step len [OF q]
      show ?thesis by (simp add: client_line_def)
    next
      case 2
      obtain p2 q2 where cl: "DBufClear p q = (p2, q2)" by fastforce
      with "1.IH"(2) [OF run spec [symmetric] refl 2, of "?s\<lparr>rd_pool := p2, rd_recvQ := q2,
          rd_conn := (rd_conn s)\<lparr>con_world := too_long env (con_world (rd_conn s))\<rparr>\<rparr>"]
        DBufClear_bytes [OF q cl] "1.prems" 2 step spec_step len [OF q]
      show ?thesis by (simp add: client_line_def)
    next
      case 3
      obtain r c1 where d: "client_dopacket env (c\<lparr>con_buffer := line\<rparr>) = (r, c1)" by fastforce
      show ?thesis
      proof (cases "r = Done")
        case True
        with "1.IH"(3) [OF run spec [symmetric] refl 3 d [symmetric], of "?s\<lparr>rd_conn := c1\<rparr>"] "1.prems" q d 3 step spec_step
        show ?thesis by (simp add: client_line_def)
      next
        case False
        with "1.prems" q d 3 step spec_step show ?thesis by (simp add: client_line_def)
      qed
    qed
  qed
qed

section \<open>Properties\<close>

text \<open>Server links are cut into lines independently of how the bytes arrive: handling two packets
  one after the other, the second unless the first ended the connection, is handling their
  concatenation.\<close>

lemma server_packets_compose:
  "server_loop env c (s1 @ s2) =
     server_loop env c s1 \<bind> (\<lambda>(r, c1). if r = Done then server_loop env c1 s2 else Some (r, c1))"
  by (rule server_loop_append)

text \<open>C36. A packet of complete lines from a server, each shorter than the buffer and without line ends
  inside, is delivered to the parser line by line in order, and delivery stops at the first line
  that kills the connection or leaves its socket dead.\<close>

theorem server_dopacket_delivers:
  assumes "list_all (line_ok BUFSIZE) lines" and "con_buffer c = []"
  shows "server_dopacket env c (frame lines) =
    Some (deliver (parse_server env) env (update_bytes_received (length (frame lines)) c) lines)"
  using server_loop_frame [OF assms(1), of "update_bytes_received (length (frame lines)) c" env] assms(2)
  by (simp add: server_dopacket_def update_bytes_received_def)

definition demo_cli :: "string list cli_env" where
  "demo_cli = \<lparr>parse_client = (\<lambda>w l. (w @ [l], False)), parse_server = (\<lambda>w l. (w @ [l], l = ''SQUIT'')),
     exit_client = (\<lambda>w r. []), cli_info = (\<lambda>w. []), IsDead = (\<lambda>w. False), IsServer = (\<lambda>w. False), IsHandshake = (\<lambda>w. False),
     IsConnecting = (\<lambda>w. False), IsUser = (\<lambda>w. True), lag_ok = (\<lambda>w. length w < 5), get_recvq = (\<lambda>w. 1024),
     too_long = id, got_data = id\<rparr>"

definition demo_conn :: "string list conn" where
  "demo_conn = \<lparr>con_buffer = [], con_receiveB = 0, con_receiveM = 0, me_receiveB = 0, me_receiveM = 0, con_world = []\<rparr>"

theorem server_dopacket_delivers_witness:
  "server_dopacket demo_cli demo_conn (frame [''AB N x'', ''SQUIT'', ''AB Q'']) =
    Some (deliver (parse_server demo_cli) demo_cli (update_bytes_received (length (frame [''AB N x'', ''SQUIT'', ''AB Q''])) demo_conn)
      [''AB N x'', ''SQUIT'', ''AB Q''])"
  by (rule server_dopacket_delivers) (simp_all add: line_ok_def IsEol_iff BUFSIZE_def demo_conn_def)

text \<open>The buffer of a server link is written one byte behind its end: a peer that sends more than
  512 bytes without a line end makes the handler store a byte at \<^verbatim>\<open>con_buffer[BUFSIZE]\<close>, outside the
  array, before it looks whether there is room.\<close>

lemma server_dopacket_overrun:
  assumes "list_all (\<lambda>x. \<not> IsEol x) l" and "BUFSIZE < length l" and "con_buffer c = []"
  shows "server_dopacket env c l = None"
  using server_loop_overrun [OF assms(1), of "update_bytes_received (length l) c" env] assms
  by (simp add: server_dopacket_def update_bytes_received_def)

lemma server_dopacket_overrun_witness:
  "server_dopacket demo_cli demo_conn (replicate 513 (CHR ''x'')) = None"
  by (rule server_dopacket_overrun) (simp_all add: list_all_length IsEol_iff BUFSIZE_def demo_conn_def)

text \<open>C24. Reading from a registered client refines the specification on byte streams: unless the put
  fails or the queue exceeds the client's limit, the data read is appended to what was queued, and
  lines are taken off it and parsed until the stream has no complete line, the client has used up
  its allowance, or a line ends the connection. The call always returns.\<close>

theorem read_packet_refines:
  assumes "dbuf_inv (rd_recvQ s)" and "length (bytes (rd_recvQ s)) + length buf < 2 ^ 32" and "buf \<noteq> []"
    and "\<forall>w. \<not> IsHandshake env w \<and> \<not> IsServer env w \<and> \<not> IsConnecting env w"
    and "length (bytes (rd_recvQ s)) + length buf \<le> get_recvq env (got_data env (con_world (rd_conn s)))"
    and "length (bytes (rd_recvQ s)) \<le> get_recvq env (con_world (rd_conn s))"
    and "dbuf_put denv (rd_pool s) (rd_recvQ s) buf = (p, q, True)"
  shows "\<exists>r s'. read_packet denv env s True (IO_SUCCESS buf) = Some (r, s') \<and> dbuf_inv (rd_recvQ s') \<and>
    (r, bytes (rd_recvQ s'), rd_nonl s', rd_conn s') =
      stream_loop env (bytes (rd_recvQ s) @ buf) False ((rd_conn s)\<lparr>con_world := got_data env (con_world (rd_conn s))\<rparr>)"
proof -
  have q: "dbuf_inv q" "bytes q = bytes (rd_recvQ s) @ buf"
    using dbuf_put_bytes [OF assms(1,2,7)] by auto
  have len: "unat (dyn_length (rd_recvQ s)) = length (bytes (rd_recvQ s))" "unat (dyn_length q) = length (bytes q)"
    using assms(1) q(1) by (simp_all add: dbuf_inv_def)
  let ?s = "s\<lparr>rd_nonl := False,
      rd_conn := (rd_conn s)\<lparr>con_world := got_data env (con_world (rd_conn s))\<rparr>, rd_pool := p, rd_recvQ := q\<rparr>"
  have "read_packet denv env s True (IO_SUCCESS buf) = client_loop env ?s"
    using assms q len by (simp add: read_packet_def Let_def)
  then show ?thesis using client_loop_stream [OF _ _ refl refl refl, of ?s env] q assms(4) by simp
qed

theorem read_packet_refines_witness:
  "\<exists>r s'. read_packet demo_env demo_cli \<lparr>rd_pool = demo_pool, rd_recvQ = empty_dbuf, rd_nonl = False, rd_conn = demo_conn\<rparr>
      True (IO_SUCCESS (frame [''PING a'', ''QUIT''])) = Some (r, s') \<and> dbuf_inv (rd_recvQ s') \<and>
    (r, bytes (rd_recvQ s'), rd_nonl s', rd_conn s') =
      stream_loop demo_cli (frame [''PING a'', ''QUIT'']) False demo_conn"
proof -
  let ?s = "\<lparr>rd_pool = demo_pool, rd_recvQ = empty_dbuf, rd_nonl = False, rd_conn = demo_conn\<rparr>"
  have "dbuf_put demo_env (rd_pool ?s) (rd_recvQ ?s) (frame [''PING a'', ''QUIT'']) =
     (\<lparr>dbufFreeList = [], DBufAllocCount = 1, DBufUsedCount = 1\<rparr>,
      \<lparr>dyn_length = 14, dyn_bufs = [\<lparr>buf_start = 0, buf_data = frame [''PING a'', ''QUIT'']\<rparr>]\<rparr>, True)"
    by (simp add: demo_put)
  from read_packet_refines [OF _ _ _ _ _ _ this, of demo_cli] show ?thesis
    using demo_empty by (simp add: demo_cli_def frame_def)
qed

end
