(* ===== verification/Ircd_String.thy ===== *)
theory Ircd_String
  imports Chattr "HOL-Library.Sublist"
begin

text \<open>
  The string utilities of src/ircd/ircd_string.c and src/include/ircd_string.h:
  comparison without case, bounded copies, tokenisers, the UTF-8 check, time intervals,
  colour stripping and the validity checks of user and host names. (The conversions
  between IP addresses and text are in the theory IPText.)

  A C string is a list of characters without its NUL, so a pointer into a string is the
  suffix it points at, and reading a byte past the suffix reads the NUL. The functions that
  fill a fixed buffer return an option: \<^const>\<open>None\<close> is a write past its end.
\<close>

section \<open>Comparison\<close>

text \<open>A plain \<^verbatim>\<open>char\<close> is signed on the supported platforms.\<close>

definition schar :: "char \<Rightarrow> int" where
  "schar c = (if code c < 128 then int (code c) else int (code c) - 256)"

definition NUL :: char where "NUL = CHR 0x00"

fun ircd_strcmp :: "string \<Rightarrow> string \<Rightarrow> int" where
  "ircd_strcmp [] [] = 0"
| "ircd_strcmp (a # ra) (b # rb) =
     (if ToLower a = ToLower b then ircd_strcmp ra rb else schar (ToLower a) - schar (ToLower b))"
| "ircd_strcmp (a # ra) [] = schar (ToLower a) - schar (ToLower NUL)"
| "ircd_strcmp [] (b # rb) = schar (ToLower NUL) - schar (ToLower b)"

text \<open>The loop of \<^verbatim>\<open>ircd_strncmp\<close> runs with \<open>left\<close> already decremented once.\<close>

fun strncmp_loop :: "string \<Rightarrow> string \<Rightarrow> int \<Rightarrow> int" where
  "strncmp_loop [] [] left = 0"
| "strncmp_loop (a # ra) (b # rb) left =
     (if ToLower a = ToLower b
      then if left = 0 then 0 else strncmp_loop ra rb (left - 1)
      else schar (ToLower a) - schar (ToLower b))"
| "strncmp_loop (a # ra) [] left = schar (ToLower a) - schar (ToLower NUL)"
| "strncmp_loop [] (b # rb) left = schar (ToLower NUL) - schar (ToLower b)"

definition ircd_strncmp :: "string \<Rightarrow> string \<Rightarrow> nat \<Rightarrow> int" where
  "ircd_strncmp a b n =
     (let left = sint (word_of_nat n :: u32) in if left = 0 then 0 else strncmp_loop a b (left - 1))"

fun strCasediff :: "string \<Rightarrow> string \<Rightarrow> bool" where
  "strCasediff [] rb = (rb \<noteq> [])"
| "strCasediff (a # ra) [] = True"
| "strCasediff (a # ra) (b # rb) = (if ToLower a = ToLower b then strCasediff ra rb else True)"

fun strChattr_loop :: "u32 \<Rightarrow> string \<Rightarrow> u32" where
  "strChattr_loop x [] = x"
| "strChattr_loop x (c # rs) = strChattr_loop (x AND makeTables c) rs"

definition strChattr :: "string \<Rightarrow> u32" where
  "strChattr s = strChattr_loop (NOT 0) s"

section \<open>Copies\<close>

text \<open>\<open>strncpy_loop n s\<close> is what \<^verbatim>\<open>while (--n != 0)\<close> writes before the final NUL.\<close>

fun strncpy_loop :: "nat \<Rightarrow> string \<Rightarrow> string" where
  "strncpy_loop 0 s2 = []"
| "strncpy_loop (Suc 0) s2 = []"
| "strncpy_loop (Suc (Suc n)) [] = []"
| "strncpy_loop (Suc (Suc n)) (c # s2) = c # strncpy_loop (Suc n) s2"

text \<open>The first argument is what the destination holds before the call.\<close>

definition ircd_strncpy :: "string \<Rightarrow> string \<Rightarrow> nat \<Rightarrow> string" where
  "ircd_strncpy s1 s2 n = (if n \<noteq> 0 then strncpy_loop n s2 else s1)"

fun strchr :: "string \<Rightarrow> char \<Rightarrow> string option" where
  "strchr [] c = None"
| "strchr (x # xs) c = (if x = c then Some (x # xs) else strchr xs c)"

definition host_from_uh :: "string \<Rightarrow> string \<Rightarrow> nat \<Rightarrow> string" where
  "host_from_uh buf userhost len =
     ircd_strncpy buf (case strchr userhost (CHR ''@'') of Some s \<Rightarrow> tl s | None \<Rightarrow> userhost) (len + 1)"

section \<open>Tokenisers\<close>

text \<open>
  \<open>ircd_strtok fs pos\<close> gives the token found from the saved position \<open>pos\<close> (\<^const>\<open>None\<close> for
  NULL) and the position saved for the next call; a first call on \<open>s\<close> starts at \<open>Some s\<close>.
\<close>

definition ircd_strtok :: "string \<Rightarrow> string option \<Rightarrow> string option \<times> string option" where
  "ircd_strtok fs save =
     (case save of
        None \<Rightarrow> (None, None)
      | Some s \<Rightarrow>
          let pos = dropWhile (\<lambda>c. c \<in> set fs) s
          in if pos = [] then (None, None)
             else let tmp = takeWhile (\<lambda>c. c \<notin> set fs) pos;
                      pos = dropWhile (\<lambda>c. c \<notin> set fs) pos
                  in (Some tmp, if pos \<noteq> [] then Some (tl pos) else None))"

definition left_size :: "string option \<Rightarrow> nat" where
  "left_size save = (case save of None \<Rightarrow> 0 | Some s \<Rightarrow> Suc (length s))"

lemma strtok_shorter:
  assumes "ircd_strtok fs save = (Some t, save')"
  shows "left_size save' < left_size save"
proof (cases save)
  case (Some s)
  define p where "p = dropWhile (\<lambda>c. c \<in> set fs) s"
  define q where "q = dropWhile (\<lambda>c. c \<notin> set fs) p"
  have "length q \<le> length s"
    unfolding q_def p_def by (meson length_dropWhile_le le_trans)
  moreover have "save' = (if q \<noteq> [] then Some (tl q) else None)"
    using assms unfolding ircd_strtok_def Some Let_def option.case p_def [symmetric] q_def [symmetric]
    by (simp split: if_split_asm)
  ultimately show ?thesis
    using Some by (cases q) (simp_all add: left_size_def)
qed (use assms in \<open>simp add: ircd_strtok_def\<close>)

function strtok_all :: "string \<Rightarrow> string option \<Rightarrow> string list" where
  "strtok_all fs save =
     (case ircd_strtok fs save of (None, _) \<Rightarrow> [] | (Some t, save') \<Rightarrow> t # strtok_all fs save')"
  by pat_completeness auto
termination
  by (relation "measure (\<lambda>(fs, save). left_size save)") (auto dest!: strtok_shorter [OF sym])

declare strtok_all.simps [simp del]

text \<open>
  \<^verbatim>\<open>canonize\<close> keeps in \<open>cbuf\<close> the distinct items met so far, joined by commas. The inner
  tokeniser run over \<open>cbuf\<close> puts back every comma it cuts out, so between two items the buffer
  is whole again; \<open>canon_find\<close> is its result, whether some item compares equal.
\<close>

function canon_find :: "string \<Rightarrow> string option \<Rightarrow> bool" where
  "canon_find s save =
     (case ircd_strtok '','' save of
        (None, _) \<Rightarrow> False
      | (Some t, save') \<Rightarrow> if ircd_strcmp s t = 0 then True else canon_find s save')"
  by pat_completeness auto
termination
  by (relation "measure (\<lambda>(s, save). left_size save)") (auto dest!: strtok_shorter [OF sym])

declare canon_find.simps [simp del]

definition canon_add :: "string \<Rightarrow> bool \<Rightarrow> string \<Rightarrow> string option" where
  "canon_add cbuf l s =
     (if l \<and> canon_find s (Some cbuf) then Some cbuf
      else let cbuf' = (if l then cbuf @ '','' @ s else s)
           in if length cbuf' < BUFSIZE then Some cbuf' else None)"

function canon_loop :: "string option \<Rightarrow> string \<Rightarrow> bool \<Rightarrow> string option" where
  "canon_loop p cbuf l =
     (case ircd_strtok '','' p of
        (None, _) \<Rightarrow> Some cbuf
      | (Some s, p') \<Rightarrow>
          (case canon_add cbuf l s of None \<Rightarrow> None | Some cbuf' \<Rightarrow> canon_loop p' cbuf' True))"
  by pat_completeness auto
termination
  by (relation "measure (\<lambda>(p, cbuf, l). left_size p)") (auto dest!: strtok_shorter [OF sym])

declare canon_loop.simps [simp del]

definition canonize :: "string \<Rightarrow> string option" where
  "canonize buffer = canon_loop (Some buffer) [] False"

text \<open>
  The vectors are lists of the strings they point at, read after the call has cut the input
  at its delimiters.
\<close>

definition in_vector :: "string list \<Rightarrow> string \<Rightarrow> bool" where
  "in_vector v s = list_ex (\<lambda>x. ircd_strcmp x s = 0) v"

lemma strchr_Some: "strchr s c = Some e \<Longrightarrow> e \<noteq> [] \<and> length e \<le> length s"
  by (induction s) (auto split: if_splits)

lemma strchr_rest: "strchr s c = Some e \<Longrightarrow> length (dropWhile P (tl e)) < length s"
  using strchr_Some [of s c e] length_dropWhile_le [of P "tl e"] by (cases e) auto

function unique_loop :: "char \<Rightarrow> nat \<Rightarrow> string \<Rightarrow> string list \<Rightarrow> string list" where
  "unique_loop token sz start v =
     (case strchr start token of
        Some e \<Rightarrow>
          let cut = takeWhile (\<lambda>c. c \<noteq> token) start;
              e' = dropWhile (\<lambda>c. c = token) (tl e)
          in if \<not> in_vector v cut
             then if length v + 1 = sz then v @ [cut]
                  else unique_loop token sz e' (v @ [cut])
             else unique_loop token sz e' v
      | None \<Rightarrow> if start \<noteq> [] \<and> \<not> in_vector v start then v @ [start] else v)"
  by pat_completeness auto
termination
  by (relation "measure (\<lambda>(token, sz, start, v). length start)") (auto simp: strchr_rest)

declare unique_loop.simps [simp del]

definition unique_name_vector :: "string \<Rightarrow> char \<Rightarrow> nat \<Rightarrow> string list" where
  "unique_name_vector names token sz =
     unique_loop token sz (dropWhile (\<lambda>c. c = token) names) []"

text \<open>
  In \<^verbatim>\<open>token_vector\<close> the newest entry points at \<open>start\<close>, and the loop cuts it at the next
  delimiter it finds there; \<open>v\<close> holds the entries before it.
\<close>

function token_loop :: "char \<Rightarrow> nat \<Rightarrow> string \<Rightarrow> string list \<Rightarrow> string list" where
  "token_loop token sz start v =
     (case strchr start token of
        Some e \<Rightarrow>
          let cut = takeWhile (\<lambda>c. c \<noteq> token) start; start' = tl e
          in if start' \<noteq> []
             then if length v + 2 < sz then token_loop token sz start' (v @ [cut])
                  else v @ [cut, start']
             else v @ [cut]
      | None \<Rightarrow> v @ [start])"
  by pat_completeness auto
termination
  by (relation "measure (\<lambda>(token, sz, start, v). length start)")
    (auto simp: strchr_rest [where P = "\<lambda>_. False", simplified])

declare token_loop.simps [simp del]

definition token_vector :: "string \<Rightarrow> char \<Rightarrow> nat \<Rightarrow> string list" where
  "token_vector names token sz = token_loop token sz names []"

section \<open>Checks on text\<close>

fun string_has_wildcards :: "string \<Rightarrow> bool" where
  "string_has_wildcards [] = False"
| "string_has_wildcards [c] = (c = CHR ''*'' \<or> c = CHR ''?'')"
| "string_has_wildcards (c # d # s) =
     (if c = CHR 0x5C then string_has_wildcards s
      else if c = CHR ''*'' \<or> c = CHR ''?'' then True
      else string_has_wildcards (d # s))"

text \<open>\<open>byte_at bytes i\<close> is \<^verbatim>\<open>bytes[i]\<close> as an unsigned char.\<close>

definition byte_at :: "string \<Rightarrow> nat \<Rightarrow> nat" where
  "byte_at s i = (if i < length s then code (s ! i) else 0)"

definition between :: "nat \<Rightarrow> nat \<Rightarrow> nat \<Rightarrow> bool" where
  "between lo x hi \<longleftrightarrow> lo \<le> x \<and> x \<le> hi"

definition utf8_step :: "string \<Rightarrow> nat option" where
  "utf8_step s =
     (let b0 = byte_at s 0; b1 = byte_at s 1; b2 = byte_at s 2; b3 = byte_at s 3 in
      if b0 = 0x09 \<or> b0 = 0x0A \<or> b0 = 0x0D \<or> between 0x20 b0 0x7E then Some 1
      else if between 0xC2 b0 0xDF \<and> between 0x80 b1 0xBF then Some 2
      else if (b0 = 0xE0 \<and> between 0xA0 b1 0xBF \<and> between 0x80 b2 0xBF)
            \<or> ((between 0xE1 b0 0xEC \<or> b0 = 0xEE \<or> b0 = 0xEF) \<and> between 0x80 b1 0xBF \<and> between 0x80 b2 0xBF)
            \<or> (b0 = 0xED \<and> between 0x80 b1 0x9F \<and> between 0x80 b2 0xBF) then Some 3
      else if (b0 = 0xF0 \<and> between 0x90 b1 0xBF \<and> between 0x80 b2 0xBF \<and> between 0x80 b3 0xBF)
            \<or> (between 0xF1 b0 0xF3 \<and> between 0x80 b1 0xBF \<and> between 0x80 b2 0xBF \<and> between 0x80 b3 0xBF)
            \<or> (b0 = 0xF4 \<and> between 0x80 b1 0x8F \<and> between 0x80 b2 0xBF \<and> between 0x80 b3 0xBF) then Some 4
      else None)"

lemma utf8_step_pos: "utf8_step s = Some n \<Longrightarrow> 0 < n"
  by (auto simp: utf8_step_def Let_def split: if_splits)

function string_is_valid_utf8 :: "string \<Rightarrow> bool" where
  "string_is_valid_utf8 s =
     (if s = [] then True
      else (case utf8_step s of Some n \<Rightarrow> string_is_valid_utf8 (drop n s) | None \<Rightarrow> False))"
  by pat_completeness auto
termination
  by (relation "measure length") (auto dest: utf8_step_pos)

declare string_is_valid_utf8.simps [simp del]

fun string_contains_non_ascii :: "string \<Rightarrow> bool" where
  "string_contains_non_ascii [] = False"
| "string_contains_non_ascii (c # s) = (if code c > 127 then True else string_contains_non_ascii s)"

definition string_character_structure_is_sane :: "string \<Rightarrow> bool" where
  "string_character_structure_is_sane s = (string_is_valid_utf8 s \<or> \<not> string_contains_non_ascii s)"

fun is_timestamp :: "string \<Rightarrow> bool" where
  "is_timestamp [] = True"
| "is_timestamp (c # s) = (if IsDigit c \<or> c = CHR ''.'' then is_timestamp s else False)"

fun ipmask_scan :: "int \<Rightarrow> string \<Rightarrow> int" where
  "ipmask_scan has_digit [] = has_digit"
| "ipmask_scan has_digit (c # p) =
     (if c \<noteq> CHR ''*'' \<and> c \<noteq> CHR ''?'' \<and> c \<noteq> CHR ''/''
      then if \<not> IsIP6Char c then 0 else ipmask_scan (- 1) p
      else ipmask_scan has_digit p)"

definition check_if_ipmask :: "string \<Rightarrow> int" where
  "check_if_ipmask msk =
     (if byte_at msk 0 = code (CHR ''.'') \<or> byte_at msk 0 = code (CHR ''/'') then 0 else ipmask_scan 0 msk)"

fun valid_username :: "string \<Rightarrow> bool" where
  "valid_username [] = True"
| "valid_username (c # s) = (if \<not> IsUserChar c then False else valid_username s)"

fun host_scan :: "string \<Rightarrow> bool" where
  "host_scan [] = True"
| "host_scan (c # s) = (if \<not> IsHostChar c then False else host_scan s)"

definition valid_hostname :: "string \<Rightarrow> bool" where
  "valid_hostname name =
     (if name = [] then False
      else if hd name = CHR ''.'' then False
      else if last name = CHR ''.'' then False
      else host_scan name)"

section \<open>Numbers and intervals\<close>

text \<open>
  \<^verbatim>\<open>itoa\<close> collects the digits in reverse order in \<open>s\<close> and copies them back; \<open>%\<close> and \<open>/\<close>
  truncate towards zero.
\<close>

function itoa_loop :: "int \<Rightarrow> string \<Rightarrow> string" where
  "itoa_loop n u =
     (let d = char_of (nat ((n - 10 * (sgn n * (\<bar>n\<bar> div 10)) + 48) mod 256));
          n' = sgn n * (\<bar>n\<bar> div 10)
      in if n' > 0 then itoa_loop n' (d # u) else d # u)"
  by pat_completeness auto
termination
  by (relation "measure (\<lambda>(n, u). nat n)") (auto simp: Let_def sgn_if split: if_splits)

declare itoa_loop.simps [simp del]

definition itoa :: "int \<Rightarrow> string" where
  "itoa n = itoa_loop n []"

definition TypeLength :: "char \<Rightarrow> int" where
  "TypeLength type =
     (if type = CHR ''y'' then 365 * 24 * 60 * 60
      else if type = CHR ''M'' then 31 * 24 * 60 * 60
      else if type = CHR ''w'' then 7 * 24 * 60 * 60
      else if type = CHR ''d'' then 24 * 60 * 60
      else if type = CHR ''h'' then 60 * 60
      else if type = CHR ''m'' then 60
      else if type = CHR ''s'' then 1
      else 0)"

text \<open>
  \<open>seconds\<close> is an unsigned long of 64 bits; \<open>partial\<close> is an int, and its overflow is
  undefined (\<^const>\<open>None\<close>).
\<close>

fun interval_loop :: "64 word \<Rightarrow> int \<Rightarrow> string \<Rightarrow> (64 word) option" where
  "interval_loop seconds part [] = Some (seconds + word_of_int part)"
| "interval_loop seconds part (c # s) =
     (if IsDigit c
      then let p = part * 10 + schar c - 48
           in if part * 10 + schar c < 2 ^ 31 then interval_loop seconds p s else None
      else interval_loop (seconds + word_of_int (TypeLength c * part)) 0 s)"

definition ParseInterval :: "string \<Rightarrow> (64 word) option" where
  "ParseInterval interval = interval_loop 0 0 interval"

section \<open>Colour codes\<close>

definition COLOR_BOLD :: char where "COLOR_BOLD = CHR 0x02"
definition COLOR_COLOR :: char where "COLOR_COLOR = CHR 0x03"
definition COLOR_ITALIC :: char where "COLOR_ITALIC = CHR 0x1D"
definition COLOR_NORMAL :: char where "COLOR_NORMAL = CHR 0x0F"
definition COLOR_REVERSE :: char where "COLOR_REVERSE = CHR 0x16"
definition COLOR_UNDERLINE :: char where "COLOR_UNDERLINE = CHR 0x1F"

lemmas color_defs = COLOR_BOLD_def COLOR_COLOR_def COLOR_ITALIC_def COLOR_NORMAL_def COLOR_REVERSE_def
  COLOR_UNDERLINE_def

definition digit_at :: "string \<Rightarrow> nat \<Rightarrow> bool" where
  "digit_at s i \<longleftrightarrow> i < length s \<and> IsDigit (s ! i)"

text \<open>How far a colour code at the head of \<open>src\<close> reaches beyond its first byte.\<close>

definition color_skip :: "string \<Rightarrow> nat" where
  "color_skip src =
     (if \<not> digit_at src 1 then 0
      else let i = (if digit_at src 2 then 2 else 1)
           in if i + 1 < length src \<and> src ! (i + 1) = CHR '','' \<and> digit_at src (i + 2)
              then if digit_at src (i + 3) then i + 3 else i + 2
              else i)"

function strip_loop :: "string \<Rightarrow> string" where
  "strip_loop [] = []"
| "strip_loop (c # s) =
     (if c \<in> {COLOR_BOLD, COLOR_REVERSE, COLOR_UNDERLINE, COLOR_ITALIC, COLOR_NORMAL} then strip_loop s
      else if c = COLOR_COLOR then strip_loop (drop (color_skip (c # s)) s)
      else c # strip_loop s)"
  by pat_completeness auto
termination by (relation "measure length") auto

definition StripColor :: "string \<Rightarrow> string option" where
  "StripColor txt = (let r = strip_loop txt in if length r < BUFSIZE then Some r else None)"

fun HasColor :: "string \<Rightarrow> bool" where
  "HasColor [] = False"
| "HasColor (c # s) =
     (if word_of_nat (code c) AND (224 :: u32) \<noteq> 0 then HasColor s
      else if c \<in> {COLOR_BOLD, COLOR_REVERSE, COLOR_UNDERLINE, COLOR_ITALIC, COLOR_NORMAL, COLOR_COLOR} then True
      else HasColor s)"

section \<open>Facts on comparison and copies\<close>

lemma schar_inject [simp]: "schar a = schar b \<longleftrightarrow> a = b"
proof -
  have "code a < 256" "code b < 256" by (rule code_less)+
  then show ?thesis
    using code_inject [of a b] unfolding schar_def by (cases "code a < 128"; cases "code b < 128"; simp; linarith)
qed

lemma ToLower_zero [simp]: "ToLower (CHR 0x00) = CHR 0x00" by simp

lemma schar_NUL [simp]: "schar (CHR 0x00) = 0"
  by (simp add: schar_def code_def)

lemma schar_zero_iff: "schar c = 0 \<longleftrightarrow> c = CHR 0x00"
  using schar_inject [of c "CHR 0x00"] by (simp del: schar_inject)

lemma strcmp_zero:
  "NUL \<notin> set a \<Longrightarrow> NUL \<notin> set b \<Longrightarrow> ircd_strcmp a b = 0 \<longleftrightarrow> map ToLower a = map ToLower b"
  by (induction a b rule: ircd_strcmp.induct) (auto simp: NUL_def schar_zero_iff)

lemma strcmp_minus: "ircd_strcmp b a = - ircd_strcmp a b"
  by (induction a b rule: ircd_strcmp.induct) auto

lemma strcmp_trans:
  "NUL \<notin> set b \<Longrightarrow> ircd_strcmp a b < 0 \<Longrightarrow> ircd_strcmp b c < 0 \<Longrightarrow> ircd_strcmp a c < 0"
proof (induction a b arbitrary: c rule: ircd_strcmp.induct)
  case (2 a ra b rb)
  then show ?case by (cases c) (auto simp: NUL_def split: if_splits)
next
  case (3 a ra)
  then show ?case by (cases c) (auto simp: NUL_def split: if_splits)
next
  case (4 b rb)
  then show ?case by (cases c) (auto simp: NUL_def schar_zero_iff split: if_splits)
qed auto

lemma casediff_iff: "strCasediff a b \<longleftrightarrow> map ToLower a \<noteq> map ToLower b"
  by (induction a b rule: strCasediff.induct) auto

lemma strncmp_loop_take:
  "strncmp_loop a b (int n) = ircd_strcmp (take (Suc n) a) (take (Suc n) b)"
proof (induction a b "int n" arbitrary: n rule: strncmp_loop.induct)
  case (2 a ra b rb)
  then show ?case by (cases n) auto
qed auto

lemma strncmp_take:
  assumes "n < 2 ^ 31"
  shows "ircd_strncmp a b n = ircd_strcmp (take n a) (take n b)"
proof -
  have "sint (word_of_nat n :: u32) = int n"
    using assms by (simp add: signed_of_nat signed_take_bit_int_eq_self)
  then show ?thesis
    using strncmp_loop_take [of a b "n - 1"] by (cases n) (auto simp: ircd_strncmp_def)
qed

lemma bit_strChattr: "bit (strChattr s) i \<longleftrightarrow> i < 32 \<and> list_all (\<lambda>c. bit (makeTables c) i) s"
proof -
  have "bit (strChattr_loop x s) i \<longleftrightarrow> bit x i \<and> list_all (\<lambda>c. bit (makeTables c) i) s" for x
    by (induction s arbitrary: x) (auto simp: bit_and_iff)
  then show ?thesis by (simp add: strChattr_def)
qed

lemma strncpy_loop_take: "strncpy_loop n s = take (n - 1) s"
  by (induction n s rule: strncpy_loop.induct) auto

section \<open>Colours\<close>

definition color_code :: "char \<Rightarrow> bool" where
  "color_code c \<longleftrightarrow> c \<in> {COLOR_BOLD, COLOR_REVERSE, COLOR_UNDERLINE, COLOR_ITALIC, COLOR_NORMAL, COLOR_COLOR}"

lemma color_code_low: "color_code c \<Longrightarrow> word_of_nat (code c) AND (224 :: u32) = 0"
  by (auto simp: color_code_def color_defs code_def)

lemma HasColor_iff: "HasColor s \<longleftrightarrow> list_ex color_code s"
proof (induction s)
  case (Cons c s)
  then show ?case using color_code_low [of c] by (auto simp: color_code_def)
qed simp

lemma strip_loop_plain: "\<not> list_ex color_code (strip_loop s)"
  by (induction s rule: strip_loop.induct) (auto simp: color_code_def)

lemma strip_loop_id: "\<not> list_ex color_code s \<Longrightarrow> strip_loop s = s"
  by (induction s rule: strip_loop.induct) (auto simp: color_code_def)

lemma strip_loop_length: "length (strip_loop s) \<le> length s"
proof (induction s rule: strip_loop.induct)
  case (2 c s)
  then show ?case using length_dropWhile_le by (auto simp: le_Suc_eq)
qed simp

section \<open>Intervals\<close>

definition digit_char :: "nat \<Rightarrow> char" where "digit_char d = char_of (48 + d)"

lemma code_digit_char: "d < 10 \<Longrightarrow> code (digit_char d) = 48 + d"
  by (simp add: digit_char_def code_char_of)

lemma digit_char_digit: "d < 10 \<Longrightarrow> IsDigit (digit_char d) \<and> schar (digit_char d) = 48 + int d"
  by (simp add: IsDigit_iff schar_def code_digit_char)

lemma itoa_loop_step:
  "0 \<le> n \<Longrightarrow> itoa_loop n u =
     (let d = digit_char (nat (n mod 10)) in if 0 < n div 10 then itoa_loop (n div 10) (d # u) else d # u)"
  by (subst itoa_loop.simps)
    (simp add: Let_def sgn_if digit_char_def minus_mult_div_eq_mod nat_add_distrib nat_mod_distrib add.commute)

lemma interval_itoa:
  "0 \<le> n \<Longrightarrow> n < 2 ^ 31 - 48 \<Longrightarrow> interval_loop sec 0 (itoa_loop n u) = interval_loop sec n u"
proof (induction "nat n" arbitrary: n u rule: less_induct)
  case less
  let ?d = "digit_char (nat (n mod 10))"
  have d: "IsDigit ?d" "schar ?d = 48 + n mod 10"
    using digit_char_digit [of "nat (n mod 10)"] by simp_all
  have step: "interval_loop sec (n div 10) (?d # u) = interval_loop sec n u"
    using less.prems d by (simp add: Let_def)
  show ?case
  proof (cases "0 < n div 10")
    case True
    then have "nat (n div 10) < nat n" "0 \<le> n div 10" "n div 10 < 2 ^ 31 - 48" using less.prems by auto
    from less.hyps [OF this, of "?d # u"] show ?thesis
      using less.prems True step by (simp add: itoa_loop_step Let_def)
  next
    case False
    then have "n div 10 = 0" using less.prems by simp
    then show ?thesis using less.prems False step by (simp add: itoa_loop_step Let_def)
  qed
qed

lemma itoa_loop_append: "0 \<le> n \<Longrightarrow> itoa_loop n (u @ t) = itoa_loop n u @ t"
proof (induction "nat n" arbitrary: n u rule: less_induct)
  case less
  have "itoa_loop (n div 10) ((d # u) @ t) = itoa_loop (n div 10) (d # u) @ t" if "0 < n div 10" for d
    using that less.prems by (intro less.hyps) auto
  then show ?case
    unfolding itoa_loop_step [OF less.prems, of u] itoa_loop_step [OF less.prems, of "u @ t"] Let_def by simp
qed

lemma interval_units:
  "list_all (\<lambda>(n, u). 0 \<le> n \<and> n < 2 ^ 31 - 48 \<and> \<not> IsDigit u) xs \<Longrightarrow> 0 \<le> k \<Longrightarrow> k < 2 ^ 31 - 48 \<Longrightarrow>
     interval_loop sec 0 (concat (map (\<lambda>(n, u). itoa n @ [u]) xs) @ itoa k) =
     Some (sec + word_of_int (sum_list (map (\<lambda>(n, u). n * TypeLength u) xs) + k))"
proof (induction xs arbitrary: sec)
  case Nil
  then show ?case using interval_itoa [of k sec "[]"] by (simp add: itoa_def)
next
  case (Cons x xs)
  obtain n u where x: "x = (n, u)" by fastforce
  let ?r = "concat (map (\<lambda>(n, u). itoa n @ [u]) xs) @ itoa k"
  have "interval_loop sec 0 (itoa n @ u # ?r) = interval_loop sec n (u # ?r)"
    using interval_itoa [of n sec "u # ?r"] Cons.prems x itoa_loop_append [of n "[]" "u # ?r"] by (simp add: itoa_def)
  then show ?case using Cons x by (simp add: algebra_simps)
qed

section \<open>Items of a list\<close>

fun words :: "(char \<Rightarrow> bool) \<Rightarrow> string \<Rightarrow> string \<Rightarrow> string list" where
  "words sep cur [] = (if cur = [] then [] else [cur])"
| "words sep cur (c # s) =
     (if sep c then if cur = [] then words sep [] s else cur # words sep [] s else words sep (cur @ [c]) s)"

lemma words_skip: "words sep [] (dropWhile sep s) = words sep [] s"
  by (induction s) auto

lemma words_cut:
  "cur \<noteq> [] \<Longrightarrow>
     words sep cur s = (cur @ takeWhile (\<lambda>c. \<not> sep c) s) # words sep [] (tl (dropWhile (\<lambda>c. \<not> sep c) s))"
  by (induction s arbitrary: cur) auto

lemma words_append: "sep d \<Longrightarrow> words sep cur (a @ d # b) = words sep cur a @ words sep [] b"
  by (induction a arbitrary: cur) auto

lemma words_single: "list_all (\<lambda>c. \<not> sep c) w \<Longrightarrow> cur @ w \<noteq> [] \<Longrightarrow> words sep cur w = [cur @ w]"
  by (induction w arbitrary: cur) auto

lemma words_words:
  "list_all (\<lambda>c. \<not> sep c) cur \<Longrightarrow> list_all (\<lambda>w. w \<noteq> [] \<and> list_all (\<lambda>c. \<not> sep c) w) (words sep cur s)"
  by (induction s arbitrary: cur) auto

lemma words_chars: "w \<in> set (words sep cur s) \<Longrightarrow> set w \<subseteq> set cur \<union> set s"
  by (induction s arbitrary: cur) (fastforce split: if_splits)+

lemma words_length: "sum_list (map (\<lambda>w. Suc (length w)) (words sep cur s)) \<le> Suc (length cur + length s)"
proof (induction s arbitrary: cur)
  case (Cons a s)
  then show ?case using Cons [of "[]"] Cons [of "cur @ [a]"] by auto
qed simp

lemma strtok_Some:
  assumes "p = dropWhile (\<lambda>c. c \<in> set fs) s" "q = dropWhile (\<lambda>c. c \<notin> set fs) p"
  shows "ircd_strtok fs (Some s) =
    (if p = [] then (None, None)
     else (Some (takeWhile (\<lambda>c. c \<notin> set fs) p), if q \<noteq> [] then Some (tl q) else None))"
  unfolding ircd_strtok_def option.case Let_def assms(1) [symmetric] assms(2) [symmetric] ..

lemma strtok_words:
  "case ircd_strtok fs (Some s) of
     (None, _) \<Rightarrow> words (\<lambda>c. c \<in> set fs) [] s = []
   | (Some t, None) \<Rightarrow> words (\<lambda>c. c \<in> set fs) [] s = [t]
   | (Some t, Some s') \<Rightarrow> words (\<lambda>c. c \<in> set fs) [] s = t # words (\<lambda>c. c \<in> set fs) [] s' \<and> length s' < length s"
proof -
  define p where "p = dropWhile (\<lambda>c. c \<in> set fs) s"
  define q where "q = dropWhile (\<lambda>c. c \<notin> set fs) p"
  have w: "words (\<lambda>c. c \<in> set fs) [] s = words (\<lambda>c. c \<in> set fs) [] p"
    unfolding p_def by (rule words_skip [symmetric])
  have l: "length p \<le> length s" unfolding p_def by (rule length_dropWhile_le)
  have q: "length q \<le> length p" unfolding q_def by (rule length_dropWhile_le)
  show ?thesis
  proof (cases p)
    case Nil
    then show ?thesis using w by (simp add: strtok_Some [OF p_def q_def])
  next
    case (Cons c p')
    then have "c \<notin> set fs" using p_def by (metis hd_dropWhile list.sel(1) list.distinct(1))
    then have "words (\<lambda>c. c \<in> set fs) [] p = takeWhile (\<lambda>c. c \<notin> set fs) p # words (\<lambda>c. c \<in> set fs) [] (tl q)"
      using words_cut [of "[c]" "\<lambda>c. c \<in> set fs" p'] Cons by (simp add: q_def)
    moreover have "length (tl q) < length s" using l q Cons by (cases q; cases s) simp_all
    ultimately show ?thesis using w Cons strtok_Some [OF p_def q_def] by (cases q) simp_all
  qed
qed

lemma strtok_all_None [simp]: "strtok_all fs None = []"
  by (subst strtok_all.simps) (simp add: ircd_strtok_def)

lemma strtok_all_words: "strtok_all fs (Some s) = words (\<lambda>c. c \<in> set fs) [] s"
proof (induction "length s" arbitrary: s rule: less_induct)
  case less
  obtain t r where "ircd_strtok fs (Some s) = (t, r)" by fastforce
  then show ?case
    using strtok_words [of fs s] less by (subst strtok_all.simps) (auto split: option.splits)
qed

lemma canon_find_iff: "canon_find s save \<longleftrightarrow> list_ex (\<lambda>t. ircd_strcmp s t = 0) (strtok_all '','' save)"
proof (induction s save rule: canon_find.induct)
  case (1 s save)
  then show ?case
    by (subst canon_find.simps, subst strtok_all.simps) (auto split: prod.splits option.splits)
qed


fun nub_ci :: "string list \<Rightarrow> string list \<Rightarrow> string list" where
  "nub_ci acc [] = acc"
| "nub_ci acc (x # xs) =
     (if list_ex (\<lambda>t. ircd_strcmp x t = 0) acc then nub_ci acc xs else nub_ci (acc @ [x]) xs)"

abbreviation items :: "string \<Rightarrow> string list" where
  "items s \<equiv> strtok_all '','' (Some s)"

definition items_size :: "string list \<Rightarrow> nat" where
  "items_size ws = sum_list (map (\<lambda>w. Suc (length w)) ws)"

lemma canon_add_ok:
  assumes "w \<noteq> []" "list_all (\<lambda>c. c \<noteq> CHR '','') w" "l \<longleftrightarrow> cbuf \<noteq> []"
    and "length cbuf + (if l then Suc (length w) else length w) < BUFSIZE"
  shows "\<exists>r. canon_add cbuf l w = Some r \<and> r \<noteq> [] \<and> length r \<le> length cbuf + (if l then Suc (length w) else length w) \<and>
    items r = (if list_ex (\<lambda>t. ircd_strcmp w t = 0) (items cbuf) then items cbuf else items cbuf @ [w])"
proof -
  have "items w = [w]" using assms(1,2) by (simp add: strtok_all_words words_single)
  moreover have "items (cbuf @ '','' @ w) = items cbuf @ items w"
    using words_append [of "\<lambda>c. c \<in> set '',''" "CHR '',''" "[]" cbuf w] by (simp add: strtok_all_words)
  moreover have "items [] = []" by (simp add: strtok_all_words)
  ultimately show ?thesis using assms by (auto simp: canon_add_def canon_find_iff Let_def)
qed

lemma strtok_all_step: "ircd_strtok fs save = (Some t, save') \<Longrightarrow> strtok_all fs save = t # strtok_all fs save'"
  by (subst strtok_all.simps) simp

lemma strtok_all_end: "ircd_strtok fs save = (None, save') \<Longrightarrow> strtok_all fs save = []"
  by (subst strtok_all.simps) simp

lemma strtok_word:
  assumes "ircd_strtok fs save = (Some t, save')"
  shows "t \<noteq> [] \<and> list_all (\<lambda>c. c \<notin> set fs) t"
proof (cases save)
  case (Some s)
  have "list_all (\<lambda>w. w \<noteq> [] \<and> list_all (\<lambda>c. c \<notin> set fs) w) (strtok_all fs save)"
    using Some words_words [of "\<lambda>c. c \<in> set fs" "[]" s] by (simp add: strtok_all_words)
  then show ?thesis using strtok_all_step [OF assms] by simp
qed (use assms in \<open>simp add: ircd_strtok_def\<close>)

lemma canon_loop_ok:
  "l \<longleftrightarrow> cbuf \<noteq> [] \<Longrightarrow> length cbuf + items_size (strtok_all '','' p) < BUFSIZE + (if l then 0 else 1) \<Longrightarrow>
     \<exists>r. canon_loop p cbuf l = Some r \<and> items r = nub_ci (items cbuf) (strtok_all '','' p)"
proof (induction p cbuf l rule: canon_loop.induct)
  case (1 p cbuf l)
  obtain t p' where tp: "ircd_strtok '','' p = (t, p')" by fastforce
  show ?case
  proof (cases t)
    case None
    then show ?thesis using tp by (subst canon_loop.simps) (simp add: strtok_all_end)
  next
    case (Some w)
    note step = strtok_all_step [OF tp [unfolded Some]]
    have w: "w \<noteq> []" "list_all (\<lambda>c. c \<noteq> CHR '','') w" using strtok_word [OF tp [unfolded Some]] by simp_all
    have "length cbuf + (if l then Suc (length w) else length w) < BUFSIZE"
      using "1.prems" step by (auto simp: items_size_def split: if_splits)
    from canon_add_ok [OF w "1.prems"(1) this] obtain b where b: "canon_add cbuf l w = Some b" "b \<noteq> []"
        "length b \<le> length cbuf + (if l then Suc (length w) else length w)"
        "items b = (if list_ex (\<lambda>t. ircd_strcmp w t = 0) (items cbuf) then items cbuf else items cbuf @ [w])"
      by blast
    have "length b + items_size (strtok_all '','' p') < BUFSIZE"
      using b(3) "1.prems"(2) step by (auto simp: items_size_def split: if_splits)
    with "1.IH" [OF tp [symmetric] Some b(1)] b(2,4) show ?thesis
      using tp Some b(1) step by (subst canon_loop.simps) auto
  qed
qed

lemma strcmp_member:
  assumes "NUL \<notin> set x" "\<forall>t\<in>set ts. NUL \<notin> set t"
  shows "list_ex (\<lambda>t. ircd_strcmp x t = 0) ts \<longleftrightarrow> map ToLower x \<in> set (map (map ToLower) ts)"
  using assms strcmp_zero [of x] by (auto simp: list_ex_iff)

lemma nub_ci_ok:
  assumes "\<forall>t\<in>set acc. NUL \<notin> set t" "\<forall>t\<in>set xs. NUL \<notin> set t" "distinct (map (map ToLower) acc)"
  shows "distinct (map (map ToLower) (nub_ci acc xs)) \<and>
    set (map (map ToLower) (nub_ci acc xs)) = set (map (map ToLower) (acc @ xs)) \<and>
    (\<exists>ys. nub_ci acc xs = acc @ ys \<and> subseq ys xs)"
  using assms
proof (induction acc xs rule: nub_ci.induct)
  case (2 acc x xs)
  have m: "list_ex (\<lambda>t. ircd_strcmp x t = 0) acc \<longleftrightarrow> map ToLower x \<in> set (map (map ToLower) acc)"
    using "2.prems" by (intro strcmp_member) auto
  show ?case
  proof (cases "list_ex (\<lambda>t. ircd_strcmp x t = 0) acc")
    case True
    then show ?thesis using "2.IH"(1) "2.prems" m by auto
  next
    case False
    with "2.IH"(2) "2.prems" m show ?thesis by fastforce
  qed
qed simp

text \<open>The places of a list whose item has no copy, up to case, before it.\<close>

definition first_copies :: "string list \<Rightarrow> nat set" where
  "first_copies ws = {i. \<forall>j<i. map ToLower (ws ! j) \<noteq> map ToLower (ws ! i)}"

lemma nub_ci_nths:
  assumes "\<forall>t\<in>set acc. NUL \<notin> set t" "\<forall>t\<in>set xs. NUL \<notin> set t"
  shows "nub_ci acc xs =
    acc @ nths xs {i \<in> first_copies xs. i < length xs \<and> map ToLower (xs ! i) \<notin> set (map (map ToLower) acc)}"
  using assms
proof (induction acc xs rule: nub_ci.induct)
  case (2 acc x xs)
  have m: "list_ex (\<lambda>t. ircd_strcmp x t = 0) acc \<longleftrightarrow> map ToLower x \<in> set (map (map ToLower) acc)"
    using "2.prems" by (intro strcmp_member) auto
  have "{j. Suc j \<in> first_copies (x # xs)} = {j \<in> first_copies xs. map ToLower (xs ! j) \<noteq> map ToLower x}"
    by (auto simp: first_copies_def less_Suc_eq_0_disj)
  then have s: "Suc j \<in> first_copies (x # xs) \<longleftrightarrow> j \<in> first_copies xs \<and> map ToLower (xs ! j) \<noteq> map ToLower x" for j by auto
  have z: "0 \<in> first_copies (x # xs)" by (simp add: first_copies_def)
  show ?case
  proof (cases "list_ex (\<lambda>t. ircd_strcmp x t = 0) acc")
    case True
    then show ?thesis using "2.IH"(1) "2.prems" m by (auto simp: nths_Cons s intro!: arg_cong [of _ _ "nths xs"])
  next
    case False
    then show ?thesis using "2.IH"(2) "2.prems" m z by (auto simp: nths_Cons s intro!: arg_cong [of _ _ "nths xs"])
  qed
qed simp

lemma nths_inside: "nths xs A = nths xs {i \<in> A. i < length xs}"
  by (auto simp: nths_def intro!: arg_cong [of _ _ "map fst"] filter_cong dest: set_zip_rightD)

lemma canonize_items:
  assumes "length buffer < BUFSIZE"
  shows "\<exists>r. canonize buffer = Some r \<and> items r = nub_ci [] (items buffer)"
  using canon_loop_ok [of False "[]" "Some buffer"] words_length [of "\<lambda>c. c \<in> set '',''" "[]" buffer] assms
  by (simp add: canonize_def items_size_def strtok_all_words)

section \<open>Properties\<close>

text \<open>C37. The case-insensitive comparison of two C strings is a total preorder whose equivalence is
  equality after folding case: it is zero exactly on strings that agree up to \<^const>\<open>ToLower\<close>,
  \<^const>\<open>strCasediff\<close> tests the same, swapping the arguments changes the sign, and \<open>less\<close> is transitive;
  the bounded comparison is the comparison of the two prefixes.\<close>

theorem ircd_strcmp_order:
  assumes "NUL \<notin> set a" "NUL \<notin> set b" "n < 2 ^ 31"
  shows "(ircd_strcmp a b = 0 \<longleftrightarrow> map ToLower a = map ToLower b) \<and>
    (ircd_strcmp a b = 0 \<longleftrightarrow> \<not> strCasediff a b) \<and>
    ircd_strcmp b a = - ircd_strcmp a b \<and>
    (ircd_strcmp a b < 0 \<longrightarrow> ircd_strcmp b c < 0 \<longrightarrow> ircd_strcmp a c < 0) \<and>
    ircd_strncmp a b n = ircd_strcmp (take n a) (take n b)"
  using strcmp_zero [OF assms(1,2)] strcmp_minus [of b a] strcmp_trans [OF assms(2), of a c]
    casediff_iff [of a b] strncmp_take [OF assms(3), of a b] by simp

theorem ircd_strcmp_order_witness:
  "ircd_strcmp ''Nick{'' ''nICK['' = 0 \<and> ircd_strcmp ''abc'' ''abd'' < 0 \<and> ircd_strncmp ''abc'' ''ABd'' 2 = 0"
proof -
  have l: "ToLower (CHR ''N'') = ToLower (CHR ''n'')" "ToLower (CHR ''i'') = ToLower (CHR ''I'')"
    "ToLower (CHR ''c'') = ToLower (CHR ''C'')" "ToLower (CHR ''k'') = ToLower (CHR ''K'')"
    "ToLower (CHR ''{'') = ToLower (CHR ''['')" "ToLower (CHR ''a'') = ToLower (CHR ''A'')"
    "ToLower (CHR ''b'') = ToLower (CHR ''B'')"
    by code_simp+
  then have "map ToLower ''Nick{'' = map ToLower ''nICK[''" "map ToLower ''ab'' = map ToLower ''AB''" by simp_all
  moreover have "ircd_strcmp ''abc'' ''abd'' < 0" by code_simp
  ultimately show ?thesis
    using ircd_strcmp_order [of "''Nick{''" "''nICK[''" 5] ircd_strcmp_order [of "''abc''" "''ABd''" 2]
      ircd_strcmp_order [of "''ab''" "''AB''" 0]
    by (simp add: NUL_def)
qed

text \<open>C38. \<^verbatim>\<open>canonize\<close> on a list that fits its buffer never overruns it. The items of the result are, in the order of the
  input, exactly those at the places where no earlier item is the same up to case: of every item the first copy stays as it is written and
  all later ones are removed. So no two items of the result are the same up to case, and every item of the input has one there.\<close>

theorem canonize_dedups:
  assumes "length buffer < BUFSIZE" "NUL \<notin> set buffer"
  shows "\<exists>r. canonize buffer = Some r \<and> items r = nths (items buffer) (first_copies (items buffer)) \<and>
    distinct (map (map ToLower) (items r)) \<and>
    set (map (map ToLower) (items r)) = set (map (map ToLower) (items buffer))"
proof -
  have "\<forall>t\<in>set (items buffer). NUL \<notin> set t"
    using words_chars [of _ "\<lambda>c. c \<in> set '',''" "[]" buffer] assms(2) by (auto simp: strtok_all_words)
  then show ?thesis
    using nub_ci_ok [of "[]" "items buffer"] nub_ci_nths [of "[]" "items buffer"] canonize_items [OF assms(1)]
      nths_inside [of "items buffer"] by auto
qed

theorem canonize_dedups_witness:
  "\<exists>r. canonize ''#a,#B,,#b'' = Some r \<and> items r = [''#a'', ''#B'']"
proof -
  have i: "items ''#a,#B,,#b'' = [''#a'', ''#B'', ''#b'']" by code_simp
  have l: "ToLower (CHR ''#'') = CHR ''#''" "ToLower (CHR ''a'') = CHR ''a''" "ToLower (CHR ''B'') = CHR ''b''"
    "ToLower (CHR ''b'') = CHR ''b''" by code_simp+
  have "nths [''#a'', ''#B'', ''#b''] (first_copies [''#a'', ''#B'', ''#b'']) = [''#a'', ''#B'']"
    by (simp add: nths_Cons first_copies_def l numeral_2_eq_2 All_less_Suc)
  then show ?thesis using canonize_dedups [of "''#a,#B,,#b''"] by (auto simp: i BUFSIZE_def NUL_def)
qed

text \<open>C39. An interval written as a sequence of counts with a unit letter, followed by a count of seconds,
  each count printed by \<^verbatim>\<open>itoa\<close>, is parsed back as the sum of the counts times the length of their units.\<close>

theorem ParseInterval_itoa:
  assumes "list_all (\<lambda>(n, u). 0 \<le> n \<and> n < 2 ^ 31 - 48 \<and> \<not> IsDigit u) xs" "0 \<le> k" "k < 2 ^ 31 - 48"
  shows "ParseInterval (concat (map (\<lambda>(n, u). itoa n @ [u]) xs) @ itoa k) =
    Some (word_of_int (sum_list (map (\<lambda>(n, u). n * TypeLength u) xs) + k))"
  unfolding ParseInterval_def using interval_units [OF assms, of 0] by simp

theorem ParseInterval_itoa_witness:
  "ParseInterval (concat (map (\<lambda>(n, u). itoa n @ [u]) [(1, CHR ''d''), (12, CHR ''h'')]) @ itoa 30) = Some 129630"
proof -
  have "\<not> IsDigit (CHR ''d'')" "\<not> IsDigit (CHR ''h'')" by (simp_all add: IsDigit_iff code_def)
  then show ?thesis
    using ParseInterval_itoa [of "[(1, CHR ''d''), (12, CHR ''h'')]" 30] by (simp add: TypeLength_def)
qed

text \<open>\<^verbatim>\<open>HasColor\<close> finds exactly the texts that contain a formatting byte, and \<^verbatim>\<open>StripColor\<close> of a
  text that fits its buffer returns a text without any; a text without colours is returned as it is.\<close>

lemma StripColor_clean:
  assumes "length msg < BUFSIZE"
  shows "\<exists>r. StripColor msg = Some r \<and> \<not> HasColor r \<and> (\<not> HasColor msg \<longrightarrow> r = msg) \<and>
    (HasColor msg \<longleftrightarrow> (\<exists>c\<in>set msg. color_code c))"
  using strip_loop_plain [of msg] strip_loop_id [of msg] strip_loop_length [of msg] assms
  by (auto simp: StripColor_def Let_def HasColor_iff list_ex_iff)

lemma StripColor_clean_witness:
  "\<exists>r. StripColor (CHR 0x03 # ''04,1red'') = Some r \<and> \<not> HasColor r"
  using StripColor_clean [of "CHR 0x03 # ''04,1red''"] by (auto simp: BUFSIZE_def)

end
