(* ===== verification/IPText.thy ===== *)
theory IPText
  imports Numnick_IP Ircd_String
begin

text \<open>
  Addresses as text: \<^verbatim>\<open>ircd_ntoa_r\<close>, \<^verbatim>\<open>ircd_aton_ip4\<close> and \<^verbatim>\<open>ipmask_parse\<close> of
  \<^verbatim>\<open>ircd/ircd_string.c\<close>. An address is the list of its eight segments in host byte order, as in the
  theory of numeric addresses. The parsers get the rest of the input with its position, and their result is
  \<open>None\<close> where the code returns 0. The number of mask bits is an option, \<open>None\<close> when the code
  returns without having written it; \<open>pb\<close> says whether the caller asks for it.
\<close>

section \<open>Printing\<close>

definition quad :: "nat \<Rightarrow> string" where
  "quad n = (if n \<ge> 100 then [digit_char (n div 100), digit_char (n div 10 mod 10), digit_char (n mod 10)]
             else if n \<ge> 10 then [digit_char (n div 10), digit_char (n mod 10)] else [digit_char n])"

definition IpQuadTab :: "string list" where
  "IpQuadTab = map quad [0..<256]"

definition hexdigits :: string where "hexdigits = ''0123456789abcdef''"

definition print_part :: "u16 \<Rightarrow> string" where
  "print_part x =
     (let part = unat x in
      (if part \<ge> 0x1000 then [hexdigits ! (part div 0x1000)] else []) @
      (if part \<ge> 0x100 then [hexdigits ! (part div 0x100 mod 16)] else []) @
      (if part \<ge> 0x10 then [hexdigits ! (part div 0x10 mod 16)] else []) @ [hexdigits ! (part mod 16)])"

definition ntoa_run :: "irc_in_addr \<Rightarrow> nat \<times> nat" where
  "ntoa_run a =
     (case zero_scan (drop 1 a) 1 1 0 0 of
        (ii, max_start, max_zeros, curr_zeros) \<Rightarrow>
          if curr_zeros > max_zeros then (ii - curr_zeros, curr_zeros) else (max_start, max_zeros))"

function ntoa_loop :: "irc_in_addr \<Rightarrow> nat \<Rightarrow> nat \<Rightarrow> nat \<Rightarrow> string" where
  "ntoa_loop a max_start max_zeros ii =
     (if ii < 8
      then if max_zeros > 0 \<and> ii = max_start
           then CHR '':'' # ntoa_loop a max_start max_zeros (ii + max_zeros)
           else print_part (a ! ii) @ (if ii < 7 then '':'' else []) @ ntoa_loop a max_start max_zeros (Suc ii)
      else [])"
  by pat_completeness auto
termination by (relation "measure (\<lambda>(a, max_start, max_zeros, ii). 8 - ii)") auto

declare ntoa_loop.simps [simp del]

definition ircd_ntoa_r :: "irc_in_addr \<Rightarrow> string" where
  "ircd_ntoa_r a =
     (if irc_in_addr_is_ipv4 a
      then IpQuadTab ! (unat (a ! 6) div 256) @ ''.'' @ IpQuadTab ! (unat (a ! 6) mod 256) @ ''.'' @
           IpQuadTab ! (unat (a ! 7) div 256) @ ''.'' @ IpQuadTab ! (unat (a ! 7) mod 256)
      else case ntoa_run a of (max_start, max_zeros) \<Rightarrow> ntoa_loop a max_start max_zeros 0)"

definition SOCKIPLEN :: nat where "SOCKIPLEN = 45"

section \<open>Parsing\<close>

definition digit_val :: "char \<Rightarrow> nat" where "digit_val c = code c - 48"

text \<open>The decimal number behind a slash, in an unsigned int.\<close>

definition mask_digits :: "string \<Rightarrow> u32" where
  "mask_digits s = foldl (\<lambda>b c. b * 10 + word_of_nat (digit_val c)) 0 s"

fun aton_loop :: "bool \<Rightarrow> nat \<Rightarrow> nat \<Rightarrow> nat \<Rightarrow> u32 \<Rightarrow> string \<Rightarrow> (nat \<times> u32 \<times> nat) option" where
  "aton_loop pb dots pos part ip [] =
     (if dots < 3 then None else Some (pos, ip OR push_bit (24 - 8 * dots) (word_of_nat part), 32))"
| "aton_loop pb dots pos part ip (c # s) =
     (if c = CHR ''.''
      then let ip1 = ip OR push_bit (32 - 8 * Suc dots) (word_of_nat part) in
           if Suc dots > 3 then None
           else (case s of
                   CHR ''.'' # _ \<Rightarrow> None
                 | CHR ''*'' # s1 \<Rightarrow>
                     if dropWhile (\<lambda>x. x = CHR ''*'' \<or> x = CHR ''.'') s1 \<noteq> [] then None
                     else Some (pos + 1 + length s, ip1, Suc dots * 8)
                 | _ \<Rightarrow> aton_loop pb (Suc dots) (Suc pos) 0 ip1 s)
      else if c = CHR ''/''
      then let ds = takeWhile IsDigit s; bits = mask_digits ds in
           if \<not> pb \<or> ds = [] then None
           else if bits > 32 then None
           else Some (pos + 1 + length ds, ip OR push_bit (24 - 8 * dots) (word_of_nat part), unat bits)
      else if IsDigit c
      then let part1 = part * 10 + digit_val c in
           if part1 > 255 then None else aton_loop pb dots (Suc pos) part1 ip s
      else None)"

definition ircd_aton_ip4 :: "bool \<Rightarrow> string \<Rightarrow> (nat \<times> u32 \<times> nat) option" where
  "ircd_aton_ip4 pb input = (case input of CHR ''.'' # _ \<Rightarrow> None | _ \<Rightarrow> aton_loop pb 0 0 0 0 input)"

definition hex_val :: "char \<Rightarrow> nat option" where
  "hex_val c =
     (if 48 \<le> code c \<and> code c \<le> 57 then Some (code c - 48)
      else if 65 \<le> code c \<and> code c \<le> 70 then Some (code c - 65 + 10)
      else if 97 \<le> code c \<and> code c \<le> 102 then Some (code c - 97 + 10)
      else None)"

text \<open>
  The result of the loop: the position, the segments written, where \<^verbatim>\<open>::\<close> was seen (8 if it was
  not) and the bits. \<open>ps\<close> is \<^verbatim>\<open>part_start\<close>, as its position and the input from there.
\<close>

fun parse6_loop :: "bool \<Rightarrow> (nat \<times> string) \<Rightarrow> nat \<Rightarrow> nat \<Rightarrow> nat \<Rightarrow> u16 list \<Rightarrow> string \<Rightarrow>
    (nat \<times> u16 list \<times> nat \<times> nat option) option" where
  "parse6_loop pb ps colon pos part acc [] =
     (if length acc \<ge> 8 then Some (pos, acc, colon, None)
      else let acc1 = acc @ [word_of_nat part] in
           if colon = 8 \<and> length acc1 < 8 then None else Some (pos, acc1, colon, Some 128))"
| "parse6_loop pb ps colon pos part acc (c # s) =
     (if length acc \<ge> 8 then None
      else case hex_val c of
        Some v \<Rightarrow>
          if part * 16 + v > 0xFFFF then None else parse6_loop pb ps colon (Suc pos) (part * 16 + v) acc s
      | None \<Rightarrow>
          if c = CHR '':''
          then let acc1 = acc @ [word_of_nat part] in
               (case s of
                  CHR ''.'' # _ \<Rightarrow> None
                | CHR '':'' # s1 \<Rightarrow>
                    if colon < 8 \<or> length acc1 = 8 then None
                    else parse6_loop pb (Suc pos, s) (length acc1) (pos + 2) 0 acc1 s1
                | _ \<Rightarrow> parse6_loop pb (Suc pos, s) colon (Suc pos) 0 acc1 s)
          else if c = CHR ''.''
          then (case ircd_aton_ip4 pb (snd ps) of
                  None \<Rightarrow> None
                | Some (len, ip4, bits) \<Rightarrow>
                    if length acc > 6 then None
                    else Some (fst ps + len, acc @ [ucast (drop_bit 16 ip4), ucast (ip4 AND 65535)], colon,
                               Some (bits + 96)))
          else if c = CHR ''/''
          then let ds = takeWhile IsDigit s; bits = mask_digits ds in
               if \<not> pb \<or> ds = [] then None
               else if bits > 128 then None
               else Some (pos + 1 + length ds, acc @ [word_of_nat part], colon, Some (unat bits))
          else if c = CHR ''*''
          then if dropWhile (\<lambda>x. x = CHR ''*'' \<or> x = CHR '':'') s \<noteq> [] \<or> colon < 8 then None
               else let acc1 = (if part \<noteq> 0 then acc @ [word_of_nat part] else acc)
                    in Some (pos + 1 + length s, acc1, colon, Some (length acc1 * 16))
          else None)"

definition place :: "nat \<Rightarrow> u16 list \<Rightarrow> irc_in_addr" where
  "place colon acc =
     (if colon < 8 then take colon acc @ replicate (8 - length acc) 0 @ drop colon acc
      else acc @ replicate (8 - length acc) 0)"

definition parse6 :: "bool \<Rightarrow> string \<Rightarrow> (nat \<times> irc_in_addr \<times> nat option) option" where
  "parse6 pb input =
     map_option (\<lambda>(pos, acc, colon, bits). (pos, place colon acc, bits))
       (case input of
          CHR '':'' # s \<Rightarrow>
            (case s of
               CHR '':'' # CHR '':'' # _ \<Rightarrow> None
             | CHR '':'' # s1 \<Rightarrow> parse6_loop pb (2, s1) 0 2 0 [] s1
             | _ \<Rightarrow> None)
        | _ \<Rightarrow> parse6_loop pb (0, []) 8 0 0 [] input)"

definition ipmask_parse :: "bool \<Rightarrow> string \<Rightarrow> (nat \<times> irc_in_addr \<times> nat option) option" where
  "ipmask_parse pb input =
     (let colon = length (takeWhile (\<lambda>c. c \<noteq> CHR '':'') input);
          dot = length (takeWhile (\<lambda>c. c \<noteq> CHR ''.'') input)
      in if CHR '':'' \<in> set input \<and> (CHR ''.'' \<notin> set input \<or> dot > colon) then parse6 pb input
         else if CHR ''.'' \<in> set input \<or> CHR ''/'' \<in> set input
         then map_option (\<lambda>(len, addr, bits).
                (len, [0, 0, 0, 0, 0, 65535, ucast (drop_bit 16 addr), ucast (addr AND 65535)], Some (bits + 96)))
              (ircd_aton_ip4 pb input)
         else (case input of
                 CHR ''*'' # s \<Rightarrow>
                   if dropWhile (\<lambda>c. c = CHR ''*'') s \<noteq> [] then None
                   else Some (length input, replicate 8 0, Some 0)
               | _ \<Rightarrow> None))"

section \<open>Reading segments back\<close>

lemma hex_digit_facts:
  assumes "d < 16"
  shows "hex_val (hexdigits ! d) = Some d" "hexdigits ! d \<noteq> CHR '':''" "hexdigits ! d \<noteq> CHR ''.''"
proof -
  have "\<forall>d \<in> set [0..<16]. hex_val (hexdigits ! d) = Some d \<and> hexdigits ! d \<noteq> CHR '':'' \<and> hexdigits ! d \<noteq> CHR ''.''"
    by code_simp
  with assms show "hex_val (hexdigits ! d) = Some d" "hexdigits ! d \<noteq> CHR '':''" "hexdigits ! d \<noteq> CHR ''.''"
    by auto
qed

lemma unat_u16_bound: "unat (x :: u16) < 65536" using unsigned_less [of x] by simp

lemma hex_expand:
  "(n :: nat) = 4096 * (n div 4096) + 256 * (n div 256 mod 16) + 16 * (n div 16 mod 16) + n mod 16"
proof -
  have "n div 256 = n div 16 div 16" "n div 4096 = n div 256 div 16"
    using div_mult2_eq [of n 16 16] div_mult2_eq [of n 256 16] by simp_all
  then show ?thesis
    using div_mult_mod_eq [of n 16] div_mult_mod_eq [of "n div 16" 16] div_mult_mod_eq [of "n div 256" 16] by linarith
qed

lemma print_part_cases:
  obtains (dig1) d where "d < 16" "unat x = d" "print_part x = [hexdigits ! d]"
  | (dig2) d e where "d < 16" "e < 16" "unat x = 16 * d + e" "print_part x = [hexdigits ! d, hexdigits ! e]"
  | (dig3) d e f where "d < 16" "e < 16" "f < 16" "unat x = 256 * d + 16 * e + f"
      "print_part x = [hexdigits ! d, hexdigits ! e, hexdigits ! f]"
  | (dig4) d e f g where "d < 16" "e < 16" "f < 16" "g < 16" "unat x = 4096 * d + 256 * e + 16 * f + g"
      "print_part x = [hexdigits ! d, hexdigits ! e, hexdigits ! f, hexdigits ! g]"
proof -
  let ?n = "unat x"
  consider "?n < 0x10" | "0x10 \<le> ?n" "?n < 0x100" | "0x100 \<le> ?n" "?n < 0x1000" | "0x1000 \<le> ?n" by linarith
  then show thesis
  proof cases
    case 1
    then show ?thesis by (intro dig1 [of ?n]) (simp_all add: print_part_def Let_def)
  next
    case 2
    then have "?n = 16 * (?n div 16 mod 16) + ?n mod 16" using hex_expand [of ?n] by simp
    with 2 show ?thesis by (intro dig2 [of "?n div 16 mod 16" "?n mod 16"]) (simp_all add: print_part_def Let_def)
  next
    case 3
    then have "?n = 256 * (?n div 256 mod 16) + 16 * (?n div 16 mod 16) + ?n mod 16" using hex_expand [of ?n] by simp
    with 3 show ?thesis
      by (intro dig3 [of "?n div 256 mod 16" "?n div 16 mod 16" "?n mod 16"]) (simp_all add: print_part_def Let_def)
  next
    case 4
    have "?n = 4096 * (?n div 4096) + 256 * (?n div 256 mod 16) + 16 * (?n div 16 mod 16) + ?n mod 16"
      using hex_expand [of ?n] by simp
    moreover have "?n div 4096 < 16" using unat_u16_bound [of x] by simp
    ultimately show ?thesis using 4
      by (intro dig4 [of "?n div 4096" "?n div 256 mod 16" "?n div 16 mod 16" "?n mod 16"])
        (simp_all add: print_part_def Let_def)
  qed
qed

lemma parse6_digit:
  "d < 16 \<Longrightarrow> length acc < 8 \<Longrightarrow> part * 16 + d \<le> 65535 \<Longrightarrow>
    parse6_loop pb ps colon pos part acc (hexdigits ! d # s) =
      parse6_loop pb ps colon (Suc pos) (part * 16 + d) acc s"
  by (simp add: hex_digit_facts)

lemma parse6_part:
  assumes "length acc < 8"
  shows "parse6_loop pb ps colon pos 0 acc (print_part x @ s) =
    parse6_loop pb ps colon (pos + length (print_part x)) (unat x) acc s"
  using unat_u16_bound [of x] assms
  by (cases x rule: print_part_cases) (simp_all add: parse6_digit algebra_simps del: parse6_loop.simps)

lemma print_part_start:
  obtains d t where "d < 16" "print_part x = hexdigits ! d # t"
  by (cases x rule: print_part_cases) auto

lemma length_print_part: "0 < length (print_part x) \<and> length (print_part x) \<le> 4"
  by (cases x rule: print_part_cases) auto

lemma print_part_no_dot: "CHR ''.'' \<notin> set (print_part x)" "CHR '':'' \<notin> set (print_part x)"
  by (cases x rule: print_part_cases; use hex_digit_facts(2,3) in fastforce)+

fun join :: "u16 list \<Rightarrow> string" where
  "join [] = []"
| "join [x] = print_part x"
| "join (x # y # ys) = print_part x @ CHR '':'' # join (y # ys)"

definition lead :: "u16 list \<Rightarrow> string" where
  "lead xs = concat (map (\<lambda>x. print_part x @ '':'') xs)"

lemma lead_simps [simp]: "lead [] = []" "lead (x # xs) = print_part x @ CHR '':'' # lead xs"
  by (simp_all add: lead_def)

lemma join_start: "\<exists>d t. d < 16 \<and> join (y # ys) = hexdigits ! d # t"
  by (cases ys; rule print_part_start [of y]) auto

lemma parse6_colon:
  assumes "length acc < 8" and "d < 16"
  shows "parse6_loop pb ps colon pos part acc (CHR '':'' # hexdigits ! d # t) =
    parse6_loop pb (Suc pos, hexdigits ! d # t) colon (Suc pos) 0 (acc @ [word_of_nat part]) (hexdigits ! d # t)"
proof -
  have "hex_val CHR '':'' = None" by (simp add: hex_val_def code_def)
  then show ?thesis
    using assms hex_digit_facts(2,3) [OF assms(2)]
    by (subst parse6_loop.simps)
      (auto simp: Let_def simp del: parse6_loop.simps split: char.split bool.splits)
qed

lemma parse6_join:
  assumes "ys \<noteq> []" and "length acc + length ys \<le> 8" and "colon = 8 \<Longrightarrow> length acc + length ys = 8"
  shows "parse6_loop pb ps colon pos 0 acc (join ys) =
    Some (pos + length (join ys), acc @ ys, colon, Some 128)"
  using assms
proof (induction ys arbitrary: ps pos acc rule: join.induct)
  case 1
  then show ?case by simp
next
  case (2 x)
  then show ?case
    using parse6_part [of acc pb ps colon pos x "[]"] by auto
next
  case (3 x y ys)
  obtain d t where dt: "d < 16" "join (y # ys) = hexdigits ! d # t" using join_start by blast
  have "parse6_loop pb ps colon pos 0 acc (join (x # y # ys)) =
    parse6_loop pb (Suc (pos + length (print_part x)), join (y # ys)) colon (Suc (pos + length (print_part x))) 0
      (acc @ [x]) (join (y # ys))"
    using 3(3) dt by (simp add: parse6_part parse6_colon del: parse6_loop.simps)
  also have "\<dots> = Some (Suc (pos + length (print_part x)) + length (join (y # ys)), (acc @ [x]) @ y # ys, colon, Some 128)"
    using 3(3,4) by (intro 3(1)) auto
  finally show ?case by simp
qed

lemma parse6_lead:
  assumes "xs \<noteq> []" and "length acc + length xs < 8"
  shows "\<exists>ps'. parse6_loop pb ps 8 pos 0 acc (lead xs @ CHR '':'' # t) =
    parse6_loop pb ps' (length (acc @ xs)) (pos + length (lead xs) + 1) 0 (acc @ xs) t"
  using assms
proof (induction xs arbitrary: ps pos acc)
  case Nil
  then show ?case by simp
next
  case (Cons x xs)
  have hc: "hex_val CHR '':'' = None" by (simp add: hex_val_def code_def)
  show ?case
  proof (cases xs)
    case Nil
    have "parse6_loop pb ps 8 pos 0 acc (lead [x] @ CHR '':'' # t) =
      parse6_loop pb (Suc (pos + length (print_part x)), CHR '':'' # t) (Suc (length acc)) (pos + length (print_part x) + 2) 0
        (acc @ [x]) t"
      using Cons(3) Nil by (simp add: parse6_part del: parse6_loop.simps) (subst parse6_loop.simps, simp add: hc Let_def del: parse6_loop.simps)
    then show ?thesis using Nil by (auto simp del: parse6_loop.simps)
  next
    case (Cons y ys)
    obtain d u where du: "d < 16" "lead (y # ys) @ CHR '':'' # t = hexdigits ! d # u"
      by (rule print_part_start [of y]) auto
    have "parse6_loop pb ps 8 pos 0 acc (lead (x # xs) @ CHR '':'' # t) =
      parse6_loop pb (Suc (pos + length (print_part x)), lead xs @ CHR '':'' # t) 8 (Suc (pos + length (print_part x))) 0
        (acc @ [x]) (lead xs @ CHR '':'' # t)"
      using Cons.prems(2) du Cons by (simp add: parse6_part parse6_colon del: parse6_loop.simps)
    moreover have "\<exists>ps'. parse6_loop pb (Suc (pos + length (print_part x)), lead xs @ CHR '':'' # t) 8 (Suc (pos + length (print_part x))) 0
        (acc @ [x]) (lead xs @ CHR '':'' # t) =
      parse6_loop pb ps' (length ((acc @ [x]) @ xs)) (Suc (pos + length (print_part x)) + length (lead xs) + 1) 0 ((acc @ [x]) @ xs) t"
      using Cons.prems Cons by (intro Cons.IH) auto
    ultimately show ?thesis by (auto simp add: algebra_simps simp del: parse6_loop.simps)
  qed
qed

section \<open>The text of an address\<close>

lemma join_Cons: "join (x # ys) = print_part x @ (if ys = [] then [] else CHR '':'' # join ys)"
  by (cases ys) auto

lemma ntoa_tail:
  assumes "length a = 8" and "mz = 0 \<or> ms < ii"
  shows "ntoa_loop a ms mz ii = join (drop ii a)"
  using assms
proof (induction "8 - ii" arbitrary: ii)
  case 0
  then show ?case by (subst ntoa_loop.simps) simp
next
  case (Suc n)
  have "ntoa_loop a ms mz (Suc ii) = join (drop (Suc ii) a)" using Suc.prems Suc.hyps(2) by (intro Suc.hyps(1)) auto
  moreover have "drop ii a = a ! ii # drop (Suc ii) a" using Suc by (simp add: Cons_nth_drop_Suc)
  ultimately show ?case
    using Suc by (subst ntoa_loop.simps) (auto simp: join_Cons)
qed

lemma ntoa_run_text:
  assumes "length a = 8" and "0 < mz" and "ii \<le> ms" and "ms + mz \<le> 8"
  shows "ntoa_loop a ms mz ii = lead (take (ms - ii) (drop ii a)) @ CHR '':'' # join (drop (ms + mz) a)"
  using assms
proof (induction "ms - ii" arbitrary: ii)
  case 0
  then have "ii = ms" by simp
  then show ?case using 0 by (subst ntoa_loop.simps) (simp add: ntoa_tail)
next
  case (Suc n)
  have "ntoa_loop a ms mz (Suc ii) = lead (take (ms - Suc ii) (drop (Suc ii) a)) @ CHR '':'' # join (drop (ms + mz) a)"
    using Suc.prems Suc.hyps(2) by (intro Suc.hyps(1)) auto
  moreover have "take (ms - ii) (drop ii a) = a ! ii # take (ms - Suc ii) (drop (Suc ii) a)"
    using Suc by (intro take_drop_step) auto
  ultimately show ?case
    using Suc by (subst ntoa_loop.simps) auto
qed

lemma ntoa_run_bounds:
  assumes "length a = 8" and "ntoa_run a = (ms, mz)"
  shows "1 \<le> ms \<and> ms + mz \<le> 8"
proof -
  obtain ii' ms' mz' cz' where sc: "zero_scan (drop 1 a) 1 1 0 0 = (ii', ms', mz', cz')"
    by (cases "zero_scan (drop 1 a) 1 1 0 0")
  show ?thesis
    using zero_scan_bounds [OF sc, of 1] sc assms by (auto simp: ntoa_run_def split: if_splits)
qed

lemma text_chars: "CHR ''.'' \<notin> set (join ys)" "CHR ''.'' \<notin> set (lead xs)"
proof -
  show "CHR ''.'' \<notin> set (join ys)" by (induction ys rule: join.induct) (auto simp: print_part_no_dot)
  show "CHR ''.'' \<notin> set (lead xs)" by (induction xs) (auto simp: print_part_no_dot)
qed

lemma length_text: "length (join ys) \<le> 5 * length ys" "length (lead xs) \<le> 5 * length xs"
proof -
  show "length (join ys) \<le> 5 * length ys"
  proof (induction ys rule: join.induct)
    case (2 x)
    then show ?case using length_print_part [of x] by simp
  next
    case (3 x y ys)
    then show ?case using length_print_part [of x] by simp
  qed simp
  show "length (lead xs) \<le> 5 * length xs"
  proof (induction xs)
    case (Cons x xs)
    then show ?case using length_print_part [of x] by simp
  qed simp
qed

lemma ipmask_parse_v6:
  assumes "CHR '':'' \<in> set s" and "CHR ''.'' \<notin> set s"
  shows "ipmask_parse pb s = parse6 pb s"
  using assms by (simp add: ipmask_parse_def)

lemma parse6_hex:
  assumes "d < 16"
  shows "parse6 pb (hexdigits ! d # t) =
    map_option (\<lambda>(pos, acc, colon, bits). (pos, place colon acc, bits))
      (parse6_loop pb (0, []) 8 0 0 [] (hexdigits ! d # t))"
  using hex_digit_facts(2) [OF assms]
  by (auto simp: parse6_def simp del: parse6_loop.simps split: char.split bool.splits)

lemma parse_full:
  assumes "length a = 8"
  shows "ipmask_parse pb (join a) = Some (length (join a), a, Some 128)"
proof -
  obtain x y ys where a: "a = x # y # ys" using assms by (cases a; cases "tl a") auto
  obtain d t where dt: "d < 16" "join a = hexdigits ! d # t" using join_start a by metis
  have "parse6 pb (join a) = map_option (\<lambda>(pos, acc, colon, bits). (pos, place colon acc, bits))
      (parse6_loop pb (0, []) 8 0 0 [] (join a))"
    unfolding dt(2) by (rule parse6_hex [OF dt(1)])
  also have "parse6_loop pb (0, []) 8 0 0 [] (join a) = Some (length (join a), a, 8, Some 128)"
    using assms a by (subst parse6_join) auto
  finally show ?thesis
    using assms a text_chars(1) [of a] by (simp add: ipmask_parse_v6 place_def)
qed

lemma parse_run:
  assumes "length a = 8" and "0 < mz" and "1 \<le> ms" and "ms + mz \<le> 8"
  defines "s \<equiv> lead (take ms a) @ CHR '':'' # join (drop (ms + mz) a)"
  shows "ipmask_parse pb s = Some (length s, zeroed a ms mz, Some 128)"
proof -
  let ?xs = "take ms a" and ?ys = "drop (ms + mz) a"
  have ne: "a \<noteq> []" using assms(1) by auto
  obtain x xs where x: "?xs = x # xs" using assms by (cases "?xs") auto
  obtain d t where dt: "d < 16" "s = hexdigits ! d # t"
    unfolding s_def x by (rule print_part_start [of x]) auto
  have "parse6 pb s = map_option (\<lambda>(pos, acc, colon, bits). (pos, place colon acc, bits))
      (parse6_loop pb (0, []) 8 0 0 [] s)"
    unfolding dt(2) by (rule parse6_hex [OF dt(1)])
  moreover obtain ps' where "parse6_loop pb (0, []) 8 0 0 [] s =
      parse6_loop pb ps' ms (length (lead ?xs) + 1) 0 ?xs (join ?ys)"
    using parse6_lead [of ?xs "[]" pb "(0, [])" 0 "join ?ys"] assms(1-4) ne unfolding s_def
    by (auto simp del: parse6_loop.simps)
  moreover have "parse6_loop pb ps' ms (length (lead ?xs) + 1) 0 ?xs (join ?ys) =
      Some (length s, ?xs @ (if ?ys = [] then [0] else ?ys), ms, Some 128)"
  proof (cases "?ys = []")
    case True
    then show ?thesis using assms(1-4) by (simp add: s_def)
  next
    case False
    then show ?thesis using assms(1-4) by (subst parse6_join) (auto simp: s_def)
  qed
  moreover have "place ms (?xs @ (if ?ys = [] then [0] else ?ys)) = zeroed a ms mz"
  proof (cases "?ys = []")
    case True
    then have "replicate (8 - Suc ms) 0 @ [0] = replicate mz (0 :: u16)"
      using assms(1-4) by (cases mz) (auto simp: replicate_append_same)
    with True assms(1-4) show ?thesis by (simp add: place_def zeroed_def min_def)
  next
    case False
    then show ?thesis using assms(1-4) by (auto simp: place_def zeroed_def min_def)
  qed
  ultimately show ?thesis
    using text_chars(1) [of ?ys] text_chars(2) [of ?xs] by (simp add: ipmask_parse_v6 s_def)
qed

section \<open>Dotted quads\<close>

lemma digit_char_facts:
  assumes "d < 10"
  shows "IsDigit (digit_char d)" "digit_val (digit_char d) = d" "digit_char d \<noteq> CHR ''.''" "digit_char d \<noteq> CHR ''/''"
    "digit_char d \<noteq> CHR ''*''" "digit_char d \<noteq> CHR '':''"
proof -
  have c: "code (digit_char d) = 48 + d" by (rule code_digit_char [OF assms])
  show "IsDigit (digit_char d)" using digit_char_digit [OF assms] by simp
  show "digit_val (digit_char d) = d" by (simp add: digit_val_def c)
  show "digit_char d \<noteq> CHR ''.''" "digit_char d \<noteq> CHR ''/''" "digit_char d \<noteq> CHR ''*''"
    "digit_char d \<noteq> CHR '':''"
    using c assms by (auto simp: code_def)
qed

lemma quad_cases:
  assumes "n < 256"
  obtains (dig1) d where "d < 10" "n = d" "quad n = [digit_char d]"
  | (dig2) d e where "d < 10" "e < 10" "n = 10 * d + e" "quad n = [digit_char d, digit_char e]"
  | (dig3) d e f where "d < 10" "e < 10" "f < 10" "n = 100 * d + 10 * e + f"
      "quad n = [digit_char d, digit_char e, digit_char f]"
proof -
  consider "n < 10" | "10 \<le> n" "n < 100" | "100 \<le> n" by linarith
  then show thesis
  proof cases
    case 1
    then show ?thesis by (intro dig1 [of n]) (simp_all add: quad_def)
  next
    case 2
    then show ?thesis by (intro dig2 [of "n div 10" "n mod 10"]) (simp_all add: quad_def)
  next
    case 3
    have "n div 100 = n div 10 div 10" using div_mult2_eq [of n 10 10] by simp
    then have "n = 100 * (n div 100) + 10 * (n div 10 mod 10) + n mod 10"
      using div_mult_mod_eq [of n 10] div_mult_mod_eq [of "n div 10" 10] by linarith
    with 3 assms show ?thesis
      by (intro dig3 [of "n div 100" "n div 10 mod 10" "n mod 10"]) (simp_all add: quad_def)
  qed
qed

lemma aton_digit:
  "d < 10 \<Longrightarrow> part * 10 + d \<le> 255 \<Longrightarrow>
    aton_loop pb dots pos part ip (digit_char d # s) = aton_loop pb dots (Suc pos) (part * 10 + d) ip s"
  by (simp add: digit_char_facts)

lemma aton_part:
  assumes "n < 256"
  shows "aton_loop pb dots pos 0 ip (quad n @ s) = aton_loop pb dots (pos + length (quad n)) n ip s"
  using assms by (cases rule: quad_cases [OF assms]) (simp_all add: aton_digit ac_simps del: aton_loop.simps)

lemma quad_start:
  assumes "n < 256"
  obtains d t where "d < 10" "quad n = digit_char d # t"
  by (cases rule: quad_cases [OF assms]) auto

lemma length_quad: "n < 256 \<Longrightarrow> 0 < length (quad n) \<and> length (quad n) \<le> 3"
  by (auto simp: quad_def)

lemma quad_no_colon: "n < 256 \<Longrightarrow> CHR '':'' \<notin> set (quad n)"
  by (erule quad_cases) (auto dest: digit_char_facts(6) [THEN not_sym])

lemma aton_dot:
  assumes "dots < 3" and "n < 256"
  shows "aton_loop pb dots pos part ip (CHR ''.'' # quad n @ s) =
    aton_loop pb (Suc dots) (Suc pos + length (quad n)) n (ip OR push_bit (24 - 8 * dots) (word_of_nat part)) s"
proof -
  obtain d t where dt: "d < 10" "quad n = digit_char d # t" by (rule quad_start [OF assms(2)])
  have "aton_loop pb dots pos part ip (CHR ''.'' # digit_char d # t @ s) =
    aton_loop pb (Suc dots) (Suc pos) 0 (ip OR push_bit (24 - 8 * dots) (word_of_nat part)) (digit_char d # t @ s)"
    using assms(1) digit_char_facts(3,5) [OF dt(1)]
    by (subst aton_loop.simps) (auto simp: Let_def simp del: aton_loop.simps split: char.split bool.splits)
  then show ?thesis using aton_part [OF assms(2), of pb "Suc dots" "Suc pos"] dt by simp
qed

definition dotted :: "nat \<Rightarrow> nat \<Rightarrow> nat \<Rightarrow> nat \<Rightarrow> string" where
  "dotted a b c d = quad a @ CHR ''.'' # quad b @ CHR ''.'' # quad c @ CHR ''.'' # quad d"

lemma aton_dotted:
  assumes "a < 256" "b < 256" "c < 256" "d < 256"
  shows "ircd_aton_ip4 pb (dotted a b c d) =
    Some (length (dotted a b c d), push_bit 24 (word_of_nat a) OR push_bit 16 (word_of_nat b) OR
      push_bit 8 (word_of_nat c) OR word_of_nat d, 32)"
proof -
  obtain e t where et: "e < 10" "quad a = digit_char e # t" by (rule quad_start [OF assms(1)])
  have "ircd_aton_ip4 pb (dotted a b c d) = aton_loop pb 0 0 0 0 (dotted a b c d)"
    using digit_char_facts(3) [OF et(1)]
    by (auto simp: ircd_aton_ip4_def dotted_def et simp del: aton_loop.simps split: char.split bool.splits)
  also have "\<dots> = aton_loop pb 3 (length (dotted a b c d)) d
      (push_bit 24 (word_of_nat a) OR push_bit 16 (word_of_nat b) OR push_bit 8 (word_of_nat c)) []"
    using aton_dot [OF _ assms(4), where s = "[]"] assms
    by (simp add: dotted_def aton_part aton_dot del: aton_loop.simps) (simp add: ac_simps)
  finally show ?thesis by (simp add: ac_simps)
qed

lemma split_bytes:
  fixes x :: u16
  shows "(word_of_nat (unat x div 256) :: u32) = drop_bit 8 (ucast x)"
    "(word_of_nat (unat x mod 256) :: u32) = take_bit 8 (ucast x)"
  by (transfer; simp add: drop_bit_eq_div take_bit_eq_mod nat_div_distrib nat_mod_distrib of_nat_div of_nat_mod)+

definition mapped_addr :: "irc_in_addr \<Rightarrow> irc_in_addr" where
  "mapped_addr a = [0, 0, 0, 0, 0, 65535, a ! 6, a ! 7]"

lemma ntoa_dotted:
  assumes "irc_in_addr_is_ipv4 a"
  shows "ircd_ntoa_r a = dotted (unat (a ! 6) div 256) (unat (a ! 6) mod 256) (unat (a ! 7) div 256) (unat (a ! 7) mod 256)"
proof -
  have "unat x div 256 < 256" for x :: u16 using unat_u16_bound [of x] by simp
  then show ?thesis using assms by (simp add: ircd_ntoa_r_def IpQuadTab_def dotted_def)
qed

lemma ntoa_v4_parses:
  assumes "irc_in_addr_is_ipv4 a"
  shows "ipmask_parse pb (ircd_ntoa_r a) = Some (length (ircd_ntoa_r a), mapped_addr a, Some 128)"
    "length (ircd_ntoa_r a) < SOCKIPLEN"
proof -
  let ?A = "unat (a ! 6) div 256" and ?B = "unat (a ! 6) mod 256"
    and ?C = "unat (a ! 7) div 256" and ?D = "unat (a ! 7) mod 256"
  let ?ip = "push_bit 24 (word_of_nat ?A) OR push_bit 16 (word_of_nat ?B) OR push_bit 8 (word_of_nat ?C) OR
    word_of_nat ?D :: u32"
  have lt: "?A < 256" "?B < 256" "?C < 256" "?D < 256" using unat_u16_bound [of "a ! 6"] unat_u16_bound [of "a ! 7"] by simp_all
  have "?ip = two_segments (a ! 6) (a ! 7)"
    unfolding split_bytes two_segments_def
    by (rule bit_word_eqI) (auto simp: bit_simps dest: bit_imp_le_length)
  moreover have "CHR '':'' \<notin> set (dotted ?A ?B ?C ?D)" "CHR ''.'' \<in> set (dotted ?A ?B ?C ?D)"
    using lt by (simp_all add: dotted_def quad_no_colon)
  ultimately show "ipmask_parse pb (ircd_ntoa_r a) = Some (length (ircd_ntoa_r a), mapped_addr a, Some 128)"
    unfolding ntoa_dotted [OF assms] ipmask_parse_def Let_def aton_dotted [OF lt]
    by (simp add: two_segments_parts mapped_addr_def)
  show "length (ircd_ntoa_r a) < SOCKIPLEN"
    using lt [THEN length_quad] unfolding ntoa_dotted [OF assms] dotted_def SOCKIPLEN_def by simp
qed

lemma ntoa_v6_parses:
  assumes "length a = 8" and "\<not> irc_in_addr_is_ipv4 a" and run: "ntoa_run a = (ms, mz)"
  shows "ipmask_parse pb (ircd_ntoa_r a) = Some (length (ircd_ntoa_r a), zeroed a ms mz, Some 128)"
    "length (ircd_ntoa_r a) < SOCKIPLEN"
proof -
  have b: "1 \<le> ms" "ms + mz \<le> 8" using ntoa_run_bounds [OF assms(1) run] by auto
  have form: "ircd_ntoa_r a = (if mz = 0 then join a else lead (take ms a) @ CHR '':'' # join (drop (ms + mz) a))"
    using assms b by (auto simp: ircd_ntoa_r_def ntoa_tail ntoa_run_text)
  show "ipmask_parse pb (ircd_ntoa_r a) = Some (length (ircd_ntoa_r a), zeroed a ms mz, Some 128)"
    using parse_full [OF assms(1)] parse_run [OF assms(1) _ b] by (auto simp: form zeroed_def)
  show "length (ircd_ntoa_r a) < SOCKIPLEN"
    using length_text(1) [of a] length_text(2) [of "take ms a"] length_text(1) [of "drop (ms + mz) a"] assms(1) b
    by (auto simp: form SOCKIPLEN_def)
qed

section \<open>The round trip\<close>

lemma zero_scan_skip:
  "0 \<notin> set xs \<Longrightarrow> cz \<le> mz \<Longrightarrow> zero_scan (xs @ r) ii ms mz cz = zero_scan r (ii + length xs) ms mz cz"
  by (induction xs arbitrary: ii) auto

lemma ntoa_run_contiguous:
  assumes "a = x # xs @ replicate m 0 @ ys" and "0 \<notin> set xs" "0 \<notin> set ys"
  shows "ntoa_run a = (if m = 0 then 1 else Suc (length xs), m)"
proof (cases "m = 0")
  case True
  then show ?thesis using assms zero_scan_nonzeros [of "xs @ ys"] by (simp add: ntoa_run_def)
next
  case False
  then show ?thesis
    using assms zero_scan_zeros [of m "[]" "Suc (length xs)" 1 0 0]
    by (cases ys) (simp_all add: ntoa_run_def zero_scan_skip zero_scan_zeros zero_scan_nonzeros)
qed

definition text_addr :: "irc_in_addr \<Rightarrow> irc_in_addr" where
  "text_addr a = (if irc_in_addr_is_ipv4 a then mapped_addr a
     else case ntoa_run a of (ms, mz) \<Rightarrow> zeroed a ms mz)"

lemma text_addr_stable:
  assumes "length a = 8"
    and "if irc_in_addr_is_ipv4 a then a ! 5 = 65535
      else \<exists>x xs m ys. a = x # xs @ replicate m 0 @ ys \<and> 0 \<notin> set xs \<and> 0 \<notin> set ys"
  shows "text_addr a = a"
proof (cases "irc_in_addr_is_ipv4 a")
  case True
  have "mapped_addr a = a"
    using True assms by (intro nth_equalityI)
      (auto simp: mapped_addr_def irc_in_addr_is_ipv4_def less_Suc_eq numeral_eq_Suc)
  with True show ?thesis by (simp add: text_addr_def)
next
  case False
  then obtain x xs m ys where a: "a = x # xs @ replicate m 0 @ ys" "0 \<notin> set xs" "0 \<notin> set ys"
    using assms(2) by auto
  have "zeroed a (if m = 0 then 1 else Suc (length xs)) m = a" by (simp add: zeroed_def a(1))
  with False show ?thesis by (simp add: text_addr_def ntoa_run_contiguous [OF a])
qed

text \<open>C26. The text of every address fits the buffers of \<open>SOCKIPLEN\<close> bytes, and parsing it reads
  all of it, as a full-length mask of the address \<open>text_addr a\<close>: an IPv4 address in mapped form, or the
  IPv6 address with the run of segments that was printed as two colons set to zero. Mapped IPv4 addresses and
  IPv6 addresses whose zero segments behind the first segment are adjacent come back unchanged.\<close>

theorem ipmask_ntoa_roundtrip:
  assumes "length a = 8"
  shows "length (ircd_ntoa_r a) < SOCKIPLEN \<and>
    ipmask_parse pb (ircd_ntoa_r a) = Some (length (ircd_ntoa_r a), text_addr a, Some 128) \<and>
    ((if irc_in_addr_is_ipv4 a then a ! 5 = 65535
      else \<exists>x xs m ys. a = x # xs @ replicate m 0 @ ys \<and> 0 \<notin> set xs \<and> 0 \<notin> set ys) \<longrightarrow> text_addr a = a)"
  using ntoa_v4_parses [of a] ntoa_v6_parses [OF assms] text_addr_stable [OF assms]
  by (auto simp: text_addr_def split: prod.splits)

lemmas ntoa_eval = ircd_ntoa_r_def irc_in_addr_is_ipv4_def ntoa_run_def ntoa_loop.simps print_part_def hexdigits_def
  text_addr_def zeroed_def

lemmas ipmask_eval = ipmask_parse_def parse6_def ircd_aton_ip4_def hex_val_def code_def IsDigit_iff digit_val_def
  mask_digits_def place_def

theorem ipmask_ntoa_roundtrip_witness:
  "ircd_ntoa_r [0x2001, 0xdb8, 0, 0, 0, 0, 0, 0x1f] = ''2001:db8::1f'' \<and>
   ipmask_parse True ''2001:db8::1f'' = Some (12, [0x2001, 0xdb8, 0, 0, 0, 0, 0, 0x1f], Some 128)"
proof -
  have "ircd_ntoa_r [0x2001, 0xdb8, 0, 0, 0, 0, 0, 0x1f] = ''2001:db8::1f''" by (simp add: ntoa_eval)
  moreover have "text_addr [0x2001, 0xdb8, 0, 0, 0, 0, 0, 0x1f] = [0x2001, 0xdb8, 0, 0, 0, 0, 0, 0x1f]"
    by (simp add: ntoa_eval)
  ultimately show ?thesis
    using ipmask_ntoa_roundtrip [of "[0x2001, 0xdb8, 0, 0, 0, 0, 0, 0x1f]" True] by simp
qed

section \<open>Limits\<close>

text \<open>
  The count of zeros is not reset when a shorter run ends, so that an address with several runs of zeros can be printed
  as another address.
\<close>

lemma ntoa_misprints:
  "ircd_ntoa_r [1, 0, 0, 2, 0, 3, 0, 0] = ''1:0:0:2:0::''" "text_addr [1, 0, 0, 2, 0, 3, 0, 0] = [1, 0, 0, 2, 0, 0, 0, 0]"
  by (simp_all add: ntoa_eval)

text \<open>
  Inputs that the parser treats unlike their notation: a dotted quad directly behind two colons in
  the middle of an address is refused (its start is taken to be the second colon), a colon behind the eighth segment
  is accepted and the number of mask bits is then not written, the decimal mask length wraps around, and a
  dotted quad may end in a dot.
\<close>

lemma ipmask_parse_oddities:
  "ipmask_parse True ''64:ff9b::192.0.2.33'' = None"
  "ipmask_parse True ''1:2:3:4:5:6:7:8:'' = Some (16, [1, 2, 3, 4, 5, 6, 7, 8], None)"
  "ipmask_parse True ''1.2.3.4/4294967304'' = Some (18, [0, 0, 0, 0, 0, 65535, 0x102, 0x304], Some 104)"
  "ipmask_parse True ''1.2.3.'' = Some (6, [0, 0, 0, 0, 0, 65535, 0x102, 0x300], Some 128)"
  by (simp_all add: ipmask_eval)

end
