(* ===== verification/Utf8.thy ===== *)
theory Utf8
  imports Ircd_String
begin

text \<open>
  The UTF-8 check of src/ircd/ircd_string.c against the encoding itself: a reference encoder of
  code points (RFC 3629) and the set of code points that may appear in text. The byte ranges
  tested by \<^const>\<open>utf8_step\<close> are shown to be the encodings of single code points.
\<close>

section \<open>The encoding\<close>

definition utf8_bytes :: "nat \<Rightarrow> nat list" where
  "utf8_bytes cp =
     (if cp < 0x80 then [cp]
      else if cp < 0x800 then [0xC0 + cp div 64, 0x80 + cp mod 64]
      else if cp < 0x10000 then [0xE0 + cp div 4096, 0x80 + cp div 64 mod 64, 0x80 + cp mod 64]
      else [0xF0 + cp div 262144, 0x80 + cp div 4096 mod 64, 0x80 + cp div 64 mod 64, 0x80 + cp mod 64])"

definition utf8_encode :: "nat \<Rightarrow> string" where
  "utf8_encode cp = map char_of (utf8_bytes cp)"

definition text_scalar :: "nat \<Rightarrow> bool" where
  "text_scalar cp \<longleftrightarrow> cp \<in> {0x09, 0x0A, 0x0D} \<or> between 0x20 cp 0x7E \<or>
     between 0x80 cp 0x10FFFF \<and> \<not> between 0xD800 cp 0xDFFF"

lemma byte_at_append: "byte_at (s @ t) i = (if i < length s then map code s ! i else byte_at t (i - length s))"
  by (auto simp: byte_at_def nth_append)

lemma utf8_length: "length (utf8_encode cp) = length (utf8_bytes cp)"
  by (simp add: utf8_encode_def)

lemma utf8_bytes_ranges:
  assumes "text_scalar cp"
  obtains (one) "utf8_bytes cp = [cp]" "cp \<in> {0x09, 0x0A, 0x0D} \<or> between 0x20 cp 0x7E"
  | (two) b0 b1 where "utf8_bytes cp = [b0, b1]" "between 0xC2 b0 0xDF" "between 0x80 b1 0xBF"
  | (three) b0 b1 b2 where "utf8_bytes cp = [b0, b1, b2]" "between 0xE0 b0 0xEF" "between 0x80 b1 0xBF"
      "between 0x80 b2 0xBF" "b0 = 0xE0 \<Longrightarrow> 0xA0 \<le> b1" "b0 = 0xED \<Longrightarrow> b1 \<le> 0x9F"
  | (four) b0 b1 b2 b3 where "utf8_bytes cp = [b0, b1, b2, b3]" "between 0xF0 b0 0xF4" "between 0x80 b1 0xBF"
      "between 0x80 b2 0xBF" "between 0x80 b3 0xBF" "b0 = 0xF0 \<Longrightarrow> 0x90 \<le> b1" "b0 = 0xF4 \<Longrightarrow> b1 \<le> 0x8F"
proof -
  let ?p = "cp div 4096" and ?q = "cp div 64" and ?o = "cp div 262144"
  have r: "cp \<in> {0x09, 0x0A, 0x0D} \<or> between 0x20 cp 0x7E \<or> 0x80 \<le> cp \<and> cp \<le> 0x10FFFF \<and> (cp < 0xD800 \<or> 0xDFFF < cp)"
    using assms by (auto simp: text_scalar_def between_def)
  have m: "cp mod 64 < 64" "?q mod 64 < 64" "?p mod 64 < 64" by simp_all
  have e: "cp = 64 * ?q + cp mod 64" "?q = 64 * ?p + ?q mod 64" "?p = 64 * ?o + ?p mod 64"
    using div_mult2_eq [of cp 64 64] div_mult2_eq [of cp 4096 64] by simp_all
  consider "cp < 0x80" | "0x80 \<le> cp" "cp < 0x800" | "0x800 \<le> cp" "cp < 0x10000" | "0x10000 \<le> cp"
    by linarith
  then show ?thesis
  proof cases
    case 1
    then show ?thesis using r by (intro one) (auto simp: utf8_bytes_def)
  next
    case 2
    then have "2 \<le> ?q" "?q < 32" using e m by linarith+
    with 2 m show ?thesis by (intro two [of "0xC0 + ?q" "0x80 + cp mod 64"]) (simp_all add: utf8_bytes_def between_def)
  next
    case 3
    then have "cp < 0xD800 \<or> 0xDFFF < cp" using r by (auto simp: between_def)
    then have "?q mod 64 < 32" if "?p = 13" using e m that by linarith
    moreover have "?p < 16" "32 \<le> ?q mod 64" if "?p = 0" using e m 3 that by linarith+
    moreover have "?p < 16" using e m 3 by linarith
    ultimately show ?thesis
      using 3 m by (intro three [of "0xE0 + ?p" "0x80 + ?q mod 64" "0x80 + cp mod 64"]) (simp_all add: utf8_bytes_def between_def)
  next
    case 4
    then have "cp \<le> 0x10FFFF" using r by (auto simp: between_def)
    then have "?o \<le> 4" "?p mod 64 < 16" if "?o = 4" using e m that by linarith+
    moreover have "16 \<le> ?p mod 64" if "?o = 0" using e m 4 that by linarith
    moreover have "?o \<le> 4" using \<open>cp \<le> 0x10FFFF\<close> e m by linarith
    ultimately show ?thesis
      using 4 m by (intro four [of "0xF0 + ?o" "0x80 + ?p mod 64" "0x80 + ?q mod 64" "0x80 + cp mod 64"])
        (simp_all add: utf8_bytes_def between_def)
  qed
qed

lemma utf8_bytes_small: "text_scalar cp \<Longrightarrow> b \<in> set (utf8_bytes cp) \<Longrightarrow> b < 256"
  by (cases cp rule: utf8_bytes_ranges) (auto simp: between_def)

lemma code_utf8_encode: "text_scalar cp \<Longrightarrow> map code (utf8_encode cp) = utf8_bytes cp"
  using utf8_bytes_small [of cp] by (simp add: utf8_encode_def code_char_of cong: map_cong map_idI)

lemma byte_at_Cons [simp]: "byte_at (c # s) 0 = code c" "byte_at (c # s) (Suc i) = byte_at s i"
  by (simp_all add: byte_at_def)

lemma utf8_step_bytes1:
  assumes "map code s = [b0]" and "b0 \<in> {0x09, 0x0A, 0x0D} \<or> between 0x20 b0 0x7E"
  shows "utf8_step (s @ t) = Some 1"
proof -
  have "length s = 1" using arg_cong [OF assms(1), of length] by simp
  then have "byte_at (s @ t) 0 = b0" using assms(1) by (simp add: byte_at_append)
  then show ?thesis using assms(2) unfolding utf8_step_def Let_def by auto
qed

lemma utf8_step_bytes2:
  assumes "map code s = [b0, b1]" and "between 0xC2 b0 0xDF" "between 0x80 b1 0xBF"
  shows "utf8_step (s @ t) = Some 2"
proof -
  have "length s = 2" using arg_cong [OF assms(1), of length] by simp
  then have "byte_at (s @ t) 0 = b0" "byte_at (s @ t) 1 = b1" using assms(1) by (simp_all add: byte_at_append)
  moreover have "\<not> (b0 = 0x09 \<or> b0 = 0x0A \<or> b0 = 0x0D \<or> between 0x20 b0 0x7E)"
    using assms(2) by (auto simp: between_def)
  ultimately show ?thesis using assms(2,3) unfolding utf8_step_def Let_def by auto
qed

lemma utf8_step_bytes3:
  assumes "map code s = [b0, b1, b2]" and "between 0xE0 b0 0xEF" "between 0x80 b1 0xBF" "between 0x80 b2 0xBF"
    "b0 = 0xE0 \<Longrightarrow> 0xA0 \<le> b1" "b0 = 0xED \<Longrightarrow> b1 \<le> 0x9F"
  shows "utf8_step (s @ t) = Some 3"
proof -
  have "length s = 3" using arg_cong [OF assms(1), of length] by simp
  then have "byte_at (s @ t) 0 = b0" "byte_at (s @ t) 1 = b1" "byte_at (s @ t) 2 = b2"
    using assms(1) by (simp_all add: byte_at_append)
  moreover have "b0 = 0xE0 \<or> (between 0xE1 b0 0xEC \<or> b0 = 0xEE \<or> b0 = 0xEF) \<or> b0 = 0xED"
    using assms(2) by (simp add: between_def) linarith
  moreover have "\<not> (b0 = 0x09 \<or> b0 = 0x0A \<or> b0 = 0x0D \<or> between 0x20 b0 0x7E)" "\<not> between 0xC2 b0 0xDF"
    using assms(2) by (auto simp: between_def)
  moreover have "b0 = 0xE0 \<Longrightarrow> between 0xA0 b1 0xBF" "b0 = 0xED \<Longrightarrow> between 0x80 b1 0x9F"
    using assms(3,5,6) by (auto simp: between_def)
  ultimately show ?thesis
    using assms(3,4) unfolding utf8_step_def Let_def by auto
qed

lemma utf8_step_bytes4:
  assumes "map code s = [b0, b1, b2, b3]" and "between 0xF0 b0 0xF4" "between 0x80 b1 0xBF" "between 0x80 b2 0xBF"
    "between 0x80 b3 0xBF" "b0 = 0xF0 \<Longrightarrow> 0x90 \<le> b1" "b0 = 0xF4 \<Longrightarrow> b1 \<le> 0x8F"
  shows "utf8_step (s @ t) = Some 4"
proof -
  have "length s = 4" using arg_cong [OF assms(1), of length] by simp
  then have "byte_at (s @ t) 0 = b0" "byte_at (s @ t) 1 = b1" "byte_at (s @ t) 2 = b2" "byte_at (s @ t) 3 = b3"
    using assms(1) by (simp_all add: byte_at_append)
  moreover have "b0 = 0xF0 \<or> between 0xF1 b0 0xF3 \<or> b0 = 0xF4"
    using assms(2) by (simp add: between_def) linarith
  moreover have "\<not> (b0 = 0x09 \<or> b0 = 0x0A \<or> b0 = 0x0D \<or> between 0x20 b0 0x7E)" "\<not> between 0xC2 b0 0xDF"
    "b0 \<noteq> 0xE0" "\<not> between 0xE1 b0 0xEC" "b0 \<noteq> 0xEE" "b0 \<noteq> 0xEF" "b0 \<noteq> 0xED"
    using assms(2) by (auto simp: between_def)
  moreover have "b0 = 0xF0 \<Longrightarrow> between 0x90 b1 0xBF" "b0 = 0xF4 \<Longrightarrow> between 0x80 b1 0x8F"
    using assms(3,6,7) by (auto simp: between_def)
  ultimately show ?thesis
    using assms(3,4,5) unfolding utf8_step_def Let_def by auto
qed

lemma utf8_step_encode:
  assumes "text_scalar cp"
  shows "utf8_step (utf8_encode cp @ s) = Some (length (utf8_encode cp))"
  using assms
proof (cases rule: utf8_bytes_ranges)
  case one
  then show ?thesis using assms utf8_step_bytes1 by (simp add: code_utf8_encode utf8_length)
next
  case two
  then show ?thesis using assms utf8_step_bytes2 by (simp add: code_utf8_encode utf8_length)
next
  case three
  then show ?thesis using assms utf8_step_bytes3 [of "utf8_encode cp"] by (simp add: code_utf8_encode utf8_length)
next
  case four
  then show ?thesis using assms utf8_step_bytes4 [of "utf8_encode cp"] by (simp add: code_utf8_encode utf8_length)
qed


lemma bytes_take: "n \<le> length s \<Longrightarrow> map code (take n s) = map (byte_at s) [0..<n]"
  by (auto simp: byte_at_def intro!: nth_equalityI)

lemma byte_at_pos: "0 < byte_at s i \<Longrightarrow> i < length s"
  by (simp add: byte_at_def split: if_splits)

lemma upt_bytes: "map f [0..<1] = [f 0]" "map f [0..<2] = [f 0, f 1]" "map f [0..<3] = [f 0, f 1, f 2]"
  "map f [0..<4] = [f 0, f 1, f 2, f (3 :: nat)]"
  by (simp_all add: upt_rec numeral_2_eq_2 numeral_3_eq_3 numeral_eq_Suc)

lemma div_mod_64: "z < 64 \<Longrightarrow> (64 * q + z) div 64 = q" "z < 64 \<Longrightarrow> (64 * q + z) mod 64 = (z :: nat)"
  by simp_all

lemma utf8_scalars:
  "0x800 \<le> cp \<Longrightarrow> cp < 0x10000 \<Longrightarrow> cp < 0xD800 \<or> 0xDFFF < cp \<Longrightarrow> text_scalar cp \<and>
     utf8_bytes cp = [0xE0 + cp div 4096, 0x80 + cp div 64 mod 64, 0x80 + cp mod 64]"
  "0x10000 \<le> cp \<Longrightarrow> cp \<le> 0x10FFFF \<Longrightarrow> text_scalar cp \<and>
     utf8_bytes cp = [0xF0 + cp div 262144, 0x80 + cp div 4096 mod 64, 0x80 + cp div 64 mod 64, 0x80 + cp mod 64]"
  by (auto simp: text_scalar_def between_def utf8_bytes_def)

lemma utf8_decode2:
  assumes "between 0xC2 b0 0xDF" "between 0x80 b1 0xBF"
  shows "\<exists>cp. text_scalar cp \<and> utf8_bytes cp = [b0, b1]"
proof -
  define x y where "x = b0 - 0xC0" and "y = b1 - 0x80"
  then have xy: "b0 = 0xC0 + x" "b1 = 0x80 + y" "2 \<le> x" "x < 32" "y < 64"
    using assms unfolding between_def by linarith+
  let ?cp = "64 * x + y"
  have "?cp div 64 = x" "?cp mod 64 = y" "0x80 \<le> ?cp" "?cp < 0x800" using xy by simp_all
  then have "text_scalar ?cp \<and> utf8_bytes ?cp = [b0, b1]"
    using xy(1,2) by (simp add: text_scalar_def between_def utf8_bytes_def)
  then show ?thesis ..
qed

lemma div_64s: "n div 4096 = n div 64 div (64 :: nat)" "n div 262144 = n div 64 div 64 div (64 :: nat)"
  using div_mult2_eq [of n 64 64] div_mult2_eq [of n 4096 64] by simp_all

lemma utf8_decode3:
  assumes "between 0xE0 b0 0xEF" "between 0x80 b1 0xBF" "between 0x80 b2 0xBF"
    and "b0 = 0xE0 \<Longrightarrow> 0xA0 \<le> b1" "b0 = 0xED \<Longrightarrow> b1 \<le> 0x9F"
  shows "\<exists>cp. text_scalar cp \<and> utf8_bytes cp = [b0, b1, b2]"
proof -
  define x y z where "x = b0 - 0xE0" and "y = b1 - 0x80" and "z = b2 - 0x80"
  then have xy: "b0 = 0xE0 + x" "b1 = 0x80 + y" "b2 = 0x80 + z" "x < 16" "y < 64" "z < 64"
    using assms(1-3) unfolding between_def by linarith+
  have s: "x = 0 \<Longrightarrow> 32 \<le> y" "x = 13 \<Longrightarrow> y < 32" using assms(4,5) xy(1,2) by simp_all
  define q where "q = 64 * x + y"
  define cp where "cp = 64 * q + z"
  have d: "cp div 64 = q" "cp mod 64 = z" "q div 64 = x" "q mod 64 = y"
    unfolding cp_def q_def by (rule div_mod_64, rule xy)+
  have "32 \<le> q" using s(1) unfolding q_def by (cases "x = 0") simp_all
  moreover have "q < 1024" using xy(4,5) unfolding q_def by simp
  moreover have "q < 864 \<or> 896 \<le> q"
    using s(2) xy(5) unfolding q_def by (cases "x < 13"; cases "x = 13") simp_all
  ultimately have "0x800 \<le> cp" "cp < 0x10000" "cp < 0xD800 \<or> 0xDFFF < cp"
    using xy(6) unfolding cp_def by auto
  then have "text_scalar cp \<and> utf8_bytes cp = [b0, b1, b2]"
    using utf8_scalars(1) [of cp] unfolding div_64s d xy(1-3) by blast
  then show ?thesis ..
qed

lemma utf8_decode4:
  assumes "between 0xF0 b0 0xF4" "between 0x80 b1 0xBF" "between 0x80 b2 0xBF" "between 0x80 b3 0xBF"
    and "b0 = 0xF0 \<Longrightarrow> 0x90 \<le> b1" "b0 = 0xF4 \<Longrightarrow> b1 \<le> 0x8F"
  shows "\<exists>cp. text_scalar cp \<and> utf8_bytes cp = [b0, b1, b2, b3]"
proof -
  define w x y z where "w = b0 - 0xF0" and "x = b1 - 0x80" and "y = b2 - 0x80" and "z = b3 - 0x80"
  then have xy: "b0 = 0xF0 + w" "b1 = 0x80 + x" "b2 = 0x80 + y" "b3 = 0x80 + z" "w \<le> 4" "x < 64" "y < 64" "z < 64"
    using assms(1-4) unfolding between_def by linarith+
  have s: "w = 0 \<Longrightarrow> 16 \<le> x" "w = 4 \<Longrightarrow> x < 16" using assms(5,6) xy(1,2) by simp_all
  define p where "p = 64 * w + x"
  define q where "q = 64 * p + y"
  define cp where "cp = 64 * q + z"
  have d: "cp div 64 = q" "cp mod 64 = z" "q div 64 = p" "q mod 64 = y" "p div 64 = w" "p mod 64 = x"
    unfolding cp_def q_def p_def by (rule div_mod_64, rule xy)+
  have p: "16 \<le> p" using s(1) unfolding p_def by (cases "w = 0") simp_all
  have p': "p \<le> 271" using s(2) xy(5,6) unfolding p_def by (cases "w = 4") simp_all
  have "0x10000 \<le> cp" "cp \<le> 0x10FFFF"
    using p p' xy(7,8) unfolding cp_def q_def by simp_all
  then have "text_scalar cp \<and> utf8_bytes cp = [b0, b1, b2, b3]"
    using utf8_scalars(2) [of cp] unfolding div_64s d xy(1-4) by blast
  then show ?thesis ..
qed

lemma utf8_step_cases:
  assumes "utf8_step s = Some n"
  obtains (one) "n = 1" "byte_at s 0 \<in> {0x09, 0x0A, 0x0D} \<or> between 0x20 (byte_at s 0) 0x7E"
  | (two) "n = 2" "between 0xC2 (byte_at s 0) 0xDF" "between 0x80 (byte_at s 1) 0xBF"
  | (three) "n = 3" "between 0xE0 (byte_at s 0) 0xEF" "between 0x80 (byte_at s 1) 0xBF" "between 0x80 (byte_at s 2) 0xBF"
      "byte_at s 0 = 0xE0 \<Longrightarrow> 0xA0 \<le> byte_at s 1" "byte_at s 0 = 0xED \<Longrightarrow> byte_at s 1 \<le> 0x9F"
  | (four) "n = 4" "between 0xF0 (byte_at s 0) 0xF4" "between 0x80 (byte_at s 1) 0xBF" "between 0x80 (byte_at s 2) 0xBF"
      "between 0x80 (byte_at s 3) 0xBF" "byte_at s 0 = 0xF0 \<Longrightarrow> 0x90 \<le> byte_at s 1"
      "byte_at s 0 = 0xF4 \<Longrightarrow> byte_at s 1 \<le> 0x8F"
proof -
  let ?a = "byte_at s 0" and ?b = "byte_at s 1"
  from assms show ?thesis
    unfolding utf8_step_def Let_def
  proof (split if_split_asm, goal_cases)
    case 1 then show ?case by (intro one) auto
  next
    case 2
    then show ?case
    proof (split if_split_asm, goal_cases)
      case 1 then show ?case by (intro two) auto
    next
      case 2
      then show ?case
      proof (split if_split_asm, goal_cases)
        case 1
        then have n: "n = 3" and t: "between 0x80 (byte_at s 2) 0xBF"
          and d: "?a = 0xE0 \<and> between 0xA0 ?b 0xBF \<or> (between 0xE1 ?a 0xEC \<or> ?a = 0xEE \<or> ?a = 0xEF) \<and> between 0x80 ?b 0xBF
            \<or> ?a = 0xED \<and> between 0x80 ?b 0x9F"
          by auto
        have "between 0xE0 ?a 0xEF" "between 0x80 ?b 0xBF" "?a = 0xE0 \<Longrightarrow> 0xA0 \<le> ?b" "?a = 0xED \<Longrightarrow> ?b \<le> 0x9F"
          using d by (auto simp: between_def)
        with n t show ?case by (intro three)
      next
        case 2
        then have n: "n = 4" and t: "between 0x80 (byte_at s 2) 0xBF" "between 0x80 (byte_at s 3) 0xBF"
          and d: "?a = 0xF0 \<and> between 0x90 ?b 0xBF \<or> between 0xF1 ?a 0xF3 \<and> between 0x80 ?b 0xBF
            \<or> ?a = 0xF4 \<and> between 0x80 ?b 0x8F"
          by (auto split: if_split_asm)
        have "between 0xF0 ?a 0xF4" "between 0x80 ?b 0xBF" "?a = 0xF0 \<Longrightarrow> 0x90 \<le> ?b" "?a = 0xF4 \<Longrightarrow> ?b \<le> 0x8F"
          using d by (auto simp: between_def)
        with n t show ?case by (intro four)
      qed
    qed
  qed
qed

lemma utf8_step_decode:
  assumes "utf8_step s = Some n"
  shows "n \<le> length s \<and> (\<exists>cp. text_scalar cp \<and> take n s = utf8_encode cp)"
proof -
  let ?b = "byte_at s"
  have b: "\<exists>cp. text_scalar cp \<and> map ?b [0..<n] = utf8_bytes cp" and p: "0 < ?b (n - 1)"
    using assms
  proof (atomize (full), cases rule: utf8_step_cases)
    case one
    then show "(\<exists>cp. text_scalar cp \<and> map ?b [0..<n] = utf8_bytes cp) \<and> 0 < ?b (n - 1)"
      by (intro conjI exI [of _ "?b 0"]) (auto simp: text_scalar_def utf8_bytes_def between_def)
  next
    case two
    then show "(\<exists>cp. text_scalar cp \<and> map ?b [0..<n] = utf8_bytes cp) \<and> 0 < ?b (n - 1)"
      using utf8_decode2 [OF two(2,3)] upt_bytes(2) [of ?b] by (auto simp: between_def)
  next
    case three
    then show "(\<exists>cp. text_scalar cp \<and> map ?b [0..<n] = utf8_bytes cp) \<and> 0 < ?b (n - 1)"
      using utf8_decode3 [OF three(2-6)] upt_bytes(3) [of ?b] by (auto simp: between_def)
  next
    case four
    then show "(\<exists>cp. text_scalar cp \<and> map ?b [0..<n] = utf8_bytes cp) \<and> 0 < ?b (n - 1)"
      using utf8_decode4 [OF four(2-7)] upt_bytes(4) [of ?b] by (auto simp: between_def)
  qed
  have n: "n \<le> length s" using byte_at_pos [OF p] utf8_step_pos [OF assms] by simp
  from b obtain cp where cp: "text_scalar cp" "map code (take n s) = utf8_bytes cp"
    using bytes_take [OF n] by auto
  then have "map code (take n s) = map code (utf8_encode cp)" by (simp add: code_utf8_encode)
  then have "take n s = utf8_encode cp" using code_inject by (auto simp: inj_map_eq_map inj_def)
  with n cp(1) show ?thesis by blast
qed

definition utf8_text :: "string \<Rightarrow> bool" where
  "utf8_text s \<longleftrightarrow> (\<exists>cps. list_all text_scalar cps \<and> s = concat (map utf8_encode cps))"

lemma utf8_encode_Nil [simp]: "utf8_encode cp \<noteq> []"
  by (simp add: utf8_encode_def utf8_bytes_def)

lemma valid_utf8_concat: "list_all text_scalar cps \<Longrightarrow> string_is_valid_utf8 (concat (map utf8_encode cps))"
proof (induction cps)
  case (Cons cp cps)
  then show ?case
    using utf8_step_encode [of cp "concat (map utf8_encode cps)"]
    by (subst string_is_valid_utf8.simps) simp
qed (simp add: string_is_valid_utf8.simps)

lemma valid_utf8_text: "string_is_valid_utf8 s \<Longrightarrow> utf8_text s"
proof (induction s rule: string_is_valid_utf8.induct)
  case (1 s)
  show ?case
  proof (cases "s = []")
    case False
    from "1.prems" False obtain n where n: "utf8_step s = Some n" "string_is_valid_utf8 (drop n s)"
      by (subst (asm) string_is_valid_utf8.simps) (auto split: option.splits)
    from "1.IH" [OF False n] obtain cps where "list_all text_scalar cps" "drop n s = concat (map utf8_encode cps)"
      by (auto simp: utf8_text_def)
    moreover from utf8_step_decode [OF n(1)] obtain cp where "text_scalar cp" "take n s = utf8_encode cp" by blast
    ultimately have "list_all text_scalar (cp # cps) \<and> s = concat (map utf8_encode (cp # cps))"
      using append_take_drop_id [of n s] by simp
    then show ?thesis unfolding utf8_text_def by blast
  qed (auto simp: utf8_text_def intro: exI [of _ "[]"])
qed

section \<open>Property\<close>

text \<open>C25. \<^verbatim>\<open>string_is_valid_utf8\<close> accepts exactly the concatenations of the UTF-8 encodings of tab, line
  feed, carriage return, printable ASCII and the code points from 0x80 to 0x10FFFF that are not
  surrogates: no overlong form, no surrogate, nothing beyond plane 16, no truncated sequence.\<close>

theorem valid_utf8_iff:
  "string_is_valid_utf8 s \<longleftrightarrow> (\<exists>cps. list_all text_scalar cps \<and> s = concat (map utf8_encode cps))"
  using valid_utf8_text [of s] valid_utf8_concat by (auto simp: utf8_text_def)

end
