(* ===== verification/CRule.thy ===== *)
theory CRule
  imports Ircd_String Match
begin

text \<open>
  Connection rules (src/ircd/crule.c): the recursive descent parser that turns the text of a
  rule into an expression tree, the release of trees and the evaluation of a rule against the
  servers and clients of the network.

  A node's argument slot is a value of \<open>crule_arg\<close>: a slot that was allocated and never
  written (\<open>Uninit\<close>), NULL, or a pointer to a node. Dereferencing one of the first two, and
  storing a fourth argument into \<^verbatim>\<open>arg[CR_MAXARGS]\<close>, are the outcome \<open>Crash\<close>. The three
  mutually recursive parsers carry fuel, which bounds the nesting of their calls and
  iterations; \<open>crule_parse\<close> supplies enough for its input (\<open>crule_parse_total\<close>).
\<close>

section \<open>Tokens, errors, trees\<close>

definition CR_MAXARGLEN :: nat where "CR_MAXARGLEN = 80"
definition CR_MAXARGS :: nat where "CR_MAXARGS = 3"

datatype crule_token = CR_UNKNOWN | CR_END | CR_AND | CR_OR | CR_NOT | CR_OPENPAREN | CR_CLOSEPAREN | CR_COMMA | CR_WORD

datatype crule_errcode = CR_NOERR | CR_UNEXPCTTOK | CR_UNKNWTOK | CR_EXPCTAND | CR_EXPCTOR | CR_EXPCTPRIM | CR_EXPCTOPEN
  | CR_EXPCTCLOSE | CR_UNKNWFUNC | CR_ARGMISMAT

datatype crule_funcptr = crule_connected | crule_directcon | crule_via | crule_directop

text \<open>
  A node is told apart by its function pointer: \<^verbatim>\<open>crule__not\<close> with one slot, \<^verbatim>\<open>crule__andor\<close>
  with two slots and the flag \<^verbatim>\<open>arg[2]\<close>, and the rule functions with their argument strings;
  the pointer of the latter is NULL until the call has been parsed.
\<close>

datatype CRuleNode =
    FuncNode "crule_funcptr option" "string list"
  | NotNode crule_arg
  | AndOrNode crule_arg crule_arg bool
and crule_arg = Uninit | Null | Ptr CRuleNode

definition crule_funclist :: "(string \<times> int \<times> crule_funcptr option) list" where
  "crule_funclist =
     [(''connected'', 1, Some crule_connected), (''directcon'', 1, Some crule_directcon),
      (''via'', 2, Some crule_via), (''directop'', 0, Some crule_directop), ([], 0, None)]"

section \<open>Scanner\<close>

definition crule_wild :: "char \<Rightarrow> bool" where
  "crule_wild c \<longleftrightarrow> c = CHR ''*'' \<or> c = CHR ''?'' \<or> c = CHR ''.'' \<or> c = CHR ''-''"

fun gettoken_loop :: "char \<Rightarrow> string \<Rightarrow> crule_errcode \<times> crule_token \<times> string" where
  "gettoken_loop pending [] = (CR_NOERR, CR_END, [])"
| "gettoken_loop pending (c # s) =
     (if c = CHR '' '' \<or> c = CHR 0x09 then gettoken_loop pending s
      else if c = CHR ''&'' then
        (if pending = CHR 0x00 then gettoken_loop (CHR ''&'') s
         else if pending = CHR ''&'' then (CR_NOERR, CR_AND, s)
         else (CR_UNKNWTOK, CR_UNKNOWN, s))
      else if c = CHR ''|'' then
        (if pending = CHR 0x00 then gettoken_loop (CHR ''|'') s
         else if pending = CHR ''|'' then (CR_NOERR, CR_OR, s)
         else (CR_UNKNWTOK, CR_UNKNOWN, s))
      else if c = CHR ''!'' then (CR_NOERR, CR_NOT, s)
      else if c = CHR ''('' then (CR_NOERR, CR_OPENPAREN, s)
      else if c = CHR '')'' then (CR_NOERR, CR_CLOSEPAREN, s)
      else if c = CHR '','' then (CR_NOERR, CR_COMMA, s)
      else if c = CHR '':'' then (CR_NOERR, CR_END, s)
      else if IsAlpha c \<or> crule_wild c then (CR_NOERR, CR_WORD, c # s)
      else (CR_UNKNWTOK, CR_UNKNOWN, c # s))"

definition crule_gettoken :: "string \<Rightarrow> crule_errcode \<times> crule_token \<times> string" where
  "crule_gettoken ruleptr = gettoken_loop (CHR 0x00) ruleptr"

fun crule_getword :: "nat \<Rightarrow> string \<Rightarrow> string \<times> string" where
  "crule_getword maxlen [] = ([], [])"
| "crule_getword 0 s = ([], s)"
| "crule_getword (Suc maxlen) (c # s) =
     (if IsAlnum c \<or> crule_wild c
      then case crule_getword maxlen s of (word, rest) \<Rightarrow> (c # word, rest)
      else ([], c # s))"

section \<open>Argument lists and functions\<close>

definition word_start :: "string \<Rightarrow> bool" where
  "word_start s \<longleftrightarrow> s \<noteq> [] \<and> (IsAlpha (hd s) \<or> crule_wild (hd s))"

lemma gettoken_loop_shorter:
  "gettoken_loop p s = (e, t, s') \<Longrightarrow> length s' \<le> length s \<and>
     (e = CR_NOERR \<longrightarrow> (t = CR_WORD \<longrightarrow> word_start s') \<and> (t \<noteq> CR_WORD \<longrightarrow> t \<noteq> CR_END \<longrightarrow> length s' < length s))"
proof (induction p s rule: gettoken_loop.induct)
  case (2 pending c s)
  show ?case
    using "2.prems" "2.IH" by (auto simp: word_start_def split: if_split_asm)
qed simp

lemma getword_shorter:
  "crule_getword n s = (w, s') \<Longrightarrow> length s' \<le> length s \<and> (word_start s \<longrightarrow> 0 < n \<longrightarrow> length s' < length s)"
proof (induction n s arbitrary: w s' rule: crule_getword.induct)
  case (3 n c s)
  obtain w' r where "crule_getword n s = (w', r)" by fastforce
  with 3 show ?case by (auto simp: word_start_def IsAlnum_iff split: if_split_asm)
qed (auto simp: word_start_def)

definition arg_measure :: "crule_token \<Rightarrow> string \<Rightarrow> nat" where
  "arg_measure tok s = 2 * length s + (if tok = CR_END \<or> tok = CR_WORD \<and> word_start s then 0 else 1)"

lemma arg_measure_next:
  assumes "crule_gettoken s = (CR_NOERR, tok', s')" and "length s \<le> length s0" and "tok \<noteq> CR_END"
    and "tok = CR_WORD \<Longrightarrow> word_start s0 \<Longrightarrow> length s < length s0"
  shows "arg_measure tok' s' < arg_measure tok s0"
  using assms gettoken_loop_shorter [of "CHR 0x00" s CR_NOERR tok' s']
  by (cases "tok' = CR_WORD"; cases "tok' = CR_END")
    (auto simp: arg_measure_def crule_gettoken_def split: if_splits)

text \<open>
  \<open>arglist\<close> is the loop of \<^verbatim>\<open>crule_parsearglist\<close>: \<open>args\<close> are the arguments stored so far and
  \<open>cur\<close> is \<open>currarg\<close> with its recorded length \<open>arglen\<close>. The argument after the third one
  would be stored behind the array of the node: no result.
\<close>

definition add_word :: "string \<Rightarrow> nat \<Rightarrow> string \<Rightarrow> string \<times> nat" where
  "add_word cur arglen word =
     (if cur \<noteq> [] then
        if arglen + length word < CR_MAXARGLEN - 1
        then (cur @ '' '' @ word, arglen + length word + 1) else (cur, arglen)
      else (word, length word))"

function arglist :: "string list \<Rightarrow> string \<Rightarrow> nat \<Rightarrow> crule_token \<Rightarrow> string \<Rightarrow>
    (crule_errcode \<times> string list \<times> crule_token \<times> string) option" where
  "arglist args cur arglen tok s =
     (if tok = CR_WORD then
        (case crule_getword (CR_MAXARGLEN - 1) s of (word, s1) \<Rightarrow>
           case add_word cur arglen word of (cur1, arglen1) \<Rightarrow>
           case crule_gettoken s1 of (e, tok1, s2) \<Rightarrow>
              if e = CR_NOERR then arglist args cur1 arglen1 tok1 s2 else Some (e, args, tok1, s2))
      else
        let arg = collapse cur in
        if arg \<noteq> [] \<and> \<not> length args < CR_MAXARGS then None
        else let args1 = (if arg \<noteq> [] then args @ [arg] else args)
          in if tok \<noteq> CR_COMMA then Some (CR_NOERR, args1, tok, s)
             else (case crule_gettoken s of (e, tok1, s1) \<Rightarrow>
                     if e = CR_NOERR then arglist args1 [] arglen tok1 s1 else Some (e, args1, tok1, s1)))"
  by pat_completeness auto
termination
proof (relation "measure (\<lambda>(args, cur, arglen, tok, s). arg_measure tok s)", goal_cases)
  case (2 args cur arglen tok s word s1)
  then show ?case
    using getword_shorter [of "CR_MAXARGLEN - 1" s word s1]
    by (auto intro!: arg_measure_next [of s1] simp: CR_MAXARGLEN_def)
qed (auto intro: arg_measure_next)

declare arglist.simps [simp del]

definition crule_parsearglist :: "crule_token \<Rightarrow> string \<Rightarrow> (crule_errcode \<times> string list \<times> crule_token \<times> string) option" where
  "crule_parsearglist tok s = arglist [] [] 0 tok s"

text \<open>The search of \<^verbatim>\<open>crule_funclist\<close>, which stops behind the empty name.\<close>

fun find_func :: "(string \<times> int \<times> crule_funcptr option) list \<Rightarrow> string \<Rightarrow> (int \<times> crule_funcptr option) option" where
  "find_func [] name = None"
| "find_func ((n, req, f) # fs) name =
     (if ircd_strcmp n name = 0 then Some (req, f)
      else if n = [] then None
      else find_func fs name)"

datatype outcome = OutOfFuel | Crash | Done crule_errcode crule_arg crule_token string

definition crule_parsefunction :: "string \<Rightarrow> outcome" where
  "crule_parsefunction s =
     (case crule_getword (CR_MAXARGLEN - 1) s of (funcname, s1) \<Rightarrow>
      case crule_gettoken s1 of (e, tok, s2) \<Rightarrow>
        if e \<noteq> CR_NOERR then Done e Null tok s2
        else if tok = CR_OPENPAREN then
          (case find_func crule_funclist funcname of
             None \<Rightarrow> Done CR_UNKNWFUNC Null tok s2
           | Some (reqnumargs, funcptr) \<Rightarrow>
             (case crule_gettoken s2 of (e, tok, s3) \<Rightarrow>
                if e \<noteq> CR_NOERR then Done e Null tok s3
                else (case crule_parsearglist tok s3 of
                   None \<Rightarrow> Crash
                 | Some (e, args, tok, s4) \<Rightarrow>
                     if e \<noteq> CR_NOERR then Done e (Ptr (FuncNode None args)) tok s4
                     else if tok \<noteq> CR_CLOSEPAREN then Done CR_EXPCTCLOSE (Ptr (FuncNode None args)) tok s4
                     else if reqnumargs \<noteq> int (length args) \<and> reqnumargs \<noteq> - 1
                       then Done CR_ARGMISMAT (Ptr (FuncNode None args)) tok s4
                     else (case crule_gettoken s4 of (e, tok, s5) \<Rightarrow>
                       if e \<noteq> CR_NOERR then Done e (Ptr (FuncNode None args)) tok s5
                       else Done CR_NOERR (Ptr (FuncNode funcptr args)) tok s5))))
        else Done CR_EXPCTOPEN Null tok s2)"

section \<open>Expressions\<close>

text \<open>\<open>link_last root a\<close> stores \<open>a\<close> as the right operand of the newest operator node.\<close>

fun link_last :: "CRuleNode \<Rightarrow> crule_arg \<Rightarrow> CRuleNode" where
  "link_last (AndOrNode l r b) a = AndOrNode l a b"
| "link_last n a = n"

text \<open>
  The body of the loops of \<^verbatim>\<open>crule_parseorexpr\<close> (\<open>isor\<close>) and \<^verbatim>\<open>crule_parseandexpr\<close>, which are the
  same up to the operator and the error for a missing right operand: what follows the parse of
  an operand \<open>x\<close> with the tree \<open>root\<close> built so far.
\<close>

definition chain_op :: "bool \<Rightarrow> crule_token" where
  "chain_op isor = (if isor then CR_OR else CR_AND)"

definition chain_more :: "bool \<Rightarrow> crule_arg \<Rightarrow> crule_arg \<Rightarrow> crule_arg" where
  "chain_more isor root x =
     (case root of
        Ptr r \<Rightarrow> Ptr (AndOrNode (Ptr (link_last r x)) Uninit isor)
      | _ \<Rightarrow> Ptr (AndOrNode x Uninit isor))"

definition chain_end :: "bool \<Rightarrow> crule_arg \<Rightarrow> crule_errcode \<Rightarrow> crule_arg \<Rightarrow> crule_token \<Rightarrow> string \<Rightarrow> outcome" where
  "chain_end isor root e x tok s =
     (case root of
        Ptr r \<Rightarrow>
          (case x of
             Ptr _ \<Rightarrow> Done e (Ptr (link_last r x)) tok s
           | _ \<Rightarrow> Done (if isor then CR_EXPCTAND else CR_EXPCTPRIM) (Ptr (link_last r Null)) tok s)
      | _ \<Rightarrow> Done e x tok s)"

fun parseorexpr :: "nat \<Rightarrow> crule_arg \<Rightarrow> crule_token \<Rightarrow> string \<Rightarrow> outcome"
  and parseandexpr :: "nat \<Rightarrow> crule_arg \<Rightarrow> crule_token \<Rightarrow> string \<Rightarrow> outcome"
  and parseprimary :: "nat \<Rightarrow> bool \<Rightarrow> crule_token \<Rightarrow> string \<Rightarrow> outcome" where
  "parseorexpr 0 root tok s = OutOfFuel"
| "parseorexpr (Suc n) root tok s =
     (case parseandexpr n Null tok s of
        OutOfFuel \<Rightarrow> OutOfFuel
      | Crash \<Rightarrow> Crash
      | Done e x tok s \<Rightarrow>
          if e = CR_NOERR \<and> tok = chain_op True
          then (case crule_gettoken s of (e, tok, s) \<Rightarrow>
                  if e = CR_NOERR then parseorexpr n (chain_more True root x) tok s
                  else Done e (chain_more True root x) tok s)
          else chain_end True root e x tok s)"
| "parseandexpr 0 root tok s = OutOfFuel"
| "parseandexpr (Suc n) root tok s =
     (case parseprimary n True tok s of
        OutOfFuel \<Rightarrow> OutOfFuel
      | Crash \<Rightarrow> Crash
      | Done e x tok s \<Rightarrow>
          if e = CR_NOERR \<and> tok = chain_op False
          then (case crule_gettoken s of (e, tok, s) \<Rightarrow>
                  if e = CR_NOERR then parseandexpr n (chain_more False root x) tok s
                  else Done e (chain_more False root x) tok s)
          else chain_end False root e x tok s)"
| "parseprimary 0 outer tok s = OutOfFuel"
| "parseprimary (Suc n) outer tok s =
     (case tok of
        CR_OPENPAREN \<Rightarrow>
          (case crule_gettoken s of (e, tok, s) \<Rightarrow>
             if e \<noteq> CR_NOERR then Done e Null tok s
             else (case parseorexpr n Null tok s of
                Done e x tok s \<Rightarrow>
                  if e \<noteq> CR_NOERR then Done e x tok s
                  else if x = Null then Done CR_EXPCTAND x tok s
                  else if tok \<noteq> CR_CLOSEPAREN then Done CR_EXPCTCLOSE x tok s
                  else (case crule_gettoken s of (e, tok, s) \<Rightarrow> Done e x tok s)
              | r \<Rightarrow> r))
      | CR_NOT \<Rightarrow>
          (case crule_gettoken s of (e, tok, s) \<Rightarrow>
             if e \<noteq> CR_NOERR then Done e (Ptr (NotNode Null)) tok s
             else (case parseprimary n False tok s of
                Done e x tok s \<Rightarrow> Done e (Ptr (NotNode x)) tok s
              | r \<Rightarrow> r))
      | CR_WORD \<Rightarrow> crule_parsefunction s
      | _ \<Rightarrow> Done (if outer then CR_NOERR else CR_EXPCTPRIM) Null tok s)"

section \<open>Whole rules\<close>

text \<open>\<open>crule_free\<close> gives the number of blocks released, or \<^const>\<open>None\<close> when it follows a bad pointer.\<close>

fun crule_free :: "CRuleNode \<Rightarrow> nat option"
  and crule_free_arg :: "crule_arg \<Rightarrow> nat option" where
  "crule_free (NotNode a) = map_option Suc (case a of Null \<Rightarrow> Some 0 | _ \<Rightarrow> crule_free_arg a)"
| "crule_free (AndOrNode l r isor) =
     (case crule_free_arg l of
        None \<Rightarrow> None
      | Some n \<Rightarrow> map_option (\<lambda>m. Suc (n + m)) (case r of Null \<Rightarrow> Some 0 | _ \<Rightarrow> crule_free_arg r))"
| "crule_free (FuncNode f args) = Some (Suc (length args))"
| "crule_free_arg Uninit = None"
| "crule_free_arg Null = None"
| "crule_free_arg (Ptr n) = crule_free n"

datatype parsed = NoFuel | Crashed | Rule CRuleNode | Rejected crule_errcode

definition parse_abort :: "crule_errcode \<Rightarrow> crule_arg \<Rightarrow> parsed" where
  "parse_abort e root =
     (case root of
        Null \<Rightarrow> Rejected e
      | _ \<Rightarrow> (case crule_free_arg root of None \<Rightarrow> Crashed | Some _ \<Rightarrow> Rejected e))"

definition crule_fuel :: "string \<Rightarrow> nat" where
  "crule_fuel s = 6 * length s + 3"

definition crule_parse :: "string \<Rightarrow> parsed" where
  "crule_parse rule =
     (case crule_gettoken rule of (e, tok, s) \<Rightarrow>
        if e \<noteq> CR_NOERR then Rejected e
        else (case parseorexpr (crule_fuel rule) Null tok s of
                OutOfFuel \<Rightarrow> NoFuel
              | Crash \<Rightarrow> Crashed
              | Done e root tok s \<Rightarrow>
                  if e = CR_NOERR then
                    (case root of
                       Ptr r \<Rightarrow> if tok = CR_END then Rule r else parse_abort CR_UNEXPCTTOK root
                     | _ \<Rightarrow> parse_abort CR_EXPCTOR root)
                  else parse_abort e root))"

section \<open>Evaluation\<close>

record crule_client =
  crc_name :: string
  crc_server :: bool
  crc_me :: bool
  crc_oper :: bool
  crc_from :: string

text \<open>
  The clients of \<^verbatim>\<open>GlobalClientList\<close>, in its order, and the slots of \<^verbatim>\<open>LocalClientArray\<close> up to
  \<^verbatim>\<open>HighestFd\<close>. \<^verbatim>\<open>crc_from\<close> is the name of the server a client is reached through.
\<close>

record crule_net =
  GlobalClientList :: "crule_client list"
  LocalClientArray :: "crule_client option list"

fun connected_loop :: "string \<Rightarrow> crule_client list \<Rightarrow> bool option" where
  "connected_loop m [] = Some False"
| "connected_loop m (c # cs) =
     (if \<not> crc_server c \<and> crc_me c then connected_loop m cs
      else (case match m (crc_name c) of
              None \<Rightarrow> None
            | Some r \<Rightarrow> if r \<noteq> 0 then connected_loop m cs else Some True))"

fun directcon_loop :: "string \<Rightarrow> crule_client option list \<Rightarrow> bool option" where
  "directcon_loop m [] = Some False"
| "directcon_loop m (None # cs) = directcon_loop m cs"
| "directcon_loop m (Some c # cs) =
     (if \<not> crc_server c then directcon_loop m cs
      else (case match m (crc_name c) of
              None \<Rightarrow> None
            | Some r \<Rightarrow> if r \<noteq> 0 then directcon_loop m cs else Some True))"

fun via_loop :: "string \<Rightarrow> string \<Rightarrow> crule_client list \<Rightarrow> bool option" where
  "via_loop m0 m1 [] = Some False"
| "via_loop m0 m1 (c # cs) =
     (if \<not> crc_server c \<and> crc_me c then via_loop m0 m1 cs
      else (case match m1 (crc_name c) of
              None \<Rightarrow> None
            | Some r \<Rightarrow> if r \<noteq> 0 then via_loop m0 m1 cs
                else (case match m0 (crc_from c) of
                        None \<Rightarrow> None
                      | Some r \<Rightarrow> if r \<noteq> 0 then via_loop m0 m1 cs else Some True)))"

fun directop_loop :: "crule_client option list \<Rightarrow> bool" where
  "directop_loop [] = False"
| "directop_loop (None # cs) = directop_loop cs"
| "directop_loop (Some c # cs) = (if \<not> crc_oper c then directop_loop cs else True)"

definition call_func :: "crule_net \<Rightarrow> crule_funcptr \<Rightarrow> string list \<Rightarrow> bool option" where
  "call_func net f args =
     (case f of
        crule_connected \<Rightarrow> (case args of m # _ \<Rightarrow> connected_loop m (GlobalClientList net) | _ \<Rightarrow> None)
      | crule_directcon \<Rightarrow> (case args of m # _ \<Rightarrow> directcon_loop m (LocalClientArray net) | _ \<Rightarrow> None)
      | crule_via \<Rightarrow> (case args of m0 # m1 # _ \<Rightarrow> via_loop m0 m1 (GlobalClientList net) | _ \<Rightarrow> None)
      | crule_directop \<Rightarrow> Some (directop_loop (LocalClientArray net)))"

fun crule_eval :: "crule_net \<Rightarrow> CRuleNode \<Rightarrow> bool option"
  and crule_eval_arg :: "crule_net \<Rightarrow> crule_arg \<Rightarrow> bool option" where
  "crule_eval net (FuncNode f args) = (case f of None \<Rightarrow> None | Some f \<Rightarrow> call_func net f args)"
| "crule_eval net (NotNode a) = map_option Not (crule_eval_arg net a)"
| "crule_eval net (AndOrNode l r isor) =
     (case crule_eval_arg net l of
        None \<Rightarrow> None
      | Some result1 \<Rightarrow>
          if isor then (if result1 then Some True else crule_eval_arg net r)
          else (if result1 then crule_eval_arg net r else Some False))"
| "crule_eval_arg net Uninit = None"
| "crule_eval_arg net Null = None"
| "crule_eval_arg net (Ptr n) = crule_eval net n"

section \<open>Enough fuel\<close>

definition pending_size :: "crule_token \<Rightarrow> string \<Rightarrow> nat" where
  "pending_size tok s = 2 * length s + (if tok = CR_END \<or> tok = CR_WORD then 0 else 1)"

lemma pending_gettoken: "crule_gettoken s = (CR_NOERR, tok, s') \<Longrightarrow> pending_size tok s' \<le> 2 * length s"
  using gettoken_loop_shorter [of "CHR 0x00" s CR_NOERR tok s']
  by (auto simp: pending_size_def crule_gettoken_def)

lemma arglist_pending:
  "arglist args cur arglen tok s = Some (CR_NOERR, args', tok', s') \<Longrightarrow> pending_size tok' s' \<le> pending_size tok s"
proof (induction args cur arglen tok s rule: arglist.induct)
  case (1 args cur arglen tok s)
  obtain word s1 where w: "crule_getword (CR_MAXARGLEN - 1) s = (word, s1)" by fastforce
  obtain e1 tok1 s2 where t1: "crule_gettoken s1 = (e1, tok1, s2)" by (metis prod_cases3)
  obtain e2 tok2 s3 where t2: "crule_gettoken s = (e2, tok2, s3)" by (metis prod_cases3)
  have "length s1 \<le> length s" using getword_shorter [OF w] by simp
  then have l1: "e1 = CR_NOERR \<Longrightarrow> pending_size tok1 s2 \<le> pending_size tok s"
    using pending_gettoken [of s1 tok1 s2] t1 by (auto simp: pending_size_def)
  have l2: "e2 = CR_NOERR \<Longrightarrow> pending_size tok2 s3 \<le> pending_size tok s"
    using pending_gettoken [of s tok2 s3] t2 by (auto simp: pending_size_def)
  show ?case
  proof (cases "tok = CR_WORD")
    case True
    obtain cur1 arglen1 where c1: "add_word cur arglen word = (cur1, arglen1)" by fastforce
    have "e1 = CR_NOERR \<and> arglist args cur1 arglen1 tok1 s2 = Some (CR_NOERR, args', tok', s')"
      using "1.prems" True w t1 c1 unfolding arglist.simps [of args cur arglen tok s]
      by (auto split: if_split_asm)
    with "1.IH"(1) [OF True w [symmetric] c1 [symmetric] t1 [symmetric] refl] l1 show ?thesis
      by fastforce
  next
    case False
    then show ?thesis
      using "1.prems" "1.IH"(2) [OF False] t2 l2 unfolding arglist.simps [of args cur arglen tok s]
      by (fastforce simp: Let_def split: if_split_asm)
  qed
qed

fun ok_out :: "nat \<Rightarrow> outcome \<Rightarrow> bool" where
  "ok_out p OutOfFuel = False"
| "ok_out p Crash = True"
| "ok_out p (Done e x tok s) = (e = CR_NOERR \<longrightarrow> pending_size tok s \<le> p)"

lemma parsefunction_ok: "ok_out (2 * length s) (crule_parsefunction s)"
proof -
  obtain w s1 where w: "crule_getword (CR_MAXARGLEN - 1) s = (w, s1)" by fastforce
  obtain e2 t2 s2 where t2: "crule_gettoken s1 = (e2, t2, s2)" by (metis prod_cases3)
  obtain e3 t3 s3 where t3: "crule_gettoken s2 = (e3, t3, s3)" by (metis prod_cases3)
  have l: "length s1 \<le> length s" "length s2 \<le> length s1" "length s3 \<le> length s2"
    using getword_shorter [OF w] gettoken_loop_shorter [OF t2 [unfolded crule_gettoken_def]]
      gettoken_loop_shorter [OF t3 [unfolded crule_gettoken_def]] by simp_all
  have "ok_out (2 * length s) (case crule_gettoken s4 of (e, tok, s5) \<Rightarrow>
      if e \<noteq> CR_NOERR then Done e (Ptr (FuncNode None args)) tok s5
      else Done CR_NOERR (Ptr (FuncNode funcptr args)) tok s5)"
    if "crule_parsearglist t3 s3 = Some (CR_NOERR, args, t4, s4)" "e3 = CR_NOERR" for args t4 s4 funcptr
  proof -
    have "pending_size t4 s4 \<le> pending_size t3 s3" using arglist_pending that(1) unfolding crule_parsearglist_def .
    then have "2 * length s4 \<le> 2 * length s2"
      using pending_gettoken [of s2 t3 s3] t3 that(2) by (auto simp: pending_size_def split: if_split_asm)
    then show ?thesis
      using l pending_gettoken [of s4] by (auto split: prod.splits intro: le_trans)
  qed
  then show ?thesis
    using w t2 t3 unfolding crule_parsefunction_def
    by (auto split: option.splits if_splits prod.splits)
qed

lemma chain_end_ok: "ok_out p (Done e x tok s) \<Longrightarrow> ok_out p (chain_end isor root e x tok s)"
  by (auto simp: chain_end_def split: crule_arg.splits)

lemma ok_out_mono: "ok_out p r \<Longrightarrow> p \<le> q \<Longrightarrow> ok_out q r"
  by (cases r) auto

lemma parse_ok:
  "3 * pending_size tok s + 3 \<le> n \<Longrightarrow> ok_out (pending_size tok s) (parseorexpr n root tok s)"
  "3 * pending_size tok s + 2 \<le> n \<Longrightarrow> ok_out (pending_size tok s) (parseandexpr n root tok s)"
  "3 * pending_size tok s + 1 \<le> n \<Longrightarrow> ok_out (pending_size tok s) (parseprimary n outer tok s)"
proof (induction n arbitrary: root root tok s outer)
  case (Suc n)
  have more: "ok_out (pending_size tok s) (case crule_gettoken s1 of (e, tok2, s2) \<Rightarrow>
      if e = CR_NOERR then f root2 tok2 s2 else Done e root2 tok2 s2)"
    if "\<forall>root tok s. 3 * pending_size tok s + k \<le> n \<longrightarrow> ok_out (pending_size tok s) (f root tok s)"
      and "pending_size tok1 s1 \<le> pending_size tok s" and "tok1 = chain_op b" and "3 * pending_size tok s + k \<le> Suc n"
    for f k tok s tok1 s1 root2 b
  proof -
    obtain e tok2 s2 where g: "crule_gettoken s1 = (e, tok2, s2)" by (metis prod_cases3)
    have "pending_size tok2 s2 < pending_size tok1 s1" if "e = CR_NOERR"
      using pending_gettoken [of s1 tok2 s2] g that \<open>tok1 = chain_op b\<close> by (auto simp: pending_size_def chain_op_def)
    then show ?thesis using that(1) [rule_format, of tok2 s2 root2] that(2,4) g by (auto intro: ok_out_mono)
  qed
  have or_IH: "\<forall>root tok s. 3 * pending_size tok s + 3 \<le> n \<longrightarrow> ok_out (pending_size tok s) (parseorexpr n root tok s)"
    and and_IH: "\<forall>root tok s. 3 * pending_size tok s + 2 \<le> n \<longrightarrow> ok_out (pending_size tok s) (parseandexpr n root tok s)"
    using Suc.IH(1,2) by blast+
  {
    case 1
    then have "ok_out (pending_size tok s) (parseandexpr n Null tok s)" using Suc.IH(2) by simp
    then show ?case
      using more [OF or_IH _ refl 1] chain_end_ok
      by (cases "parseandexpr n Null tok s") auto
  next
    case 2
    then have "ok_out (pending_size tok s) (parseprimary n True tok s)" using Suc.IH(3) by simp
    then show ?case
      using more [OF and_IH _ refl 2] chain_end_ok
      by (cases "parseprimary n True tok s") auto
  next
    case 3
    obtain e tok2 s2 where g: "crule_gettoken s = (e, tok2, s2)" by (metis prod_cases3)
    have p: "pending_size tok2 s2 < pending_size tok s" if "e = CR_NOERR" "tok = CR_OPENPAREN \<or> tok = CR_NOT"
      using pending_gettoken [of s tok2 s2] g that by (auto simp: pending_size_def)
    show ?case
    proof (cases tok)
      case CR_OPENPAREN
      have "ok_out (pending_size tok2 s2) (parseorexpr n Null tok2 s2)" if "e = CR_NOERR"
        using p [OF that] 3 CR_OPENPAREN by (intro Suc.IH(1)) auto
      moreover have "ok_out (pending_size tok s) (case crule_gettoken s3 of (e, tok, s) \<Rightarrow> Done e x tok s)"
        if "2 * length s3 \<le> pending_size tok s" for s3 x
        using pending_gettoken [of s3] that by (auto split: prod.splits intro: le_trans)
      ultimately show ?thesis
        using CR_OPENPAREN g p
        by (auto split: outcome.splits simp: pending_size_def split: if_split_asm)
    next
      case CR_NOT
      have "ok_out (pending_size tok2 s2) (parseprimary n False tok2 s2)" if "e = CR_NOERR"
        using p [OF that] 3 CR_NOT by (intro Suc.IH(3)) auto
      then show ?thesis using CR_NOT g p by (auto split: outcome.splits)
    next
      case CR_WORD
      then show ?thesis using parsefunction_ok [of s] by (simp add: pending_size_def)
    qed simp_all
  }
qed simp_all


text \<open>More fuel than a call needs changes nothing.\<close>

lemma parse_mono:
  "parseorexpr n root tok s \<noteq> OutOfFuel \<Longrightarrow> parseorexpr (Suc n) root tok s = parseorexpr n root tok s"
  "parseandexpr n root tok s \<noteq> OutOfFuel \<Longrightarrow> parseandexpr (Suc n) root tok s = parseandexpr n root tok s"
  "parseprimary n outer tok s \<noteq> OutOfFuel \<Longrightarrow> parseprimary (Suc n) outer tok s = parseprimary n outer tok s"
proof (induction n arbitrary: root root tok s outer)
  case (Suc n)
  show "parseorexpr (Suc n) root tok s \<noteq> OutOfFuel \<Longrightarrow> parseorexpr (Suc (Suc n)) root tok s = parseorexpr (Suc n) root tok s" for root tok s
    unfolding parseorexpr.simps(2) [of "Suc n"] parseorexpr.simps(2) [of n]
    using Suc.IH(2) [of Null tok s] Suc.IH(1)
    by (cases "parseandexpr n Null tok s") (auto split: prod.splits if_splits)
  show "parseandexpr (Suc n) root tok s \<noteq> OutOfFuel \<Longrightarrow> parseandexpr (Suc (Suc n)) root tok s = parseandexpr (Suc n) root tok s" for root tok s
    unfolding parseandexpr.simps(2) [of "Suc n"] parseandexpr.simps(2) [of n]
    using Suc.IH(3) [of True tok s] Suc.IH(2)
    by (cases "parseprimary n True tok s") (auto split: prod.splits if_splits)
  show "parseprimary (Suc n) outer tok s \<noteq> OutOfFuel \<Longrightarrow> parseprimary (Suc (Suc n)) outer tok s = parseprimary (Suc n) outer tok s" for outer tok s
  proof -
    assume a: "parseprimary (Suc n) outer tok s \<noteq> OutOfFuel"
    obtain e tok1 s1 where g: "crule_gettoken s = (e, tok1, s1)" by (metis prod_cases3)
    have o: "parseorexpr n Null tok1 s1 \<noteq> OutOfFuel" if "tok = CR_OPENPAREN" "e = CR_NOERR" using a g that by auto
    have p: "parseprimary n False tok1 s1 \<noteq> OutOfFuel" if "tok = CR_NOT" "e = CR_NOERR" using a g that by auto
    show ?thesis
      unfolding parseprimary.simps(2) [of "Suc n"] parseprimary.simps(2) [of n] g prod.case
      using Suc.IH(1) [OF o] Suc.IH(3) [OF p] by (cases tok) simp_all
  qed
qed simp_all

lemma parse_enough:
  assumes "parseorexpr k root tok s \<noteq> OutOfFuel" and "k \<le> n"
  shows "parseorexpr n root tok s = parseorexpr k root tok s"
  using assms(2)
proof (induction rule: dec_induct)
  case (step m)
  then show ?case using parse_mono(1) [of m] assms(1) by simp
qed simp

lemma crule_parse_fuel: "crule_parse rule \<noteq> NoFuel"
proof -
  obtain e tok s where g: "crule_gettoken rule = (e, tok, s)" by (metis prod_cases3)
  show ?thesis
  proof (cases "e = CR_NOERR")
    case True
    have "ok_out (pending_size tok s) (parseorexpr (crule_fuel rule) Null tok s)"
      using pending_gettoken [of rule tok s] g True by (intro parse_ok) (simp add: crule_fuel_def)
    then show ?thesis using g
      by (cases "parseorexpr (crule_fuel rule) Null tok s")
        (auto simp: crule_parse_def parse_abort_def split: crule_arg.splits option.splits)
  qed (use g in \<open>simp add: crule_parse_def\<close>)
qed

section \<open>Accepted trees\<close>

fun arity :: "crule_funcptr \<Rightarrow> nat" where
  "arity crule_connected = 1"
| "arity crule_directcon = 1"
| "arity crule_via = 2"
| "arity crule_directop = 0"

text \<open>
  The shape of a tree that the parser accepts: functions have the arguments they need, a negation
  has its operand; an operand of and/or may be NULL, and none is left unwritten.
\<close>

fun node_ok :: "CRuleNode \<Rightarrow> bool" and operand_ok :: "crule_arg \<Rightarrow> bool" where
  "node_ok (FuncNode f args) = (case f of None \<Rightarrow> False | Some g \<Rightarrow> length args = arity g)"
| "node_ok (NotNode a) = (a \<noteq> Null \<and> operand_ok a)"
| "node_ok (AndOrNode l r isor) = (operand_ok l \<and> operand_ok r)"
| "operand_ok Uninit = False"
| "operand_ok Null = True"
| "operand_ok (Ptr n) = node_ok n"

definition open_root :: "crule_arg \<Rightarrow> bool" where
  "open_root root \<longleftrightarrow> root = Null \<or> (\<exists>l isor. root = Ptr (AndOrNode l Uninit isor) \<and> operand_ok l)"

lemma open_chain_more: "open_root root \<Longrightarrow> operand_ok x \<Longrightarrow> open_root (chain_more isor root x)"
  by (auto simp: open_root_def chain_more_def split: crule_arg.splits)

lemma chain_end_operand:
  "chain_end isor root CR_NOERR x tok s = Done CR_NOERR y tok' s' \<Longrightarrow> open_root root \<Longrightarrow> operand_ok x \<Longrightarrow> operand_ok y"
  by (auto simp: chain_end_def open_root_def split: crule_arg.splits if_splits)

lemma chain_end_err: "chain_end isor root e x tok s = Done CR_NOERR y tok' s' \<Longrightarrow> e = CR_NOERR"
  by (auto simp: chain_end_def split: crule_arg.splits if_splits)

lemma getword_chars: "crule_getword n s = (w, s') \<Longrightarrow> list_all (\<lambda>c. IsAlnum c \<or> crule_wild c) w"
  by (induction n s arbitrary: w s' rule: crule_getword.induct) (auto split: if_split_asm prod.splits)

lemma getword_nonempty: "crule_getword (Suc n) s = (w, s') \<Longrightarrow> word_start s \<Longrightarrow> w \<noteq> []"
  by (cases s) (auto simp: word_start_def IsAlnum_iff split: if_split_asm prod.splits)

lemma word_char_not_NUL: "IsAlnum c \<or> crule_wild c \<Longrightarrow> c \<noteq> NUL"
  by (auto simp: IsAlnum_iff IsAlpha_iff IsDigit_iff crule_wild_def NUL_def code_def)

lemma find_func_arity:
  assumes "find_func crule_funclist w = Some (req, f)" "NUL \<notin> set w" "w \<noteq> []"
  shows "\<exists>g. f = Some g \<and> req = int (arity g)"
proof -
  have "ircd_strcmp [] w \<noteq> 0" using strcmp_zero [of "[]" w] assms(2,3) by simp
  then show ?thesis using assms(1) by (auto simp: crule_funclist_def simp del: ircd_strcmp.simps split: if_split_asm)
qed

definition tok_ok :: "crule_token \<Rightarrow> string \<Rightarrow> bool" where
  "tok_ok tok s \<longleftrightarrow> (tok = CR_WORD \<longrightarrow> word_start s)"

lemma gettoken_tok_ok: "crule_gettoken s = (CR_NOERR, tok, s') \<Longrightarrow> tok_ok tok s'"
  using gettoken_loop_shorter [of "CHR 0x00" s CR_NOERR tok s'] by (auto simp: tok_ok_def crule_gettoken_def)

text \<open>What a parser promises about a result without error.\<close>

definition good_out :: "outcome \<Rightarrow> bool" where
  "good_out r \<longleftrightarrow> (\<forall>x tok s. r = Done CR_NOERR x tok s \<longrightarrow> operand_ok x \<and> tok_ok tok s)"

lemma good_out_simps [simp]:
  "good_out OutOfFuel" "good_out Crash"
  "good_out (Done e x tok s) \<longleftrightarrow> (e = CR_NOERR \<longrightarrow> operand_ok x \<and> tok_ok tok s)"
  by (auto simp: good_out_def)

lemma parsefunction_good:
  assumes "word_start s"
  shows "good_out (crule_parsefunction s)" "crule_parsefunction s \<noteq> Done CR_NOERR Null tok' s'"
proof -
  obtain w s1 where w: "crule_getword (CR_MAXARGLEN - 1) s = (w, s1)" by fastforce
  have ne: "w \<noteq> []" "NUL \<notin> set w"
    using getword_nonempty [of 78 s w s1] getword_chars [OF w] assms w word_char_not_NUL
    by (auto simp: CR_MAXARGLEN_def list_all_iff)
  have f: "\<exists>g. f = Some g \<and> req = int (arity g)" if "find_func crule_funclist w = Some (req, f)" for req f
    using find_func_arity [OF that ne(2,1)] .
  show "good_out (crule_parsefunction s)" "crule_parsefunction s \<noteq> Done CR_NOERR Null tok' s'"
    unfolding crule_parsefunction_def w prod.case
    by (auto split: prod.split option.split dest!: f intro: gettoken_tok_ok)
qed

lemma good_gettoken:
  "(\<And>tok s. tok_ok tok s \<Longrightarrow> good_out (f tok s)) \<Longrightarrow>
     good_out (case crule_gettoken s of (e, tok, s) \<Rightarrow> if e = CR_NOERR then f tok s else Done e x tok s)"
  using gettoken_tok_ok by (auto split: prod.split)

lemma chain_good:
  assumes "good_out (Done e x tok s)" "open_root root"
    and "\<forall>root tok s. open_root root \<longrightarrow> tok_ok tok s \<longrightarrow> good_out (f root tok s)"
  shows "good_out (if e = CR_NOERR \<and> tok = chain_op isor
      then (case crule_gettoken s of (e, tok, s) \<Rightarrow>
              if e = CR_NOERR then f (chain_more isor root x) tok s else Done e (chain_more isor root x) tok s)
      else chain_end isor root e x tok s)"
proof (cases "e = CR_NOERR")
  case True
  then have x: "operand_ok x" "tok_ok tok s" using assms(1) by simp_all
  have "good_out (chain_end isor root e x tok s)"
    using assms(2) x True by (auto simp: chain_end_def open_root_def split: crule_arg.split)
  moreover have "good_out (case crule_gettoken s of (e, tok, s) \<Rightarrow>
      if e = CR_NOERR then f (chain_more isor root x) tok s else Done e (chain_more isor root x) tok s)"
    using assms(3) open_chain_more [OF assms(2) x(1)] by (intro good_gettoken) blast
  ultimately show ?thesis by simp
next
  case False
  then show ?thesis by (auto simp: chain_end_def split: crule_arg.split)
qed

lemma parse_good:
  "open_root root \<Longrightarrow> tok_ok tok s \<Longrightarrow> good_out (parseorexpr n root tok s)"
  "open_root root \<Longrightarrow> tok_ok tok s \<Longrightarrow> good_out (parseandexpr n root tok s)"
  "tok_ok tok s \<Longrightarrow> good_out (parseprimary n outer tok s) \<and> (\<not> outer \<longrightarrow> (\<forall>t u. parseprimary n outer tok s \<noteq> Done CR_NOERR Null t u))"
proof (induction n arbitrary: root root tok s outer)
  case (Suc n)
  have null: "open_root Null" by (simp add: open_root_def)
  have or_IH: "\<forall>root tok s. open_root root \<longrightarrow> tok_ok tok s \<longrightarrow> good_out (parseorexpr n root tok s)"
    and and_IH: "\<forall>root tok s. open_root root \<longrightarrow> tok_ok tok s \<longrightarrow> good_out (parseandexpr n root tok s)"
    using Suc.IH(1,2) by blast+
  {
    case 1
    then show ?case
      using Suc.IH(2) [OF null 1(2)] chain_good [OF _ 1(1) or_IH]
      by (cases "parseandexpr n Null tok s") (simp_all split del: if_split)
  next
    case 2
    then show ?case
      using Suc.IH(3) [OF 2(2), of True] chain_good [OF _ 2(1) and_IH]
      by (cases "parseprimary n True tok s") (simp_all split del: if_split)
  next
    case 3
    obtain e tok2 s2 where g: "crule_gettoken s = (e, tok2, s2)" by (metis prod_cases3)
    have t: "e = CR_NOERR \<Longrightarrow> tok_ok tok2 s2" using gettoken_tok_ok g by simp
    show ?case
    proof (cases tok)
      case CR_OPENPAREN
      show ?thesis
        using CR_OPENPAREN g Suc.IH(1) [OF null t] gettoken_tok_ok
        by (cases "parseorexpr n Null tok2 s2") (auto split: prod.split)
    next
      case CR_NOT
      show ?thesis
        using CR_NOT g Suc.IH(3) [OF t, of False]
        by (cases "parseprimary n False tok2 s2") auto
    next
      case CR_WORD
      then show ?thesis using 3 parsefunction_good [of s] by (simp add: tok_ok_def)
    qed (use 3 in auto)
  }
qed simp_all

lemma crule_parse_node_ok:
  assumes "crule_parse rule = Rule r"
  shows "node_ok r"
proof -
  obtain e tok s where g: "crule_gettoken rule = (e, tok, s)" by (metis prod_cases3)
  with assms have e: "e = CR_NOERR" by (cases "e = CR_NOERR") (simp_all add: crule_parse_def)
  have "good_out (parseorexpr (crule_fuel rule) Null tok s)"
    using gettoken_tok_ok g e by (intro parse_good) (simp_all add: open_root_def)
  then show ?thesis
    using assms g e
    by (cases "parseorexpr (crule_fuel rule) Null tok s")
      (auto simp: crule_parse_def parse_abort_def split: crule_arg.splits option.splits if_splits)
qed


section \<open>Meaning of a rule\<close>

definition sane_mask :: "string \<Rightarrow> bool" where
  "sane_mask m \<longleftrightarrow> CHR 0x5C \<notin> set m"

text \<open>What the functions are documented to test: servers that are connected, directly connected or behind another, and a local operator.\<close>

definition func_sem :: "crule_net \<Rightarrow> crule_funcptr \<Rightarrow> string list \<Rightarrow> bool" where
  "func_sem net f args =
     (case f of
        crule_connected \<Rightarrow> list_ex (\<lambda>c. crc_server c \<and> glob (args ! 0) (crc_name c)) (GlobalClientList net)
      | crule_directcon \<Rightarrow> list_ex (\<lambda>x. case x of Some c \<Rightarrow> crc_server c \<and> glob (args ! 0) (crc_name c) | None \<Rightarrow> False) (LocalClientArray net)
      | crule_via \<Rightarrow> list_ex (\<lambda>c. crc_server c \<and> glob (args ! 1) (crc_name c) \<and> glob (args ! 0) (crc_from c)) (GlobalClientList net)
      | crule_directop \<Rightarrow> list_ex (\<lambda>x. case x of Some c \<Rightarrow> crc_oper c | None \<Rightarrow> False) (LocalClientArray net))"

text \<open>
  The code of \<^verbatim>\<open>crule_connected\<close> and \<^verbatim>\<open>crule_via\<close> also looks at the clients that are no servers, this server apart. \<open>users_clear net f args\<close>: none of
  their names matches the mask for server names.
\<close>

definition mask_clear :: "crule_net \<Rightarrow> string \<Rightarrow> bool" where
  "mask_clear net m \<longleftrightarrow> list_all (\<lambda>c. \<not> crc_server c \<and> \<not> crc_me c \<longrightarrow> \<not> glob m (crc_name c)) (GlobalClientList net)"

definition users_clear :: "crule_net \<Rightarrow> crule_funcptr \<Rightarrow> string list \<Rightarrow> bool" where
  "users_clear net f args =
     (case f of crule_connected \<Rightarrow> mask_clear net (args ! 0) | crule_via \<Rightarrow> mask_clear net (args ! 1) | _ \<Rightarrow> True)"

lemma connected_loop_defined: "sane_mask m \<Longrightarrow> connected_loop m cs \<noteq> None"
  by (induction cs) (auto simp: sane_mask_def match_glob)

lemma via_loop_defined: "sane_mask m0 \<Longrightarrow> sane_mask m1 \<Longrightarrow> via_loop m0 m1 cs \<noteq> None"
  by (induction cs) (auto simp: sane_mask_def match_glob)

lemma connected_loop_sem:
  "sane_mask m \<Longrightarrow> list_all (\<lambda>c. \<not> crc_server c \<and> \<not> crc_me c \<longrightarrow> \<not> glob m (crc_name c)) cs \<Longrightarrow>
    connected_loop m cs = Some (list_ex (\<lambda>c. crc_server c \<and> glob m (crc_name c)) cs)"
  by (induction cs) (auto simp: sane_mask_def match_glob)

lemma directcon_loop_sem:
  "sane_mask m \<Longrightarrow> directcon_loop m cs =
     Some (list_ex (\<lambda>x. case x of Some c \<Rightarrow> crc_server c \<and> glob m (crc_name c) | None \<Rightarrow> False) cs)"
  by (induction m cs rule: directcon_loop.induct) (auto simp: sane_mask_def match_glob)

lemma via_loop_sem:
  "sane_mask m0 \<Longrightarrow> sane_mask m1 \<Longrightarrow> list_all (\<lambda>c. \<not> crc_server c \<and> \<not> crc_me c \<longrightarrow> \<not> glob m1 (crc_name c)) cs \<Longrightarrow>
    via_loop m0 m1 cs = Some (list_ex (\<lambda>c. crc_server c \<and> glob m1 (crc_name c) \<and> glob m0 (crc_from c)) cs)"
  by (induction cs) (auto simp: sane_mask_def match_glob)

lemma directop_loop_sem: "directop_loop cs = list_ex (\<lambda>x. case x of Some c \<Rightarrow> crc_oper c | None \<Rightarrow> False) cs"
  by (induction cs rule: directop_loop.induct) auto

lemma call_func_sem:
  assumes "length args = arity f" "list_all sane_mask args"
  shows "call_func net f args \<noteq> None" "users_clear net f args \<Longrightarrow> call_func net f args = Some (func_sem net f args)"
  using assms connected_loop_defined via_loop_defined
  by (cases f; force simp: call_func_def func_sem_def users_clear_def mask_clear_def connected_loop_sem directcon_loop_sem via_loop_sem
      directop_loop_sem length_Suc_conv numeral_2_eq_2)+

text \<open>A tree without NULL operands whose masks hold no backslash, and the value it stands for.\<close>

fun node_full :: "CRuleNode \<Rightarrow> bool" and operand_full :: "crule_arg \<Rightarrow> bool" where
  "node_full (FuncNode f args) = list_all sane_mask args"
| "node_full (NotNode a) = operand_full a"
| "node_full (AndOrNode l r isor) = (operand_full l \<and> operand_full r)"
| "operand_full Uninit = False"
| "operand_full Null = False"
| "operand_full (Ptr n) = node_full n"

fun node_clear :: "crule_net \<Rightarrow> CRuleNode \<Rightarrow> bool" and operand_clear :: "crule_net \<Rightarrow> crule_arg \<Rightarrow> bool" where
  "node_clear net (FuncNode f args) = (case f of Some g \<Rightarrow> users_clear net g args | None \<Rightarrow> True)"
| "node_clear net (NotNode a) = operand_clear net a"
| "node_clear net (AndOrNode l r isor) = (operand_clear net l \<and> operand_clear net r)"
| "operand_clear net (Ptr n) = node_clear net n"
| "operand_clear net _ = True"

fun node_sem :: "crule_net \<Rightarrow> CRuleNode \<Rightarrow> bool" and operand_sem :: "crule_net \<Rightarrow> crule_arg \<Rightarrow> bool" where
  "node_sem net (FuncNode f args) = (case f of Some g \<Rightarrow> func_sem net g args | None \<Rightarrow> False)"
| "node_sem net (NotNode a) = (\<not> operand_sem net a)"
| "node_sem net (AndOrNode l r isor) =
     (if isor then operand_sem net l \<or> operand_sem net r else operand_sem net l \<and> operand_sem net r)"
| "operand_sem net (Ptr n) = node_sem net n"
| "operand_sem net _ = False"

lemma crule_eval_defined:
  "node_ok n \<Longrightarrow> node_full n \<Longrightarrow> crule_eval net n \<noteq> None"
  "operand_ok a \<Longrightarrow> operand_full a \<Longrightarrow> crule_eval_arg net a \<noteq> None"
proof (induction n and a)
  case (FuncNode f args)
  then show ?case using call_func_sem(1) [of args] by (auto split: option.splits)
qed (auto split: option.splits)

lemma crule_eval_sem:
  "node_ok n \<Longrightarrow> node_full n \<Longrightarrow> node_clear net n \<Longrightarrow> crule_eval net n = Some (node_sem net n)"
  "operand_ok a \<Longrightarrow> operand_full a \<Longrightarrow> operand_clear net a \<Longrightarrow> crule_eval_arg net a = Some (operand_sem net a)"
  by (induction n and a) (auto simp: call_func_sem split: option.splits)


section \<open>Printed rules\<close>

datatype prim = PFunc crule_funcptr "string list" | PNot prim | PParen "prim list list"

fun join :: "string \<Rightarrow> string list \<Rightarrow> string" where
  "join sep [] = []"
| "join sep [x] = x"
| "join sep (x # y # xs) = x @ sep @ join sep (y # xs)"

fun func_name :: "crule_funcptr \<Rightarrow> string" where
  "func_name crule_connected = ''connected''"
| "func_name crule_directcon = ''directcon''"
| "func_name crule_via = ''via''"
| "func_name crule_directop = ''directop''"

fun print_prim :: "prim \<Rightarrow> string" where
  "print_prim (PFunc f args) = func_name f @ ''('' @ join '','' args @ '')''"
| "print_prim (PNot p) = ''!'' @ print_prim p"
| "print_prim (PParen ors) = ''('' @ join ''||'' (map (\<lambda>as. join ''&&'' (map print_prim as)) ors) @ '')''"

definition print_rule :: "prim list list \<Rightarrow> string" where
  "print_rule ors = join ''||'' (map (\<lambda>as. join ''&&'' (map print_prim as)) ors)"

text \<open>Chains of operators associate to the left.\<close>

fun chain :: "bool \<Rightarrow> CRuleNode list \<Rightarrow> CRuleNode" where
  "chain isor [] = FuncNode None []"
| "chain isor (t # ts) = foldl (\<lambda>l r. AndOrNode (Ptr l) (Ptr r) isor) t ts"

fun tree :: "prim \<Rightarrow> CRuleNode" where
  "tree (PFunc f args) = FuncNode (Some f) args"
| "tree (PNot p) = NotNode (Ptr (tree p))"
| "tree (PParen ors) = chain True (map (\<lambda>as. chain False (map tree as)) ors)"

definition rule_tree :: "prim list list \<Rightarrow> CRuleNode" where
  "rule_tree ors = chain True (map (\<lambda>as. chain False (map tree as)) ors)"

text \<open>What a rule says, whichever way its chains are grouped.\<close>

fun prim_sem :: "crule_net \<Rightarrow> prim \<Rightarrow> bool" where
  "prim_sem net (PFunc f args) = func_sem net f args"
| "prim_sem net (PNot p) = (\<not> prim_sem net p)"
| "prim_sem net (PParen ors) = list_ex (\<lambda>as. list_all (prim_sem net) as) ors"

definition rule_sem :: "crule_net \<Rightarrow> prim list list \<Rightarrow> bool" where
  "rule_sem net ors = list_ex (\<lambda>as. list_all (prim_sem net) as) ors"

lemma foldl_sem:
  "node_sem net (foldl (\<lambda>l r. AndOrNode (Ptr l) (Ptr r) isor) t ts) =
     (if isor then node_sem net t \<or> list_ex (node_sem net) ts else node_sem net t \<and> list_all (node_sem net) ts)"
  by (induction ts arbitrary: t) auto

lemma chain_sem: "ts \<noteq> [] \<Longrightarrow> node_sem net (chain isor ts) = (if isor then list_ex (node_sem net) ts else list_all (node_sem net) ts)"
  by (cases ts) (simp_all add: foldl_sem)

definition good_arg :: "string \<Rightarrow> bool" where
  "good_arg w \<longleftrightarrow> w \<noteq> [] \<and> length w < CR_MAXARGLEN \<and> collapsed w \<and> hd w \<noteq> CHR ''|'' \<and> \<not> IsDigit (hd w) \<and>
     list_all (\<lambda>c. IsAlnum c \<or> crule_wild c) w"

fun good_prim :: "prim \<Rightarrow> bool" where
  "good_prim (PFunc f args) = (length args = arity f \<and> list_all good_arg args)"
| "good_prim (PNot p) = good_prim p"
| "good_prim (PParen ors) = (ors \<noteq> [] \<and> list_all (\<lambda>as. as \<noteq> [] \<and> list_all good_prim as) ors)"

lemma chains_sem:
  assumes "ors \<noteq> []" and "list_all (\<lambda>as. as \<noteq> []) ors" and "\<And>as p. as \<in> set ors \<Longrightarrow> p \<in> set as \<Longrightarrow> node_sem net (tree p) = prim_sem net p"
  shows "node_sem net (chain True (map (\<lambda>as. chain False (map tree as)) ors)) = rule_sem net ors"
proof -
  have "node_sem net (chain False (map tree as)) = list_all (prim_sem net) as" if "as \<in> set ors" for as
    using that assms(2,3) by (subst chain_sem) (auto simp: list_all_iff)
  then show ?thesis using assms(1) by (subst chain_sem) (auto simp: rule_sem_def list_ex_iff)
qed

lemma tree_sem: "good_prim p \<Longrightarrow> node_sem net (tree p) = prim_sem net p"
proof (induction p)
  case (PParen ors)
  then have "node_sem net (tree (PParen ors)) = rule_sem net ors"
    unfolding tree.simps by (intro chains_sem) (auto simp: list_all_iff)
  then show ?case by (simp add: rule_sem_def)
qed simp_all

lemma gettoken_simps [simp]:
  "crule_gettoken (CHR ''('' # s) = (CR_NOERR, CR_OPENPAREN, s)"
  "crule_gettoken (CHR '')'' # s) = (CR_NOERR, CR_CLOSEPAREN, s)"
  "crule_gettoken (CHR ''!'' # s) = (CR_NOERR, CR_NOT, s)"
  "crule_gettoken (CHR '','' # s) = (CR_NOERR, CR_COMMA, s)"
  "crule_gettoken (CHR ''&'' # CHR ''&'' # s) = (CR_NOERR, CR_AND, s)"
  "crule_gettoken (CHR ''|'' # CHR ''|'' # s) = (CR_NOERR, CR_OR, s)"
  "crule_gettoken [] = (CR_NOERR, CR_END, [])"
  by (simp_all add: crule_gettoken_def)

lemma word_char_distinct:
  "IsAlnum c \<or> crule_wild c \<Longrightarrow> c \<notin> {CHR ''('', CHR '')'', CHR ''!'', CHR '','', CHR ''&'', CHR '':'', CHR '' '', CHR 0x09}"
  by (auto simp: IsAlnum_iff IsAlpha_iff IsDigit_iff crule_wild_def code_def)

lemma gettoken_word:
  assumes "w \<noteq> []" "hd w \<noteq> CHR ''|''" "\<not> IsDigit (hd w)" "list_all (\<lambda>c. IsAlnum c \<or> crule_wild c) w"
  shows "crule_gettoken (w @ s) = (CR_NOERR, CR_WORD, w @ s)"
proof -
  obtain c w' where w: "w = c # w'" using assms(1) by (cases w) auto
  have "IsAlpha c \<or> crule_wild c" using assms(3,4) w by (auto simp: IsAlnum_iff)
  then show ?thesis using assms w word_char_distinct [of c] by (simp add: crule_gettoken_def)
qed

lemma getword_word:
  "list_all (\<lambda>c. IsAlnum c \<or> crule_wild c) w \<Longrightarrow> length w \<le> n \<Longrightarrow> \<not> (IsAlnum c \<or> crule_wild c) \<Longrightarrow>
     crule_getword n (w @ c # s) = (w, c # s)"
proof (induction w arbitrary: n)
  case Nil
  then show ?case by (cases n) auto
next
  case (Cons a w)
  then show ?case by (cases n) auto
qed

lemma not_word_chars: "\<not> (IsAlnum c \<or> crule_wild c)" if "c \<in> {CHR ''('', CHR '')'', CHR '',''}"
  using that word_char_distinct [of c] by blast

lemma good_argD:
  "good_arg w \<Longrightarrow> w \<noteq> []" "good_arg w \<Longrightarrow> hd w \<noteq> CHR ''|''" "good_arg w \<Longrightarrow> \<not> IsDigit (hd w)"
  "good_arg w \<Longrightarrow> list_all (\<lambda>c. IsAlnum c \<or> crule_wild c) w" "good_arg w \<Longrightarrow> length w \<le> CR_MAXARGLEN - 1"
  "good_arg w \<Longrightarrow> collapse w = w"
  by (auto simp: good_arg_def CR_MAXARGLEN_def collapse_id)

lemma arglist_word:
  assumes "good_arg w" "c \<in> {CHR '')'', CHR '',''}" "tok = (if c = CHR '','' then CR_COMMA else CR_CLOSEPAREN)"
  shows "arglist args [] n CR_WORD (w @ c # s) = arglist args w (length w) tok s"
proof -
  have "crule_getword (CR_MAXARGLEN - 1) (w @ c # s) = (w, c # s)"
    using good_argD [OF assms(1)] not_word_chars assms(2) by (intro getword_word) auto
  moreover have "crule_gettoken (c # s) = (CR_NOERR, tok, s)" using assms(2,3) by auto
  ultimately show ?thesis by (subst arglist.simps) (simp add: add_word_def)
qed

lemma arglist_args:
  "list_all good_arg ws \<Longrightarrow> ws \<noteq> [] \<Longrightarrow> length args + length ws \<le> CR_MAXARGS \<Longrightarrow>
     arglist args [] n CR_WORD (join '','' ws @ '')'' @ s) = Some (CR_NOERR, args @ ws, CR_CLOSEPAREN, s)"
proof (induction ws arbitrary: args n rule: join.induct [of _ "''x''"])
  case (2 _ w)
  then show ?case
    using arglist_word [of w "CHR '')''" CR_CLOSEPAREN args n s] good_argD(1,6) [of w]
    by (simp add: arglist.simps [of args w "length w" CR_CLOSEPAREN s] Let_def)
next
  case (3 _ w v ws)
  have "arglist args [] n CR_WORD (w @ CHR '','' # join '','' (v # ws) @ '')'' @ s) =
      arglist args w (length w) CR_COMMA (join '','' (v # ws) @ '')'' @ s)"
    using "3.prems" by (intro arglist_word) auto
  moreover have "crule_gettoken (join '','' (v # ws) @ '')'' @ s) = (CR_NOERR, CR_WORD, join '','' (v # ws) @ '')'' @ s)"
    using "3.prems" good_argD [of v] gettoken_word [of v] by (cases ws) auto
  ultimately show ?case
    using "3.prems" "3.IH" [of "args @ [w]" "length w"] good_argD(1,6) [of w]
    by (simp add: arglist.simps [of args w "length w" CR_COMMA] Let_def)
qed simp

lemma func_name_word:
  "func_name f \<noteq> []" "hd (func_name f) \<noteq> CHR ''|''" "\<not> IsDigit (hd (func_name f))"
  "list_all (\<lambda>c. IsAlnum c \<or> crule_wild c) (func_name f)" "length (func_name f) \<le> CR_MAXARGLEN - 1"
  by (cases f; simp add: IsDigit_iff IsAlnum_iff IsAlpha_iff code_def CR_MAXARGLEN_def)+

lemma lower_letters:
  "97 \<le> code c \<Longrightarrow> code c \<le> 122 \<Longrightarrow> ToLower c = c"
  using code_ToLower [of c] code_inject [of "ToLower c" c] by simp

lemma lower_name: "map ToLower (func_name f) = func_name f"
  by (cases f) (simp_all add: lower_letters code_def)

lemma find_func_name: "find_func crule_funclist (func_name f) = Some (int (arity f), Some f)"
proof -
  have "ircd_strcmp (func_name g) (func_name f) = 0 \<longleftrightarrow> g = f" for g
    using strcmp_zero [of "func_name g" "func_name f"] unfolding lower_name
    by (cases f; cases g) (simp_all add: NUL_def del: ircd_strcmp.simps)
  from this [of crule_connected] this [of crule_directcon] this [of crule_via] this [of crule_directop]
  show ?thesis by (cases f) (simp_all add: crule_funclist_def del: ircd_strcmp.simps)
qed

lemma parsefunction_print:
  assumes "length args = arity f" "list_all good_arg args" "crule_gettoken rest = (CR_NOERR, tok, s)"
  shows "crule_parsefunction (print_prim (PFunc f args) @ rest) = Done CR_NOERR (Ptr (FuncNode (Some f) args)) tok s"
proof -
  have w: "crule_getword (CR_MAXARGLEN - 1) (func_name f @ CHR ''('' # t) = (func_name f, CHR ''('' # t)" for t
    using func_name_word(4,5) not_word_chars by (intro getword_word) auto
  have l: "length args \<le> CR_MAXARGS" using assms(1) by (cases f) (simp_all add: CR_MAXARGS_def)
  have "\<exists>t. crule_gettoken (join '','' args @ '')'' @ rest) = (CR_NOERR, t, if args = [] then rest else join '','' args @ '')'' @ rest) \<and>
      crule_parsearglist t (if args = [] then rest else join '','' args @ '')'' @ rest) = Some (CR_NOERR, args, CR_CLOSEPAREN, rest)"
  proof (cases args)
    case Nil
    then show ?thesis
      by (simp add: crule_parsearglist_def arglist.simps [of "[]" "[]" 0 CR_CLOSEPAREN] Let_def)
  next
    case (Cons v ws)
    have "crule_gettoken (join '','' args @ '')'' @ rest) = (CR_NOERR, CR_WORD, join '','' args @ '')'' @ rest)"
      using assms(2) Cons good_argD [of v] gettoken_word [of v] by (cases ws) auto
    then show ?thesis
      using arglist_args [of args "[]" 0 rest] assms(2) l Cons by (simp add: crule_parsearglist_def)
  qed
  then show ?thesis
    using w assms(1,3) find_func_name [of f] unfolding crule_parsefunction_def by (auto split: if_split_asm)
qed

text \<open>
  The loops of the or- and and-parsers differ in their operator and in the parser of their
  operands; what they do on a printed chain is proved once, for any such loop.
\<close>

definition reads :: "(nat \<Rightarrow> crule_token \<Rightarrow> string \<Rightarrow> outcome) \<Rightarrow> nat \<Rightarrow> (crule_token \<Rightarrow> bool) \<Rightarrow> string \<times> CRuleNode \<Rightarrow> bool" where
  "reads operand k stop i \<longleftrightarrow>
     (\<forall>rest. \<exists>tok s. crule_gettoken (fst i @ rest) = (CR_NOERR, tok, s) \<and>
        (\<forall>n tok' s'. crule_gettoken rest = (CR_NOERR, tok', s') \<longrightarrow> stop tok' \<longrightarrow> 3 * pending_size tok s + k \<le> n \<longrightarrow>
            operand n tok s = Done CR_NOERR (Ptr (snd i)) tok' s'))"

lemma readsD:
  assumes "reads operand k stop i"
  obtains tok s where "crule_gettoken (fst i @ rest) = (CR_NOERR, tok, s)"
    and "\<And>n tok' s'. crule_gettoken rest = (CR_NOERR, tok', s') \<Longrightarrow> stop tok' \<Longrightarrow> 3 * pending_size tok s + k \<le> n \<Longrightarrow>
      operand n tok s = Done CR_NOERR (Ptr (snd i)) tok' s'"
  using assms unfolding reads_def by blast

definition with_root :: "bool \<Rightarrow> CRuleNode option \<Rightarrow> CRuleNode list \<Rightarrow> CRuleNode" where
  "with_root isor acc ts =
     (case acc of None \<Rightarrow> chain isor ts | Some l \<Rightarrow> foldl (\<lambda>l r. AndOrNode (Ptr l) (Ptr r) isor) l ts)"

definition root_of :: "bool \<Rightarrow> CRuleNode option \<Rightarrow> crule_arg" where
  "root_of isor acc = (case acc of None \<Rightarrow> Null | Some l \<Rightarrow> Ptr (AndOrNode (Ptr l) Uninit isor))"

lemma root_of_end: "chain_end isor (root_of isor acc) e (Ptr t) tok s = Done e (Ptr (with_root isor acc [t])) tok s"
  by (simp add: chain_end_def root_of_def with_root_def split: option.split)

lemma root_of_more:
  "chain_more isor (root_of isor acc) (Ptr t) = root_of isor (Some (with_root isor acc [t]))"
  by (simp add: chain_more_def root_of_def with_root_def split: option.split)

lemma with_root_step: "with_root isor acc (t # ts) = with_root isor (Some (with_root isor acc [t])) ts"
  by (simp add: with_root_def split: option.split)

locale chain_loop =
  fixes loop :: "nat \<Rightarrow> crule_arg \<Rightarrow> crule_token \<Rightarrow> string \<Rightarrow> outcome"
    and operand :: "nat \<Rightarrow> crule_token \<Rightarrow> string \<Rightarrow> outcome"
    and isor :: bool
    and sep :: string
    and stop :: "crule_token \<Rightarrow> bool"
    and k :: nat
  assumes loop_step: "operand n tok s = Done CR_NOERR x tok1 s1 \<Longrightarrow> loop (Suc n) root tok s =
      (if tok1 = chain_op isor
       then (case crule_gettoken s1 of (e, tok, s) \<Rightarrow>
               if e = CR_NOERR then loop n (chain_more isor root x) tok s
               else Done e (chain_more isor root x) tok s)
       else chain_end isor root CR_NOERR x tok1 s1)"
    and operand_bound: "3 * pending_size tok s + k \<le> n \<Longrightarrow> ok_out (pending_size tok s) (operand n tok s)"
    and sep_token: "crule_gettoken (sep @ t) = (CR_NOERR, chain_op isor, t)"
    and stop_op: "stop (chain_op isor)"
begin

lemma loop_chain:
  assumes "cs \<noteq> []" "list_all (reads operand k stop) cs"
    and "crule_gettoken rest = (CR_NOERR, tok', s')" "stop tok'" "tok' \<noteq> chain_op isor"
    and "crule_gettoken (join sep (map fst cs) @ rest) = (CR_NOERR, tok, s)" "3 * pending_size tok s + Suc k \<le> n"
  shows "loop n (root_of isor acc) tok s = Done CR_NOERR (Ptr (with_root isor acc (map snd cs))) tok' s'"
  using assms(1,2,6,7)
proof (induction cs arbitrary: acc tok s n)
  case (Cons i cs)
  obtain m where n: "n = Suc m" "3 * pending_size tok s + k \<le> m" using Cons.prems(4) by (cases n) auto
  have i: "reads operand k stop i" and cs: "list_all (reads operand k stop) cs" using Cons.prems(2) by simp_all
  show ?case
  proof (cases "cs = []")
    case True
    obtain tok1 s1 where r: "crule_gettoken (fst i @ rest) = (CR_NOERR, tok1, s1)"
        "\<And>n. 3 * pending_size tok1 s1 + k \<le> n \<Longrightarrow> operand n tok1 s1 = Done CR_NOERR (Ptr (snd i)) tok' s'"
      using readsD [OF i, of rest] assms(3,4) by metis
    have "tok1 = tok" "s1 = s" using Cons.prems(3) r(1) True by simp_all
    with r(2) n(2) have "operand m tok s = Done CR_NOERR (Ptr (snd i)) tok' s'" by simp
    then show ?thesis using loop_step assms(5) True n(1) by (simp add: root_of_end)
  next
    case False
    then obtain j cs' where j: "cs = j # cs'" by (cases cs) auto
    let ?rest = "join sep (map fst cs) @ rest"
    have "?rest = fst j @ (if cs' = [] then rest else sep @ join sep (map fst cs') @ rest)"
      using j by (cases cs') auto
    moreover have "reads operand k stop j" using cs j by simp
    ultimately obtain tok0 s0 where g: "crule_gettoken ?rest = (CR_NOERR, tok0, s0)"
      using readsD [of operand k stop j] by metis
    obtain tok1 s1 where r: "crule_gettoken (fst i @ sep @ ?rest) = (CR_NOERR, tok1, s1)"
        "\<And>n. 3 * pending_size tok1 s1 + k \<le> n \<Longrightarrow>
          operand n tok1 s1 = Done CR_NOERR (Ptr (snd i)) (chain_op isor) ?rest"
      using readsD [OF i, of "sep @ ?rest"] sep_token stop_op by metis
    have "tok1 = tok" "s1 = s" using Cons.prems(3) r(1) j by simp_all
    with r(2) n(2) have op: "operand m tok s = Done CR_NOERR (Ptr (snd i)) (chain_op isor) ?rest" by simp
    have "pending_size (chain_op isor) ?rest \<le> pending_size tok s" using operand_bound [OF n(2)] op by simp
    moreover have "pending_size (chain_op isor) ?rest = 2 * length ?rest + 1"
      by (simp add: pending_size_def chain_op_def)
    ultimately have "pending_size tok0 s0 < pending_size tok s" using pending_gettoken [OF g] by linarith
    then have "3 * pending_size tok0 s0 + Suc k \<le> m" using n(2) by simp
    from Cons.IH [OF False cs g this]
    have "loop m (root_of isor (Some (with_root isor acc [snd i]))) tok0 s0 =
        Done CR_NOERR (Ptr (with_root isor (Some (with_root isor acc [snd i])) (map snd cs))) tok' s'" .
    then show ?thesis
      using loop_step [OF op] g n(1) by (simp add: root_of_more with_root_step [of isor acc "snd i" "map snd cs"])
  qed
qed simp

end

interpretation or_chain: chain_loop parseorexpr "\<lambda>n. parseandexpr n Null" True "''||''" "\<lambda>t. t \<noteq> CR_AND" 2
  by unfold_locales (use parse_ok(2) in \<open>auto simp: chain_op_def\<close>)

interpretation and_chain: chain_loop parseandexpr "\<lambda>n. parseprimary n True" False "''&&''" "\<lambda>t. True" 1
  by unfold_locales (use parse_ok(3) in \<open>auto simp: chain_op_def\<close>)


text \<open>A printed chain starts with the first token of its first operand.\<close>

lemma join_token:
  assumes "cs \<noteq> []" "list_all (reads operand k stop) cs"
  shows "\<exists>tok s. crule_gettoken (join sep (map fst cs) @ rest) = (CR_NOERR, tok, s)"
proof -
  obtain j cs' where j: "cs = j # cs'" using assms(1) by (cases cs) auto
  then have "join sep (map fst cs) @ rest = fst j @ (if cs' = [] then rest else sep @ join sep (map fst cs') @ rest)"
    by (cases cs') auto
  moreover have "reads operand k stop j" using assms(2) j by simp
  ultimately show ?thesis using readsD [of operand k stop j] by metis
qed

lemma and_reads:
  assumes "cs \<noteq> []" "list_all (reads (\<lambda>n. parseprimary n True) 1 (\<lambda>t. True)) cs"
  shows "reads (\<lambda>n. parseandexpr n Null) 2 (\<lambda>t. t \<noteq> CR_AND) (join ''&&'' (map fst cs), chain False (map snd cs))"
  unfolding reads_def
proof (intro allI)
  fix rest
  obtain tok s where g: "crule_gettoken (join ''&&'' (map fst cs) @ rest) = (CR_NOERR, tok, s)"
    using join_token [OF assms] by blast
  have "parseandexpr n Null tok s = Done CR_NOERR (Ptr (chain False (map snd cs))) tok' s'"
    if "crule_gettoken rest = (CR_NOERR, tok', s')" "tok' \<noteq> CR_AND" "3 * pending_size tok s + 2 \<le> n" for n tok' s'
    using and_chain.loop_chain [OF assms that(1) TrueI _ g, of n None] that(2,3)
    by (simp add: chain_op_def root_of_def with_root_def)
  with g show "\<exists>tok s. crule_gettoken (fst (join ''&&'' (map fst cs), chain False (map snd cs)) @ rest) = (CR_NOERR, tok, s) \<and>
      (\<forall>n tok' s'. crule_gettoken rest = (CR_NOERR, tok', s') \<longrightarrow> tok' \<noteq> CR_AND \<longrightarrow> 3 * pending_size tok s + 2 \<le> n \<longrightarrow>
         parseandexpr n Null tok s = Done CR_NOERR (Ptr (snd (join ''&&'' (map fst cs), chain False (map snd cs)))) tok' s')"
    by auto
qed

definition or_item :: "prim list \<Rightarrow> string \<times> CRuleNode" where
  "or_item as = (join ''&&'' (map print_prim as), chain False (map tree as))"

lemma print_rule_items: "print_rule ors = join ''||'' (map fst (map or_item ors))"
    "rule_tree ors = chain True (map snd (map or_item ors))"
  by (simp_all add: print_rule_def rule_tree_def or_item_def o_def)

lemma or_item_reads:
  assumes "as \<noteq> []" "list_all (\<lambda>p. reads (\<lambda>n. parseprimary n True) 1 (\<lambda>t. True) (print_prim p, tree p)) as"
  shows "reads (\<lambda>n. parseandexpr n Null) 2 (\<lambda>t. t \<noteq> CR_AND) (or_item as)"
  using and_reads [of "map (\<lambda>p. (print_prim p, tree p)) as"] assms
  by (simp add: or_item_def list_all_iff o_def)

lemma or_reads:
  assumes "ors \<noteq> []" "list_all (\<lambda>as. reads (\<lambda>n. parseandexpr n Null) 2 (\<lambda>t. t \<noteq> CR_AND) (or_item as)) ors"
    and "crule_gettoken rest = (CR_NOERR, tok', s')" "tok' \<noteq> CR_AND" "tok' \<noteq> CR_OR"
  obtains tok s where "crule_gettoken (print_rule ors @ rest) = (CR_NOERR, tok, s)"
    and "\<And>n. 3 * pending_size tok s + 3 \<le> n \<Longrightarrow> parseorexpr n Null tok s = Done CR_NOERR (Ptr (rule_tree ors)) tok' s'"
proof -
  have cs: "map or_item ors \<noteq> []" "list_all (reads (\<lambda>n. parseandexpr n Null) 2 (\<lambda>t. t \<noteq> CR_AND)) (map or_item ors)"
    using assms(1,2) by (simp_all add: list_all_iff)
  obtain tok s where g: "crule_gettoken (print_rule ors @ rest) = (CR_NOERR, tok, s)"
    using join_token [OF cs] print_rule_items(1) by metis
  moreover have "parseorexpr n Null tok s = Done CR_NOERR (Ptr (rule_tree ors)) tok' s'"
    if "3 * pending_size tok s + 3 \<le> n" for n
    using or_chain.loop_chain [OF cs assms(3,4) _ g [unfolded print_rule_items], of n None] that assms(5)
    by (simp add: chain_op_def root_of_def with_root_def print_rule_items)
  ultimately show ?thesis using that by blast
qed

lemma prim_reads: "good_prim p \<Longrightarrow> reads (\<lambda>n. parseprimary n outer) 1 (\<lambda>t. True) (print_prim p, tree p)"
proof (induction p arbitrary: outer)
  case (PFunc f args)
  have "crule_gettoken (print_prim (PFunc f args) @ rest) = (CR_NOERR, CR_WORD, print_prim (PFunc f args) @ rest)" for rest
    using gettoken_word [OF func_name_word(1-4), of f] by simp
  moreover have "parseprimary n outer CR_WORD s = crule_parsefunction s" if "0 < n" for n s
    using that by (cases n) auto
  ultimately show ?case
    using PFunc parsefunction_print [of args f] unfolding reads_def by auto
next
  case (PNot p)
  have "\<exists>tok s. crule_gettoken (print_prim (PNot p) @ rest) = (CR_NOERR, tok, s) \<and>
      (\<forall>n tok' s'. crule_gettoken rest = (CR_NOERR, tok', s') \<longrightarrow> 3 * pending_size tok s + 1 \<le> n \<longrightarrow>
         parseprimary n outer tok s = Done CR_NOERR (Ptr (tree (PNot p))) tok' s')" for rest
  proof -
    obtain tok s where r: "crule_gettoken (print_prim p @ rest) = (CR_NOERR, tok, s)"
        "\<And>n tok' s'. crule_gettoken rest = (CR_NOERR, tok', s') \<Longrightarrow> 3 * pending_size tok s + 1 \<le> n \<Longrightarrow>
          parseprimary n False tok s = Done CR_NOERR (Ptr (tree p)) tok' s'"
      using readsD [OF PNot.IH [of False], of rest] PNot.prems by auto
    have "parseprimary n outer CR_NOT (print_prim p @ rest) = Done CR_NOERR (Ptr (tree (PNot p))) tok' s'"
      if tk: "crule_gettoken rest = (CR_NOERR, tok', s')" and nn: "3 * pending_size CR_NOT (print_prim p @ rest) + 1 \<le> n" for n tok' s'
    proof -
      obtain m where m: "n = Suc m" using nn by (cases n) auto
      have "3 * pending_size tok s + 1 \<le> m"
        using pending_gettoken [OF r(1)] nn m by (simp add: pending_size_def [of CR_NOT])
      then show ?thesis using r tk m by simp
    qed
    then show ?thesis by auto
  qed
  then show ?case unfolding reads_def by simp
next
  case (PParen ors)
  have o: "ors \<noteq> []" "list_all (\<lambda>as. reads (\<lambda>n. parseandexpr n Null) 2 (\<lambda>t. t \<noteq> CR_AND) (or_item as)) ors"
    using PParen by (auto simp: list_all_iff intro!: or_item_reads)
  have pr: "print_prim (PParen ors) @ rest = CHR ''('' # print_rule ors @ CHR '')'' # rest" for rest
    by (simp add: print_rule_def)
  have "\<exists>tok s. crule_gettoken (print_prim (PParen ors) @ rest) = (CR_NOERR, tok, s) \<and>
      (\<forall>n tok' s'. crule_gettoken rest = (CR_NOERR, tok', s') \<longrightarrow> 3 * pending_size tok s + 1 \<le> n \<longrightarrow>
         parseprimary n outer tok s = Done CR_NOERR (Ptr (tree (PParen ors))) tok' s')" for rest
  proof -
    let ?s = "print_rule ors @ CHR '')'' # rest"
    obtain tok s where r: "crule_gettoken ?s = (CR_NOERR, tok, s)"
        "\<And>n. 3 * pending_size tok s + 3 \<le> n \<Longrightarrow>
          parseorexpr n Null tok s = Done CR_NOERR (Ptr (rule_tree ors)) CR_CLOSEPAREN rest"
      using or_reads [OF o, of "CHR '')'' # rest" CR_CLOSEPAREN rest] by auto
    have "parseprimary n outer CR_OPENPAREN ?s = Done CR_NOERR (Ptr (tree (PParen ors))) tok' s'"
      if tk: "crule_gettoken rest = (CR_NOERR, tok', s')" and nn: "3 * pending_size CR_OPENPAREN ?s + 1 \<le> n" for n tok' s'
    proof -
      obtain m where m: "n = Suc m" using nn by (cases n) auto
      have "3 * pending_size tok s + 3 \<le> m"
        using pending_gettoken [OF r(1)] nn m by (simp add: pending_size_def [of CR_OPENPAREN])
      then show ?thesis using r tk m by (simp add: rule_tree_def)
    qed
    then show ?thesis unfolding pr by auto
  qed
  then show ?case unfolding reads_def by (simp del: print_prim.simps)
qed

definition good_rule :: "prim list list \<Rightarrow> bool" where
  "good_rule ors \<longleftrightarrow> ors \<noteq> [] \<and> list_all (\<lambda>as. as \<noteq> [] \<and> list_all good_prim as) ors"

lemma crule_parse_printed:
  assumes "good_rule ors"
  shows "crule_parse (print_rule ors) = Rule (rule_tree ors)"
proof -
  have "list_all (\<lambda>as. reads (\<lambda>n. parseandexpr n Null) 2 (\<lambda>t. t \<noteq> CR_AND) (or_item as)) ors"
    using assms prim_reads unfolding good_rule_def list_all_iff by (intro ballI or_item_reads) (auto simp: list_all_iff)
  moreover have "ors \<noteq> []" using assms by (simp add: good_rule_def)
  ultimately obtain tok s where r: "crule_gettoken (print_rule ors) = (CR_NOERR, tok, s)"
      "\<And>n. 3 * pending_size tok s + 3 \<le> n \<Longrightarrow> parseorexpr n Null tok s = Done CR_NOERR (Ptr (rule_tree ors)) CR_END []"
    using or_reads [of ors "[]" CR_END "[]"] by auto
  have "3 * pending_size tok s + 3 \<le> crule_fuel (print_rule ors)"
    using pending_gettoken [OF r(1)] by (simp add: crule_fuel_def)
  then show ?thesis using r by (simp add: crule_parse_def)
qed

section \<open>Ill-formed rules\<close>

lemma parse_operator:
  "parseorexpr (Suc (Suc (Suc n))) Null CR_OR s =
     (case crule_gettoken s of (e, tok, s) \<Rightarrow>
        if e = CR_NOERR then parseorexpr (Suc (Suc n)) (Ptr (AndOrNode Null Uninit True)) tok s
        else Done e (Ptr (AndOrNode Null Uninit True)) tok s)"
proof -
  have "chain_more True Null Null = Ptr (AndOrNode Null Uninit True)" by (simp add: chain_more_def)
  then show ?thesis by (simp add: chain_op_def chain_end_def split: prod.split)
qed

lemma parse_call:
  assumes "crule_parsefunction s = Done CR_NOERR (Ptr x) tok s'" "tok \<noteq> CR_AND"
  shows "parseorexpr (Suc (Suc (Suc n))) root CR_WORD s =
     (if tok = CR_OR
      then (case crule_gettoken s' of (e, tok, s) \<Rightarrow>
              if e = CR_NOERR then parseorexpr (Suc (Suc n)) (chain_more True root (Ptr x)) tok s
              else Done e (chain_more True root (Ptr x)) tok s)
      else chain_end True root CR_NOERR (Ptr x) tok s')"
proof -
  have "parseandexpr (Suc (Suc n)) Null CR_WORD s = Done CR_NOERR (Ptr x) tok s'"
    using assms by (simp add: chain_op_def chain_end_def)
  then show ?thesis by (simp add: chain_op_def del: parseandexpr.simps)
qed

lemma directop_call:
  assumes "crule_gettoken rest = (CR_NOERR, tok, s)"
  shows "crule_gettoken (''directop()'' @ rest) = (CR_NOERR, CR_WORD, ''directop()'' @ rest)"
    and "crule_parsefunction (''directop()'' @ rest) = Done CR_NOERR (Ptr (FuncNode (Some crule_directop) [])) tok s"
  using gettoken_word [OF func_name_word(1-4), of crule_directop "''()'' @ rest"]
    parsefunction_print [of "[]" crule_directop rest tok s] assms by simp_all

lemma fuel_Suc: "s \<noteq> [] \<Longrightarrow> \<exists>n. crule_fuel s = Suc (Suc (Suc (Suc n)))"
  by (cases s) (auto simp: crule_fuel_def intro!: exI [of _ "6 * length _ + 5"])

lemma leading_operator:
  "crule_parse ''||directop()'' = Rule (AndOrNode Null (Ptr (FuncNode (Some crule_directop) [])) True)"
proof -
  obtain n where n: "crule_fuel ''||directop()'' = Suc (Suc (Suc (Suc n)))" using fuel_Suc by blast
  show ?thesis
    using directop_call [of "[]" CR_END "[]"] parse_call [of "''directop()''" _ CR_END "[]" n]
    unfolding crule_parse_def n by (simp add: parse_operator chain_end_def del: parseorexpr.simps)
qed

lemma dangling_operator: "crule_parse ''directop()||$'' = Crashed"
proof -
  obtain n where n: "crule_fuel ''directop()||$'' = Suc (Suc (Suc (Suc n)))" using fuel_Suc by blast
  have "crule_gettoken ''$'' = (CR_UNKNWTOK, CR_UNKNOWN, ''$'')"
    by (simp add: crule_gettoken_def IsAlpha_iff code_def crule_wild_def)
  then show ?thesis
    using directop_call [of "''||$''" CR_OR "''$''"] parse_call [of "''directop()||$''" _ CR_OR "''$''" "Suc n"]
    unfolding crule_parse_def n by (simp add: chain_more_def parse_abort_def del: parseorexpr.simps)
qed

lemma letter_arg: "97 \<le> code c \<Longrightarrow> code c \<le> 122 \<Longrightarrow> good_arg [c]"
  by (auto simp: good_arg_def CR_MAXARGLEN_def IsDigit_iff IsAlnum_iff IsAlpha_iff code_def)

lemma four_arguments: "crule_parse ''via(a,b,c,d)'' = Crashed"
proof -
  obtain n where n: "crule_fuel ''via(a,b,c,d)'' = Suc (Suc (Suc (Suc n)))" using fuel_Suc by blast
  have g: "good_arg ''a''" "good_arg ''b''" "good_arg ''c''" "good_arg ''d''"
    by (simp_all add: letter_arg code_def)
  have c: "collapse [x] = [x]" for x by simp
  have t: "crule_gettoken (x # s) = (CR_NOERR, CR_WORD, x # s)" if "97 \<le> code x" "code x \<le> 122" for x s
    using gettoken_word [of "[x]" s] good_argD(2-4) [OF letter_arg [OF that]] by simp
  have "arglist [] [] 0 CR_WORD ''a,b,c,d)'' = None"
    using arglist_word [OF g(1), of "CHR '',''" CR_COMMA "[]" 0 "''b,c,d)''"] arglist_word [OF g(2), of "CHR '',''" CR_COMMA "[''a'']" 1 "''c,d)''"]
      arglist_word [OF g(3), of "CHR '',''" CR_COMMA "[''a'', ''b'']" 1 "''d)''"]
      arglist_word [OF g(4), of "CHR '')''" CR_CLOSEPAREN "[''a'', ''b'', ''c'']" 1 "[]"]
    by (simp add: t code_def Let_def CR_MAXARGS_def
      arglist.simps [of "[]" "''a''"] arglist.simps [of "[''a'']" "''b''"] arglist.simps [of "[''a'', ''b'']" "''c''"]
      arglist.simps [of "[''a'', ''b'', ''c'']" "''d''"])
  moreover have "crule_getword (CR_MAXARGLEN - 1) ''via(a,b,c,d)'' = (''via'', ''(a,b,c,d)'')"
    using getword_word [of "func_name crule_via" "CR_MAXARGLEN - 1" "CHR ''(''" "''a,b,c,d)''"] func_name_word(4,5) [of crule_via] not_word_chars
    by simp
  ultimately have "crule_parsefunction ''via(a,b,c,d)'' = Crash"
    using find_func_name [of crule_via] by (simp add: crule_parsefunction_def crule_parsearglist_def t code_def)
  moreover have "crule_gettoken ''via(a,b,c,d)'' = (CR_NOERR, CR_WORD, ''via(a,b,c,d)'')" by (simp add: t code_def)
  ultimately show ?thesis unfolding crule_parse_def n by simp
qed

section \<open>Properties\<close>

text \<open>C17. The recursive descent ends on every text. The fuel of \<^verbatim>\<open>crule_parse\<close>, six times the length of the rule and three, bounds the nested calls
  and iterations: the parser never runs out of it, and any larger amount leads to the same outcome, so the outcome is that of the unbounded recursion. The
  outcome is a tree, an error code or, for rules such as those of \<open>crule_parse_undefined\<close>, undefined behaviour; the theorem says that it is reached, not which
  of the three it is.\<close>

theorem crule_parse_total:
  "crule_parse rule \<noteq> NoFuel \<and>
   (crule_gettoken rule = (CR_NOERR, tok, s) \<and> crule_fuel rule \<le> n \<longrightarrow>
     parseorexpr n Null tok s \<noteq> OutOfFuel \<and> parseorexpr n Null tok s = parseorexpr (crule_fuel rule) Null tok s)"
proof (intro conjI impI)
  show "crule_parse rule \<noteq> NoFuel" by (rule crule_parse_fuel)
  assume g: "crule_gettoken rule = (CR_NOERR, tok, s) \<and> crule_fuel rule \<le> n"
  have "ok_out (pending_size tok s) (parseorexpr (crule_fuel rule) Null tok s)"
    using pending_gettoken [of rule tok s] g by (intro parse_ok) (simp add: crule_fuel_def)
  then have more: "parseorexpr (crule_fuel rule) Null tok s \<noteq> OutOfFuel" by auto
  show same: "parseorexpr n Null tok s = parseorexpr (crule_fuel rule) Null tok s" by (rule parse_enough [OF more conjunct2 [OF g]])
  show "parseorexpr n Null tok s \<noteq> OutOfFuel" unfolding same by (rule more)
qed

theorem crule_parse_total_witness:
  "crule_parse ''!(a'' \<noteq> NoFuel \<and> parseorexpr 1000 Null CR_NOT ''(a'' \<noteq> OutOfFuel"
proof -
  have "crule_gettoken ''!(a'' = (CR_NOERR, CR_NOT, ''(a'')" by (simp add: crule_gettoken_def)
  moreover have "crule_fuel ''!(a'' \<le> 1000" by (simp add: crule_fuel_def)
  ultimately show ?thesis using crule_parse_total [of "''!(a''" CR_NOT "''(a''" 1000] by blast
qed

text \<open>C16. Printing a rule of the language of the grammar in \<^verbatim>\<open>crule.c\<close> (functions with the number of arguments they require, negations, parentheses,
  chains of \<open>&&\<close> and \<open>||\<close>) and parsing it gives back the tree of the rule, with \<open>&&\<close> binding tighter than \<open>||\<close>. The code groups chains to the left
  where the productions in the comment are right recursive; the truth value of the tree is the one the rule says, which does not depend on the grouping.\<close>

theorem crule_parse_print:
  assumes "good_rule ors"
  shows "crule_parse (print_rule ors) = Rule (rule_tree ors) \<and> node_sem net (rule_tree ors) = rule_sem net ors"
proof
  show "crule_parse (print_rule ors) = Rule (rule_tree ors)" by (rule crule_parse_printed [OF assms])
  show "node_sem net (rule_tree ors) = rule_sem net ors"
    unfolding rule_tree_def using assms tree_sem by (intro chains_sem) (auto simp: good_rule_def list_all_iff)
qed

theorem crule_parse_print_witness:
  "crule_parse (print_rule [[PFunc crule_directop [], PNot (PParen [[PFunc crule_via [''*'', ''eu'']]])], [PFunc crule_directop []]]) =
     Rule (rule_tree [[PFunc crule_directop [], PNot (PParen [[PFunc crule_via [''*'', ''eu'']]])], [PFunc crule_directop []]])"
proof -
  have "good_arg ''*''" "good_arg ''eu''"
    by (simp_all add: good_arg_def CR_MAXARGLEN_def crule_wild_def IsDigit_iff IsAlnum_iff IsAlpha_iff code_def)
  then show ?thesis by (intro crule_parse_print [THEN conjunct1]) (simp add: good_rule_def)
qed

text \<open>C18. Every tree the parser accepts is well formed (each function has exactly the arguments it reads, each negation has its operand, no slot of
  an operator is left unwritten). When moreover no operand is NULL and no mask contains a backslash, evaluating it reads only valid pointers, and when no user
  has a name that matches a mask for servers of \<open>connected\<close> or \<open>via\<close>, it gives the truth value of the rule over the servers of the network. (The code
  compares users like servers; for a mask with a dot, as \<open>dotted_mask_clear\<close> shows, that makes no difference.)\<close>

theorem crule_accepted_eval:
  assumes "crule_parse rule = Rule r"
  shows "node_ok r \<and> (node_full r \<longrightarrow> crule_eval net r \<noteq> None) \<and>
    (node_full r \<and> node_clear net r \<longrightarrow> crule_eval net r = Some (node_sem net r))"
  using crule_parse_node_ok [OF assms] crule_eval_defined(1) crule_eval_sem(1) by blast

definition demo_net_rule :: crule_net where
  "demo_net_rule = \<lparr>GlobalClientList = [\<lparr>crc_name = ''eu'', crc_server = False, crc_me = False, crc_oper = False, crc_from = ''hub.eu''\<rparr>,
     \<lparr>crc_name = ''hub.eu'', crc_server = True, crc_me = False, crc_oper = False, crc_from = ''hub.eu''\<rparr>], LocalClientArray = []\<rparr>"

lemma demo_call:
  assumes "good_arg m"
  shows "crule_parse (print_rule [[PFunc crule_connected [m]]]) = Rule (FuncNode (Some crule_connected) [m])"
  using crule_parse_printed [of "[[PFunc crule_connected [m]]]"] assms by (simp add: good_rule_def rule_tree_def)

lemma demo_masks: "good_arg ''*.eu''" "good_arg ''eu''"
  by (simp_all add: good_arg_def CR_MAXARGLEN_def crule_wild_def IsDigit_iff IsAlnum_iff IsAlpha_iff code_def)

theorem crule_accepted_eval_witness:
  "crule_eval demo_net_rule (FuncNode (Some crule_connected) [''*.eu'']) = Some True"
proof -
  have "glob ''*.eu'' ''hub.eu''" "\<not> glob ''*.eu'' ''eu''" by code_simp+
  then show ?thesis
    using crule_accepted_eval [OF demo_call [OF demo_masks(1)], of demo_net_rule]
    by (simp add: users_clear_def mask_clear_def func_sem_def sane_mask_def demo_net_rule_def)
qed

text \<open>The masks for which the condition holds whatever the nicknames are: those with a dot.\<close>

lemma glob_literal: "glob m n \<Longrightarrow> c \<in> set m \<Longrightarrow> c \<noteq> CHR ''*'' \<Longrightarrow> c \<noteq> CHR ''?'' \<Longrightarrow> ToLower c \<in> ToLower ` set n"
  by (induction m n rule: glob.induct) (auto split: if_splits)

lemma dotted_mask_clear:
  assumes "CHR ''.'' \<in> set m" and "\<forall>c\<in>set (GlobalClientList net). \<not> crc_server c \<and> \<not> crc_me c \<longrightarrow> CHR ''.'' \<notin> set (crc_name c)"
  shows "mask_clear net m"
proof -
  have dot: "c = CHR ''.''" if "ToLower c = ToLower (CHR ''.'')" for c
  proof -
    have "code (CHR ''.'') = 46" by (simp add: code_def)
    then have "code c = 46" using arg_cong [OF that, of code] by (simp add: code_ToLower split: if_splits)
    then show ?thesis by (simp add: code_inject [symmetric] code_def)
  qed
  have "CHR ''.'' \<in> set n" if g: "glob m n" for n
  proof -
    obtain c where "c \<in> set n" "ToLower c = ToLower (CHR ''.'')" using glob_literal [OF g assms(1)] by auto
    then show ?thesis using dot by blast
  qed
  then show ?thesis using assms(2) by (auto simp: mask_clear_def list_all_iff)
qed

text \<open>A user that is called like the mask counts as a connected server.\<close>

lemma crule_counts_users:
  "crule_eval demo_net_rule (FuncNode (Some crule_connected) [''eu'']) = Some True \<and>
   \<not> node_sem demo_net_rule (FuncNode (Some crule_connected) [''eu''])"
proof -
  have "glob ''eu'' ''eu''" "\<not> glob ''eu'' ''hub.eu''" by code_simp+
  then show ?thesis by (simp add: call_func_def func_sem_def demo_net_rule_def match_glob)
qed

text \<open>Ill-formed rules reach undefined behaviour instead of an error. A rule that starts with an
  operator is accepted with a NULL operand, which the evaluation dereferences; when the text after
  an operator is no token, the release of the unfinished tree follows the unwritten slot of the operator;
  a fourth argument is stored behind the three slots of its node.\<close>

lemma crule_parse_undefined:
  "(\<exists>r. crule_parse ''||directop()'' = Rule r \<and> crule_eval net r = None) \<and>
   crule_parse ''directop()||$'' = Crashed \<and> crule_parse ''via(a,b,c,d)'' = Crashed"
  using leading_operator dangling_operator four_arguments by simp

end
