(* ===== verification/Whowas.thy ===== *)
theory Whowas
  imports Ircd_String
begin

text \<open>
  The nickname history (src/ircd/whowas.c, src/include/whowas.h): a bounded list of the most
  recent sign-offs and nick changes whose records lie on three linked lists at once, the list of
  all records, the list of their hash bucket and the list of the client they belong to.

  The model keeps the pointers: records live in a heap, and a pointer to a pointer (\<open>hprevnextp\<close>,
  \<open>cprevnextp\<close>) is a value of \<open>loc\<close>, the place it points at. Dereferencing NULL or a record that is
  not allocated gives \<^const>\<open>None\<close>. The walks along a list carry fuel one larger than the number of
  allocated records; the invariant makes every list a part of the allocated records, so a walk that runs
  out of fuel is on a cycle.
\<close>

section \<open>Records and state\<close>

datatype loc = NoLoc | HashHead nat | HNext cptr | CliHead cptr | CNext cptr

record Whowas =
  hashv :: nat
  ww_name :: string
  username :: string
  hostname :: string
  realhost :: "string option"
  servername :: string
  realname :: string
  away :: "string option"
  logoff :: int
  ww_ip :: "u16 list"
  online :: "cptr option"
  hnext :: "cptr option"
  hprevnextp :: loc
  cnext :: "cptr option"
  cprevnextp :: loc
  wnext :: "cptr option"
  wprev :: "cptr option"

definition ww_zero :: Whowas where
  "ww_zero = \<lparr>hashv = 0, ww_name = [], username = [], hostname = [], realhost = None, servername = [],
     realname = [], away = None, logoff = 0, ww_ip = [], online = None, hnext = None, hprevnextp = NoLoc,
     cnext = None, cprevnextp = NoLoc, wnext = None, wprev = None\<rparr>"

record ww_state =
  ww_heap :: "cptr \<rightharpoonup> Whowas"
  ww_list :: "cptr option"
  ww_tail :: "cptr option"
  ww_alloc :: nat
  whowashash :: "nat \<Rightarrow> cptr option"
  cli_whowas :: "cptr \<Rightarrow> cptr option"

text \<open>What \<^verbatim>\<open>add_history\<close> reads of a client.\<close>

record ww_client =
  wc_name :: string
  wc_username :: string
  wc_host :: string
  wc_hidden :: bool
  wc_realhost :: string
  wc_ip :: "u16 list"
  wc_server :: string
  wc_info :: string
  wc_away :: "string option"

section \<open>Hashing\<close>

definition BITS_PER_COL :: nat where "BITS_PER_COL = 3"
definition BITS_PER_COL_MASK :: u32 where "BITS_PER_COL_MASK = 0x7"
definition WW_MAX_INITIAL :: u32 where "WW_MAX_INITIAL = 16"
definition WW_MAX :: nat where "WW_MAX = 128"

fun hash_loop :: "u32 \<Rightarrow> u32 \<Rightarrow> string \<Rightarrow> u32 \<times> u32" where
  "hash_loop hash hash2 [] = (hash, hash2)"
| "hash_loop hash hash2 (c # name) =
     (let lower = word_of_nat (code (ToLower c))
      in hash_loop (push_bit 1 hash + lower) (drop_bit 1 hash2 + lower) name)"

text \<open>The loop tests the character behind the one it has read, so it needs a non-empty name.\<close>

definition hash_whowas_name :: "string \<Rightarrow> nat option" where
  "hash_whowas_name name =
     (if name = [] then None
      else case hash_loop 0 0 name of (hash, hash2) \<Rightarrow>
        Some (unat (push_bit BITS_PER_COL (hash AND (WW_MAX_INITIAL - 1)) + (hash2 AND BITS_PER_COL_MASK))))"

section \<open>Pointers\<close>

definition upd :: "cptr \<Rightarrow> (Whowas \<Rightarrow> Whowas) \<Rightarrow> ww_state \<Rightarrow> ww_state option" where
  "upd p f s =
     (case ww_heap s p of None \<Rightarrow> None | Some w \<Rightarrow> Some (s\<lparr>ww_heap := (ww_heap s)(p \<mapsto> f w)\<rparr>))"

fun store :: "loc \<Rightarrow> cptr option \<Rightarrow> ww_state \<Rightarrow> ww_state option" where
  "store NoLoc v s = None"
| "store (HashHead i) v s = (if i < WW_MAX then Some (s\<lparr>whowashash := (whowashash s)(i := v)\<rparr>) else None)"
| "store (HNext p) v s = upd p (\<lambda>w. w\<lparr>hnext := v\<rparr>) s"
| "store (CliHead c) v s = Some (s\<lparr>cli_whowas := (cli_whowas s)(c := v)\<rparr>)"
| "store (CNext p) v s = upd p (\<lambda>w. w\<lparr>cnext := v\<rparr>) s"

definition upd_opt :: "cptr option \<Rightarrow> (Whowas \<Rightarrow> Whowas) \<Rightarrow> ww_state \<Rightarrow> ww_state option" where
  "upd_opt p f s = (case p of None \<Rightarrow> Some s | Some q \<Rightarrow> upd q f s)"

section \<open>Operations\<close>

text \<open>Every statement reads the record again, because a store before it may have changed it.\<close>

definition clean_online :: "cptr \<Rightarrow> ww_state \<Rightarrow> ww_state option" where
  "clean_online ww s =
     do { w \<leftarrow> ww_heap s ww;
          if online w = None then Some s
          else do { s \<leftarrow> upd_opt (cnext w) (\<lambda>x. x\<lparr>cprevnextp := cprevnextp w\<rparr>) s;
                    w \<leftarrow> ww_heap s ww;
                    store (cprevnextp w) (cnext w) s } }"

definition clean_hash :: "cptr \<Rightarrow> ww_state \<Rightarrow> ww_state option" where
  "clean_hash ww s =
     do { w \<leftarrow> ww_heap s ww;
          s \<leftarrow> upd_opt (hnext w) (\<lambda>x. x\<lparr>hprevnextp := hprevnextp w\<rparr>) s;
          w \<leftarrow> ww_heap s ww;
          store (hprevnextp w) (hnext w) s }"

definition clean_list :: "cptr \<Rightarrow> ww_state \<Rightarrow> ww_state option" where
  "clean_list ww s =
     do { w \<leftarrow> ww_heap s ww;
          s \<leftarrow> upd_opt (wnext w) (\<lambda>x. x\<lparr>wprev := wprev w\<rparr>) s;
          w \<leftarrow> ww_heap s ww;
          s \<leftarrow> upd_opt (wprev w) (\<lambda>x. x\<lparr>wnext := wnext w\<rparr>) s;
          w \<leftarrow> ww_heap s ww;
          Some (if ww_tail s = Some ww then s\<lparr>ww_tail := wprev w\<rparr> else s) }"

definition whowas_clean :: "cptr \<Rightarrow> ww_state \<Rightarrow> ww_state option" where
  "whowas_clean ww s = do { s \<leftarrow> clean_online ww s; s \<leftarrow> clean_hash ww s; clean_list ww s }"

definition whowas_free :: "cptr \<Rightarrow> ww_state \<Rightarrow> ww_state option" where
  "whowas_free ww s =
     do { s \<leftarrow> whowas_clean ww s;
          Some (s\<lparr>ww_heap := (ww_heap s)(ww := None), ww_alloc := ww_alloc s - 1\<rparr>) }"

text \<open>\<open>len\<close> is the feature NICKNAMEHISTORYLENGTH and \<open>fresh\<close> the block the allocator would return.\<close>

definition whowas_alloc :: "nat \<Rightarrow> cptr \<Rightarrow> ww_state \<Rightarrow> (cptr \<times> ww_state) option" where
  "whowas_alloc len fresh s =
     do { (ww, s) \<leftarrow>
            (if ww_alloc s \<ge> len
             then do { ww \<leftarrow> ww_tail s; s \<leftarrow> whowas_clean ww s; Some (ww, s) }
             else Some (fresh, s\<lparr>ww_alloc := ww_alloc s + 1\<rparr>));
          Some (ww, s\<lparr>ww_heap := (ww_heap s)(ww \<mapsto> ww_zero)\<rparr>) }"

fun realloc_loop :: "nat \<Rightarrow> nat \<Rightarrow> ww_state \<Rightarrow> ww_state option" where
  "realloc_loop 0 len s = Some s"
| "realloc_loop (Suc n) len s =
     (if ww_alloc s > len
      then (case ww_tail s of
              None \<Rightarrow> Some s
            | Some t \<Rightarrow> (case whowas_free t s of None \<Rightarrow> None | Some s \<Rightarrow> realloc_loop n len s))
      else Some s)"

definition whowas_realloc :: "nat \<Rightarrow> ww_state \<Rightarrow> ww_state option" where
  "whowas_realloc len s = realloc_loop (ww_alloc s) len s"

definition fill_record :: "ww_client \<Rightarrow> int \<Rightarrow> nat \<Rightarrow> Whowas" where
  "fill_record c now h = ww_zero\<lparr>hashv := h, logoff := now, ww_name := wc_name c, username := wc_username c,
     hostname := wc_host c, realhost := (if wc_hidden c then Some (wc_realhost c) else None), ww_ip := wc_ip c,
     servername := wc_server c, realname := wc_info c, away := wc_away c\<rparr>"

definition link_client :: "cptr \<Rightarrow> cptr \<Rightarrow> ww_state \<Rightarrow> ww_state option" where
  "link_client ww cptr s =
     do { let first = cli_whowas s cptr;
          s \<leftarrow> upd ww (\<lambda>w. w\<lparr>online := Some cptr, cnext := first\<rparr>) s;
          s \<leftarrow> upd_opt first (\<lambda>x. x\<lparr>cprevnextp := CNext ww\<rparr>) s;
          s \<leftarrow> upd ww (\<lambda>w. w\<lparr>cprevnextp := CliHead cptr\<rparr>) s;
          Some (s\<lparr>cli_whowas := (cli_whowas s)(cptr := Some ww)\<rparr>) }"

definition link_list :: "cptr \<Rightarrow> ww_state \<Rightarrow> ww_state option" where
  "link_list ww s =
     do { s \<leftarrow> upd ww (\<lambda>w. w\<lparr>wnext := ww_list s\<rparr>) s;
          s \<leftarrow> upd_opt (ww_list s) (\<lambda>x. x\<lparr>wprev := Some ww\<rparr>) s;
          let s = s\<lparr>ww_list := Some ww\<rparr>;
          Some (if ww_tail s = None then s\<lparr>ww_tail := Some ww\<rparr> else s) }"

definition link_hash :: "cptr \<Rightarrow> nat \<Rightarrow> ww_state \<Rightarrow> ww_state option" where
  "link_hash ww h s =
     do { s \<leftarrow> upd ww (\<lambda>w. w\<lparr>hnext := whowashash s h\<rparr>) s;
          s \<leftarrow> upd_opt (whowashash s h) (\<lambda>x. x\<lparr>hprevnextp := HNext ww\<rparr>) s;
          s \<leftarrow> upd ww (\<lambda>w. w\<lparr>hprevnextp := HashHead h\<rparr>) s;
          Some (s\<lparr>whowashash := (whowashash s)(h := Some ww)\<rparr>) }"

definition add_history :: "nat \<Rightarrow> cptr \<Rightarrow> int \<Rightarrow> cptr \<Rightarrow> ww_client \<Rightarrow> bool \<Rightarrow> ww_state \<Rightarrow> ww_state option" where
  "add_history len fresh now cptr c still_on s =
     do { (ww, s) \<leftarrow> whowas_alloc len fresh s;
          h \<leftarrow> hash_whowas_name (wc_name c);
          s \<leftarrow> upd ww (\<lambda>_. fill_record c now h) s;
          s \<leftarrow> (if still_on then link_client ww cptr s else Some s);
          s \<leftarrow> link_list ww s;
          link_hash ww h s }"

fun off_loop :: "nat \<Rightarrow> cptr option \<Rightarrow> ww_state \<Rightarrow> ww_state option" where
  "off_loop n None s = Some s"
| "off_loop 0 (Some p) s = None"
| "off_loop (Suc n) (Some p) s =
     do { s \<leftarrow> upd p (\<lambda>w. w\<lparr>online := None\<rparr>) s; w \<leftarrow> ww_heap s p; off_loop n (cnext w) s }"

definition off_history :: "cptr \<Rightarrow> ww_state \<Rightarrow> ww_state option" where
  "off_history c s = off_loop (Suc (ww_alloc s)) (cli_whowas s c) s"

fun get_loop :: "nat \<Rightarrow> string \<Rightarrow> int \<Rightarrow> ww_state \<Rightarrow> cptr option \<Rightarrow> cptr option option" where
  "get_loop n nick limit s None = Some None"
| "get_loop 0 nick limit s (Some p) = None"
| "get_loop (Suc n) nick limit s (Some p) =
     do { w \<leftarrow> ww_heap s p;
          if ircd_strcmp nick (ww_name w) = 0 \<and> logoff w > limit then Some (online w)
          else get_loop n nick limit s (hnext w) }"

definition get_history :: "string \<Rightarrow> int \<Rightarrow> int \<Rightarrow> ww_state \<Rightarrow> cptr option option" where
  "get_history nick timelimit now s =
     do { h \<leftarrow> hash_whowas_name nick; get_loop (Suc (ww_alloc s)) nick (now - timelimit) s (whowashash s h) }"

fun count_loop :: "nat \<Rightarrow> ww_state \<Rightarrow> cptr option \<Rightarrow> nat \<times> nat \<times> nat \<times> nat \<Rightarrow> (nat \<times> nat \<times> nat \<times> nat) option" where
  "count_loop n s None acc = Some acc"
| "count_loop 0 s (Some p) acc = None"
| "count_loop (Suc n) s (Some p) (u, um, a, am) =
     do { w \<leftarrow> ww_heap s p;
          count_loop n s (wnext w)
            (u + 1, um + (length (ww_name w) + 1) + (length (username w) + 1) + (length (hostname w) + 1) + (length (servername w) + 1),
             (case away w of None \<Rightarrow> a | Some m \<Rightarrow> a + 1), (case away w of None \<Rightarrow> am | Some m \<Rightarrow> am + (length m + 1))) }"

definition count_whowas_memory :: "ww_state \<Rightarrow> (nat \<times> nat \<times> nat \<times> nat) option" where
  "count_whowas_memory s = count_loop (Suc (ww_alloc s)) s (ww_list s) (0, 0, 0, 0)"

definition initwhowas :: "ww_state \<Rightarrow> ww_state" where
  "initwhowas s = s\<lparr>whowashash := (\<lambda>i. if i < WW_MAX then None else whowashash s i)\<rparr>"

section \<open>Linked lists\<close>

fun lseg :: "(cptr \<Rightarrow> cptr option) \<Rightarrow> cptr option \<Rightarrow> cptr list \<Rightarrow> bool" where
  "lseg nxt a [] = (a = None)"
| "lseg nxt a (x # xs) = (a = Some x \<and> lseg nxt (nxt x) xs)"

text \<open>Every record of the list knows the place of the pointer that leads to it.\<close>

fun plink :: "(cptr \<Rightarrow> 'l) \<Rightarrow> (cptr \<Rightarrow> 'l) \<Rightarrow> 'l \<Rightarrow> cptr list \<Rightarrow> bool" where
  "plink prv after l [] = True"
| "plink prv after l (x # xs) = (prv x = l \<and> plink prv after (after x) xs)"

definition plist :: "(cptr \<Rightarrow> cptr option) \<Rightarrow> (cptr \<Rightarrow> 'l) \<Rightarrow> (cptr \<Rightarrow> 'l) \<Rightarrow> 'l \<Rightarrow> cptr option \<Rightarrow> cptr list \<Rightarrow> bool" where
  "plist nxt prv after l a xs \<longleftrightarrow> lseg nxt a xs \<and> plink prv after l xs"

lemma lseg_cong: "(\<And>x. x \<in> set xs \<Longrightarrow> f x = g x) \<Longrightarrow> lseg f a xs = lseg g a xs"
  by (induction xs arbitrary: a) auto

lemma plink_cong: "(\<And>x. x \<in> set xs \<Longrightarrow> f x = g x) \<Longrightarrow> plink f N l xs = plink g N l xs"
  by (induction xs arbitrary: l) auto

lemma plist_cong:
  "(\<And>x. x \<in> set xs \<Longrightarrow> f x = f' x) \<Longrightarrow> (\<And>x. x \<in> set xs \<Longrightarrow> g x = g' x) \<Longrightarrow> plist f g N l a xs = plist f' g' N l a xs"
  unfolding plist_def using lseg_cong [of xs f f' a] plink_cong [of xs g g' N l] by simp

lemma lseg_last:
  "lseg nxt a (zs @ [w]) \<Longrightarrow> distinct (zs @ [w]) \<Longrightarrow>
     nxt w = None \<and> (zs \<noteq> [] \<longrightarrow> lseg (nxt(last zs := None)) a zs)"
proof (induction zs arbitrary: a)
  case (Cons z zs)
  then have "lseg nxt (nxt z) (zs @ [w])" "distinct (zs @ [w])" and a: "a = Some z" by simp_all
  note IH = Cons.IH [OF this(1,2)] a
  show ?case
  proof (cases "zs = []")
    case False
    then have "last zs \<noteq> z" using Cons.prems last_in_set [of zs] by auto
    then show ?thesis using IH False by simp
  qed (use IH in simp)
qed simp

lemma plink_last: "plink prv N l (zs @ [w]) \<Longrightarrow> prv w = (if zs = [] then l else N (last zs)) \<and> plink prv N l zs"
  by (induction zs arbitrary: l) auto

lemma plist_last:
  assumes "plist nxt prv N l a (zs @ [w])" "distinct (zs @ [w])"
  shows "nxt w = None" "prv w = (if zs = [] then l else N (last zs))"
    and "zs \<noteq> [] \<Longrightarrow> plist (nxt(last zs := None)) prv N l a zs"
  using assms(1) lseg_last [OF _ assms(2), of nxt a] plink_last [of prv N l zs w] unfolding plist_def by blast+

lemma plist_first:
  assumes "plist nxt prv N l a zs" "p \<notin> set zs" "distinct zs"
    and "nxt' p = a" "prv' p = l" "\<And>x. x \<in> set zs \<Longrightarrow> nxt' x = nxt x"
    and "\<And>x. x \<in> set zs \<Longrightarrow> prv' x = (if a = Some x then N p else prv x)"
  shows "plist nxt' prv' N l (Some p) (p # zs)"
proof (cases zs)
  case Nil
  then show ?thesis using assms by (auto simp: plist_def)
next
  case (Cons z zs')
  then have a: "a = Some z" using assms(1) by (auto simp: plist_def)
  have "lseg nxt' a zs" using assms(1,6) lseg_cong [of zs nxt' nxt a] by (simp add: plist_def)
  moreover have "plink prv' N (N z) zs' = plink prv N (N z) zs'"
    using assms(3,7) Cons a by (intro plink_cong) auto
  ultimately show ?thesis using assms Cons a by (auto simp: plist_def)
qed

lemma lseg_walk: "lseg nxt a xs \<Longrightarrow> (\<forall>x. a = Some x \<longrightarrow> x \<in> set xs)"
  by (cases xs) auto

section \<open>Invariant\<close>

abbreviation fld :: "ww_state \<Rightarrow> cptr \<Rightarrow> Whowas" where
  "fld s x \<equiv> the (ww_heap s x)"

definition list_ok :: "ww_state \<Rightarrow> cptr list \<Rightarrow> bool" where
  "list_ok s xs \<longleftrightarrow> plist (\<lambda>x. wnext (fld s x)) (\<lambda>x. wprev (fld s x)) Some None (ww_list s) xs \<and>
     ww_tail s = (if xs = [] then None else Some (last xs))"

definition hash_ok :: "ww_state \<Rightarrow> cptr list \<Rightarrow> bool" where
  "hash_ok s xs \<longleftrightarrow> (\<forall>x\<in>set xs. hashv (fld s x) < WW_MAX) \<and>
     (\<forall>v. plist (\<lambda>x. hnext (fld s x)) (\<lambda>x. hprevnextp (fld s x)) HNext (HashHead v) (whowashash s v)
        (filter (\<lambda>x. hashv (fld s x) = v) xs))"

definition cli_ok :: "ww_state \<Rightarrow> cptr list \<Rightarrow> bool" where
  "cli_ok s xs \<longleftrightarrow>
     (\<forall>c. plist (\<lambda>x. cnext (fld s x)) (\<lambda>x. cprevnextp (fld s x)) CNext (CliHead c) (cli_whowas s c)
        (filter (\<lambda>x. online (fld s x) = Some c) xs))"

definition ww_links :: "ww_state \<Rightarrow> cptr list \<Rightarrow> bool" where
  "ww_links s xs \<longleftrightarrow> distinct xs \<and> set xs \<subseteq> dom (ww_heap s) \<and> list_ok s xs \<and> hash_ok s xs \<and> cli_ok s xs"

definition ww_inv :: "ww_state \<Rightarrow> cptr list \<Rightarrow> bool" where
  "ww_inv s xs \<longleftrightarrow> ww_links s xs \<and> dom (ww_heap s) = set xs \<and> ww_alloc s = length xs"

text \<open>The contents of a record, without its links.\<close>

definition ww_data :: "Whowas \<Rightarrow> Whowas" where
  "ww_data w = w\<lparr>hnext := None, hprevnextp := NoLoc, cnext := None, cprevnextp := NoLoc, wnext := None, wprev := None\<rparr>"

definition history :: "ww_state \<Rightarrow> cptr list \<Rightarrow> Whowas list" where
  "history s xs = map (\<lambda>x. ww_data (fld s x)) xs"

text \<open>The three lists depend on their own fields only.\<close>

lemma list_ok_frame:
  "list_ok s xs \<Longrightarrow> (\<And>x. x \<in> set xs \<Longrightarrow> wnext (fld s' x) = wnext (fld s x) \<and> wprev (fld s' x) = wprev (fld s x)) \<Longrightarrow>
     ww_list s' = ww_list s \<Longrightarrow> ww_tail s' = ww_tail s \<Longrightarrow> list_ok s' xs"
  unfolding list_ok_def
  using plist_cong [of xs "\<lambda>x. wnext (fld s' x)" "\<lambda>x. wnext (fld s x)" "\<lambda>x. wprev (fld s' x)" "\<lambda>x. wprev (fld s x)"] by simp

lemma hash_ok_frame:
  assumes "hash_ok s xs" "whowashash s' = whowashash s"
    and "\<And>x. x \<in> set xs \<Longrightarrow> hashv (fld s' x) = hashv (fld s x) \<and> hnext (fld s' x) = hnext (fld s x) \<and>
      hprevnextp (fld s' x) = hprevnextp (fld s x)"
  shows "hash_ok s' xs"
proof -
  have "filter (\<lambda>x. hashv (fld s' x) = v) xs = filter (\<lambda>x. hashv (fld s x) = v) xs" for v
    using assms(3) by (intro filter_cong) auto
  moreover have "plist (\<lambda>x. hnext (fld s' x)) (\<lambda>x. hprevnextp (fld s' x)) N l a (filter P xs) =
      plist (\<lambda>x. hnext (fld s x)) (\<lambda>x. hprevnextp (fld s x)) N l a (filter P xs)" for N :: "cptr \<Rightarrow> loc" and l a P
    using assms(3) by (intro plist_cong) auto
  ultimately show ?thesis using assms by (simp add: hash_ok_def)
qed

lemma cli_ok_frame:
  assumes "cli_ok s xs" "cli_whowas s' = cli_whowas s"
    and "\<And>x. x \<in> set xs \<Longrightarrow> online (fld s' x) = online (fld s x) \<and> cnext (fld s' x) = cnext (fld s x) \<and>
      cprevnextp (fld s' x) = cprevnextp (fld s x)"
  shows "cli_ok s' xs"
proof -
  have "filter (\<lambda>x. online (fld s' x) = v) xs = filter (\<lambda>x. online (fld s x) = v) xs" for v
    using assms(3) by (intro filter_cong) auto
  moreover have "plist (\<lambda>x. cnext (fld s' x)) (\<lambda>x. cprevnextp (fld s' x)) N l a (filter P xs) =
      plist (\<lambda>x. cnext (fld s x)) (\<lambda>x. cprevnextp (fld s x)) N l a (filter P xs)" for N :: "cptr \<Rightarrow> loc" and l a P
    using assms(3) by (intro plist_cong) auto
  ultimately show ?thesis using assms by (simp add: cli_ok_def)
qed

section \<open>Effects of the steps\<close>

definition same_h :: "ww_state \<Rightarrow> ww_state \<Rightarrow> bool" where
  "same_h s s' \<longleftrightarrow> whowashash s' = whowashash s \<and>
     (\<forall>x. hnext (fld s' x) = hnext (fld s x) \<and> hprevnextp (fld s' x) = hprevnextp (fld s x))"

definition same_c :: "ww_state \<Rightarrow> ww_state \<Rightarrow> bool" where
  "same_c s s' \<longleftrightarrow> cli_whowas s' = cli_whowas s \<and>
     (\<forall>x. cnext (fld s' x) = cnext (fld s x) \<and> cprevnextp (fld s' x) = cprevnextp (fld s x))"

definition same_w :: "ww_state \<Rightarrow> ww_state \<Rightarrow> bool" where
  "same_w s s' \<longleftrightarrow> ww_list s' = ww_list s \<and> ww_tail s' = ww_tail s \<and>
     (\<forall>x. wnext (fld s' x) = wnext (fld s x) \<and> wprev (fld s' x) = wprev (fld s x))"

text \<open>No step changes the set of allocated records or their contents.\<close>

definition same_data :: "ww_state \<Rightarrow> ww_state \<Rightarrow> bool" where
  "same_data s s' \<longleftrightarrow> dom (ww_heap s') = dom (ww_heap s) \<and> ww_alloc s' = ww_alloc s \<and>
     (\<forall>x. ww_data (fld s' x) = ww_data (fld s x))"

lemmas same_defs = same_h_def same_c_def same_w_def same_data_def

lemma ww_data_fields:
  "ww_data w = ww_data w' \<Longrightarrow> hashv w = hashv w' \<and> online w = online w' \<and> ww_name w = ww_name w' \<and> logoff w = logoff w'"
  by (cases w; cases w') (simp add: ww_data_def)

lemma same_trans [trans]:
  "same_h s s' \<Longrightarrow> same_h s' s'' \<Longrightarrow> same_h s s''" "same_c s s' \<Longrightarrow> same_c s' s'' \<Longrightarrow> same_c s s''"
  "same_w s s' \<Longrightarrow> same_w s' s'' \<Longrightarrow> same_w s s''" "same_data s s' \<Longrightarrow> same_data s' s'' \<Longrightarrow> same_data s s''"
  by (simp_all add: same_defs)

lemma same_frame:
  assumes "same_data s s'"
  shows "same_h s s' \<Longrightarrow> hash_ok s xs \<Longrightarrow> hash_ok s' xs"
    and "same_c s s' \<Longrightarrow> cli_ok s xs \<Longrightarrow> cli_ok s' xs"
    and "same_w s s' \<Longrightarrow> list_ok s xs \<Longrightarrow> list_ok s' xs"
proof -
  have f: "hashv (fld s' x) = hashv (fld s x)" "online (fld s' x) = online (fld s x)" for x
    using assms ww_data_fields [of "fld s' x" "fld s x"] by (simp_all add: same_data_def)
  show "same_h s s' \<Longrightarrow> hash_ok s xs \<Longrightarrow> hash_ok s' xs"
    using hash_ok_frame [of s xs s'] f by (simp add: same_h_def)
  show "same_c s s' \<Longrightarrow> cli_ok s xs \<Longrightarrow> cli_ok s' xs"
    using cli_ok_frame [of s xs s'] f by (simp add: same_c_def)
  show "same_w s s' \<Longrightarrow> list_ok s xs \<Longrightarrow> list_ok s' xs"
    using list_ok_frame [of s xs s'] by (simp add: same_w_def)
qed

lemma upd_Some: "p \<in> dom (ww_heap s) \<Longrightarrow> upd p f s = Some (s\<lparr>ww_heap := (ww_heap s)(p \<mapsto> f (fld s p))\<rparr>)"
  by (auto simp: upd_def)

lemma fld_upd: "fld (s\<lparr>ww_heap := (ww_heap s)(p \<mapsto> w)\<rparr>) x = (if x = p then w else fld s x)"
  by simp

lemma filter_snoc_split: "P w \<Longrightarrow> filter P (ys @ [w]) = filter P ys @ [w]"
  by simp

text \<open>
  A family of lists that share their records: record \<open>x\<close> is on the list of \<open>key x\<close>, whose first
  pointer is at the place \<open>H (key x)\<close>. Both the hash buckets and the lists of the clients are such families.
\<close>

definition family :: "(cptr \<Rightarrow> 'k) \<Rightarrow> ('k \<Rightarrow> bool) \<Rightarrow> (cptr \<Rightarrow> cptr option) \<Rightarrow> (cptr \<Rightarrow> loc) \<Rightarrow> (cptr \<Rightarrow> loc) \<Rightarrow>
    ('k \<Rightarrow> loc) \<Rightarrow> ('k \<Rightarrow> cptr option) \<Rightarrow> cptr list \<Rightarrow> bool" where
  "family key real nx pr N H hds xs \<longleftrightarrow> (\<forall>d. real d \<longrightarrow> plist nx pr N (H d) (hds d) (filter (\<lambda>x. key x = d) xs))"

lemma family_remove:
  assumes fam: "family key real nx pr N H hds (ys @ [w])" and dist: "distinct (ys @ [w])" and real: "real (key w)"
  defines "zs \<equiv> filter (\<lambda>x. key x = key w) ys"
  shows "nx w = None" "pr w = (if zs = [] then H (key w) else N (last zs))"
    and "zs = [] \<Longrightarrow> family key real nx pr N H (hds(key w := None)) ys"
    and "zs \<noteq> [] \<Longrightarrow> family key real (nx(last zs := None)) pr N H hds ys \<and> last zs \<in> set ys"
proof -
  have c: "plist nx pr N (H (key w)) (hds (key w)) (zs @ [w])" using fam real by (auto simp: family_def zs_def)
  have d: "distinct (zs @ [w])" using dist by (simp add: zs_def)
  note last = plist_last [OF c d]
  show "nx w = None" "pr w = (if zs = [] then H (key w) else N (last zs))" using last by simp_all
  have other: "plist nx pr N (H e) (hds e) (filter (\<lambda>x. key x = e) ys)" if "real e" "e \<noteq> key w" for e
    using fam that by (auto simp: family_def)
  show "zs = [] \<Longrightarrow> family key real nx pr N H (hds(key w := None)) ys"
    using other by (auto simp: family_def zs_def plist_def)
  assume ne: "zs \<noteq> []"
  then have q: "last zs \<in> set zs" by (rule last_in_set)
  have "plist (nx(last zs := None)) pr N (H e) (hds e) (filter (\<lambda>x. key x = e) ys)" if "real e" for e
  proof (cases "e = key w")
    case True
    then show ?thesis using last(3) [OF ne] by (simp add: zs_def)
  next
    case False
    then have "plist (nx(last zs := None)) pr N (H e) (hds e) (filter (\<lambda>x. key x = e) ys) =
        plist nx pr N (H e) (hds e) (filter (\<lambda>x. key x = e) ys)"
      using q by (intro plist_cong) (auto simp: zs_def)
    then show ?thesis using other [OF that False] by simp
  qed
  then show "family key real (nx(last zs := None)) pr N H hds ys \<and> last zs \<in> set ys"
    using q by (auto simp: family_def zs_def)
qed

lemma family_insert:
  assumes fam: "family key real nx pr N H hds ys" and "p \<notin> set ys" "distinct ys" and real: "real (key p)"
    and "nx' p = hds (key p)" "pr' p = H (key p)" "\<And>x. x \<in> set ys \<Longrightarrow> nx' x = nx x"
    and "\<And>x. x \<in> set ys \<Longrightarrow> pr' x = (if hds (key p) = Some x then N p else pr x)"
  shows "family key real nx' pr' N H (hds(key p := Some p)) (p # ys)"
  unfolding family_def
proof (intro allI impI)
  fix e
  assume "real e"
  then have e: "plist nx pr N (H e) (hds e) (filter (\<lambda>x. key x = e) ys)" using fam by (simp add: family_def)
  show "plist nx' pr' N (H e) ((hds(key p := Some p)) e) (filter (\<lambda>x. key x = e) (p # ys))"
  proof (cases "e = key p")
    case True
    then show ?thesis
      using plist_first [OF e, of p nx' pr'] assms by auto
  next
    case False
    have "x \<in> set (filter (\<lambda>x. key x = key p) ys)" if "hds (key p) = Some x" for x
      using that fam real lseg_walk by (fastforce simp: family_def plist_def)
    then have "hds (key p) \<noteq> Some x" if "x \<in> set (filter (\<lambda>x. key x = e) ys)" for x
      using that False by auto
    then have "plist nx' pr' N (H e) (hds e) (filter (\<lambda>x. key x = e) ys) = plist nx pr N (H e) (hds e) (filter (\<lambda>x. key x = e) ys)"
      using assms(7,8) by (intro plist_cong) auto
    then show ?thesis using e False by simp
  qed
qed

lemma cli_ok_family:
  "cli_ok s xs \<longleftrightarrow> family (\<lambda>x. online (fld s x)) (\<lambda>d. d \<noteq> None) (\<lambda>x. cnext (fld s x)) (\<lambda>x. cprevnextp (fld s x)) CNext
     (\<lambda>d. CliHead (the d)) (\<lambda>d. cli_whowas s (the d)) xs"
  by (auto simp: cli_ok_def family_def)

lemma hash_ok_family:
  "hash_ok s xs \<longleftrightarrow> (\<forall>x\<in>set xs. hashv (fld s x) < WW_MAX) \<and>
     family (\<lambda>x. hashv (fld s x)) (\<lambda>d. True) (\<lambda>x. hnext (fld s x)) (\<lambda>x. hprevnextp (fld s x)) HNext HashHead (whowashash s) xs"
  by (auto simp: hash_ok_def family_def)

lemma cli_ok_unowned: "online (fld s w) = None \<Longrightarrow> cli_ok s (ys @ [w]) = cli_ok s ys" "online (fld s w) = None \<Longrightarrow> cli_ok s (w # ys) = cli_ok s ys"
  by (simp_all add: cli_ok_def)

section \<open>Removing the oldest record\<close>

lemma clean_online_tail:
  assumes "cli_ok s (ys @ [w])" "distinct (ys @ [w])" "set (ys @ [w]) \<subseteq> dom (ww_heap s)"
  shows "\<exists>s'. clean_online w s = Some s' \<and> cli_ok s' ys \<and> same_h s s' \<and> same_w s s' \<and> same_data s s'"
proof (cases "online (fld s w)")
  case None
  with assms show ?thesis by (auto simp: clean_online_def same_defs cli_ok_unowned)
next
  case (Some c)
  let ?zs = "filter (\<lambda>x. online (fld s x) = Some c) ys"
  note rem = family_remove [OF assms(1) [unfolded cli_ok_family] assms(2), unfolded Some, simplified]
  have step: "clean_online w s = store (cprevnextp (fld s w)) None s"
    using assms(3) Some rem(1) by (auto simp: clean_online_def upd_opt_def)
  show ?thesis
  proof (cases "?zs = []")
    case True
    let ?s = "s\<lparr>cli_whowas := (cli_whowas s)(c := None)\<rparr>"
    have "(\<lambda>d. cli_whowas ?s (the d)) x = ((\<lambda>d. cli_whowas s (the d))(Some c := None)) x" if "x \<noteq> None" for x
      using that by (cases x) auto
    then have "cli_ok ?s ys" using rem(3) [OF True] unfolding cli_ok_family family_def by simp
    moreover have "clean_online w s = Some ?s" using step rem(2) True by simp
    ultimately show ?thesis by (auto simp: same_defs)
  next
    case False
    define q where "q = last ?zs"
    have q: "q \<in> dom (ww_heap s)" using rem(4) [OF False] assms(3) by (auto simp: q_def)
    let ?s = "s\<lparr>ww_heap := (ww_heap s)(q \<mapsto> (fld s q)\<lparr>cnext := None\<rparr>)\<rparr>"
    have "cnext (fld ?s x) = ((\<lambda>x. cnext (fld s x))(q := None)) x" "cprevnextp (fld ?s x) = cprevnextp (fld s x)"
        "online (fld ?s x) = online (fld s x)" for x by auto
    then have "cli_ok ?s ys" using rem(4) [OF False] unfolding cli_ok_family q_def [symmetric] by (simp add: fun_upd_def)
    moreover have "clean_online w s = Some ?s" using step rem(2) False upd_Some [OF q] by (simp add: q_def)
    moreover have "same_h s ?s" "same_w s ?s" "same_data s ?s" using q by (auto simp: same_defs ww_data_def)
    ultimately show ?thesis by blast
  qed
qed

lemma clean_hash_tail:
  assumes "hash_ok s (ys @ [w])" "distinct (ys @ [w])" "set (ys @ [w]) \<subseteq> dom (ww_heap s)"
  shows "\<exists>s'. clean_hash w s = Some s' \<and> hash_ok s' ys \<and> same_c s s' \<and> same_w s s' \<and> same_data s s'"
proof -
  let ?v = "hashv (fld s w)"
  let ?zs = "filter (\<lambda>x. hashv (fld s x) = ?v) ys"
  have lt: "?v < WW_MAX" "\<forall>x\<in>set ys. hashv (fld s x) < WW_MAX" using assms(1) by (simp_all add: hash_ok_def)
  note rem = family_remove [OF conjunct2 [OF assms(1) [unfolded hash_ok_family]] assms(2) TrueI]
  have step: "clean_hash w s = store (hprevnextp (fld s w)) None s"
    using assms(3) rem(1) by (auto simp: clean_hash_def upd_opt_def)
  show ?thesis
  proof (cases "?zs = []")
    case True
    let ?s = "s\<lparr>whowashash := (whowashash s)(?v := None)\<rparr>"
    have "hash_ok ?s ys" using rem(3) [OF True] lt unfolding hash_ok_family by simp
    moreover have "clean_hash w s = Some ?s" using step rem(2) True lt by simp
    ultimately show ?thesis by (auto simp: same_defs)
  next
    case False
    define q where "q = last ?zs"
    have q: "q \<in> dom (ww_heap s)" using rem(4) [OF False] assms(3) by (auto simp: q_def)
    let ?s = "s\<lparr>ww_heap := (ww_heap s)(q \<mapsto> (fld s q)\<lparr>hnext := None\<rparr>)\<rparr>"
    have "hnext (fld ?s x) = ((\<lambda>x. hnext (fld s x))(q := None)) x" "hprevnextp (fld ?s x) = hprevnextp (fld s x)"
        "hashv (fld ?s x) = hashv (fld s x)" for x by auto
    then have "hash_ok ?s ys" using rem(4) [OF False] lt unfolding hash_ok_family q_def [symmetric] by (simp add: fun_upd_def)
    moreover have "clean_hash w s = Some ?s" using step rem(2) False upd_Some [OF q] by (simp add: q_def)
    moreover have "same_c s ?s" "same_w s ?s" "same_data s ?s" using q by (auto simp: same_defs ww_data_def)
    ultimately show ?thesis by blast
  qed
qed

lemma clean_list_tail:
  assumes "list_ok s (ys @ [w])" "distinct (ys @ [w])" "set (ys @ [w]) \<subseteq> dom (ww_heap s)" "ys \<noteq> []"
  shows "\<exists>s'. clean_list w s = Some s' \<and> list_ok s' ys \<and> same_h s s' \<and> same_c s s' \<and> same_data s s'"
proof -
  define q where "q = last ys"
  have "q \<in> set ys" using assms(4) by (simp add: q_def)
  then have q: "q \<in> dom (ww_heap s)" "q \<noteq> w" using assms(2,3) by auto
  note last = plist_last [OF conjunct1 [OF assms(1) [unfolded list_ok_def]] assms(2)]
  let ?s = "s\<lparr>ww_heap := (ww_heap s)(q \<mapsto> (fld s q)\<lparr>wnext := None\<rparr>), ww_tail := Some q\<rparr>"
  have "clean_list w s = Some ?s"
    using assms last(1,2) upd_Some [OF q(1), of "\<lambda>x. x\<lparr>wnext := None\<rparr>"] q(2)
    by (auto simp: clean_list_def upd_opt_def q_def list_ok_def)
  moreover have "wnext (fld ?s x) = ((\<lambda>x. wnext (fld s x))(q := None)) x" "wprev (fld ?s x) = wprev (fld s x)" for x by auto
  then have "list_ok ?s ys" using last(3) [OF assms(4)] assms(4) unfolding list_ok_def q_def [symmetric] by (simp add: fun_upd_def)
  moreover have "same_h s ?s" "same_c s ?s" "same_data s ?s" using q(1) by (auto simp: same_defs ww_data_def)
  ultimately show ?thesis by blast
qed

lemma whowas_clean_tail:
  assumes "ww_links s (ys @ [w])" "ys \<noteq> []"
  shows "\<exists>s'. whowas_clean w s = Some s' \<and> ww_links s' ys \<and> same_data s s'"
proof -
  have d: "distinct (ys @ [w])" "set (ys @ [w]) \<subseteq> dom (ww_heap s)" and ok: "cli_ok s (ys @ [w])" "hash_ok s (ys @ [w])" "list_ok s (ys @ [w])"
    using assms(1) by (simp_all add: ww_links_def)
  obtain s1 where s1: "clean_online w s = Some s1" "cli_ok s1 ys" "same_h s s1" "same_w s s1" "same_data s s1"
    using clean_online_tail [OF ok(1) d] by blast
  have d1: "set (ys @ [w]) \<subseteq> dom (ww_heap s1)" using d(2) s1(5) by (simp add: same_data_def)
  obtain s2 where s2: "clean_hash w s1 = Some s2" "hash_ok s2 ys" "same_c s1 s2" "same_w s1 s2" "same_data s1 s2"
    using clean_hash_tail [OF same_frame(1) [OF s1(5,3) ok(2)] d(1) d1] by blast
  have d2: "set (ys @ [w]) \<subseteq> dom (ww_heap s2)" using d1 s2(5) by (simp add: same_data_def)
  obtain s3 where s3: "clean_list w s2 = Some s3" "list_ok s3 ys" "same_h s2 s3" "same_c s2 s3" "same_data s2 s3"
    using clean_list_tail [OF same_frame(3) [OF s2(5,4) same_frame(3) [OF s1(5,4) ok(3)]] d(1) d2 assms(2)] by blast
  have "cli_ok s3 ys" using same_frame(2) s1(2) s2(3,5) s3(4,5) by blast
  moreover have "hash_ok s3 ys" using same_frame(1) s2(2) s3(3,5) by blast
  moreover have "set ys \<subseteq> dom (ww_heap s3)" using d2 s3(5) by (simp add: same_data_def)
  ultimately have "ww_links s3 ys" using s3(2) d(1) by (simp add: ww_links_def)
  moreover have "same_data s s3" using same_trans(4) s1(5) s2(5) s3(5) by blast
  ultimately show ?thesis using s1(1) s2(1) s3(1) by (simp add: whowas_clean_def)
qed

section \<open>Adding a record\<close>

lemma ww_data_links [simp]:
  "ww_data (w\<lparr>hnext := a\<rparr>) = ww_data w" "ww_data (w\<lparr>hprevnextp := l\<rparr>) = ww_data w"
  "ww_data (w\<lparr>cnext := a\<rparr>) = ww_data w" "ww_data (w\<lparr>cprevnextp := l\<rparr>) = ww_data w"
  "ww_data (w\<lparr>wnext := a\<rparr>) = ww_data w" "ww_data (w\<lparr>wprev := a\<rparr>) = ww_data w"
  "ww_data (w\<lparr>online := b\<rparr>) = (ww_data w)\<lparr>online := b\<rparr>"
  by (simp_all add: ww_data_def)

lemma lseg_head: "lseg nxt a xs \<Longrightarrow> a = (if xs = [] then None else Some (hd xs))"
  by (cases xs) auto

lemma dom_cases: "p \<in> dom (ww_heap s) \<longleftrightarrow> ww_heap s p = Some (fld s p)"
  by auto

lemma link_list_first:
  assumes "list_ok s ys" "p \<notin> set ys" "distinct ys" "set ys \<subseteq> dom (ww_heap s)" "p \<in> dom (ww_heap s)" "wprev (fld s p) = None"
  shows "\<exists>s'. link_list p s = Some s' \<and> list_ok s' (p # ys) \<and> same_h s s' \<and> same_c s s' \<and> same_data s s'"
proof -
  have pl: "plist (\<lambda>x. wnext (fld s x)) (\<lambda>x. wprev (fld s x)) Some None (ww_list s) ys"
    and tl: "ww_tail s = (if ys = [] then None else Some (last ys))" using assms(1) by (simp_all add: list_ok_def)
  obtain wp where p: "ww_heap s p = Some wp" using assms(5) by auto
  show ?thesis
  proof (cases ys)
    case Nil
    let ?s = "s\<lparr>ww_heap := (ww_heap s)(p \<mapsto> (fld s p)\<lparr>wnext := None\<rparr>), ww_list := Some p, ww_tail := Some p\<rparr>"
    have "link_list p s = Some ?s" using Nil pl tl p by (simp add: link_list_def upd_def upd_opt_def plist_def)
    moreover have "list_ok ?s (p # ys)" using Nil assms(6) by (simp add: list_ok_def plist_def)
    moreover have "same_h s ?s" "same_c s ?s" "same_data s ?s" using p by (auto simp: same_defs)
    ultimately show ?thesis by blast
  next
    case (Cons q ys')
    obtain wq where q: "q \<noteq> p" "ww_heap s q = Some wq" using Cons assms(2,4) by auto
    have hd: "ww_list s = Some q" using pl Cons by (simp add: plist_def)
    let ?s = "s\<lparr>ww_heap := (ww_heap s)(p \<mapsto> (fld s p)\<lparr>wnext := Some q\<rparr>, q \<mapsto> (fld s q)\<lparr>wprev := Some p\<rparr>), ww_list := Some p\<rparr>"
    have "link_list p s = Some ?s" using Cons hd tl p q by (simp add: link_list_def upd_def upd_opt_def)
    moreover have "plist (\<lambda>x. wnext (fld ?s x)) (\<lambda>x. wprev (fld ?s x)) Some None (Some p) (p # ys)"
      by (rule plist_first [OF pl assms(2,3)]) (use hd q assms(2,6) in auto)
    then have "list_ok ?s (p # ys)" using tl Cons by (simp add: list_ok_def)
    moreover have "same_h s ?s" "same_c s ?s" "same_data s ?s" using p q by (auto simp: same_defs)
    ultimately show ?thesis by blast
  qed
qed

lemma link_hash_first:
  assumes "hash_ok s ys" "p \<notin> set ys" "distinct ys" "set ys \<subseteq> dom (ww_heap s)" "p \<in> dom (ww_heap s)"
    and h: "hashv (fld s p) = h" "h < WW_MAX"
  shows "\<exists>s'. link_hash p h s = Some s' \<and> hash_ok s' (p # ys) \<and> same_w s s' \<and> same_c s s' \<and> same_data s s'"
proof -
  have fam: "family (\<lambda>x. hashv (fld s x)) (\<lambda>d. True) (\<lambda>x. hnext (fld s x)) (\<lambda>x. hprevnextp (fld s x)) HNext HashHead (whowashash s) ys"
    and lt: "\<forall>x\<in>set ys. hashv (fld s x) < WW_MAX" using assms(1) by (simp_all add: hash_ok_family)
  obtain wp where p: "ww_heap s p = Some wp" using assms(5) by auto
  have first: "q \<in> set ys" if "whowashash s h = Some q" for q
    using that fam lseg_walk by (fastforce simp: family_def plist_def)
  let ?q = "whowashash s h"
  let ?h1 = "(ww_heap s)(p \<mapsto> (fld s p)\<lparr>hnext := ?q, hprevnextp := HashHead h\<rparr>)"
  let ?h = "case ?q of None \<Rightarrow> ?h1 | Some q \<Rightarrow> ?h1(q \<mapsto> (fld s q)\<lparr>hprevnextp := HNext p\<rparr>)"
  let ?s = "s\<lparr>ww_heap := ?h, whowashash := (whowashash s)(h := Some p)\<rparr>"
  have step: "link_hash p h s = Some ?s"
  proof (cases ?q)
    case (Some q)
    then obtain wq where "q \<noteq> p" "ww_heap s q = Some wq" using first assms(2,4) by (metis domD in_mono)
    then show ?thesis using p Some by (simp add: link_hash_def upd_def upd_opt_def fun_upd_twist)
  qed (use p in \<open>simp add: link_hash_def upd_def upd_opt_def\<close>)
  have fs: "hashv (fld ?s x) = hashv (fld s x)" "hnext (fld ?s x) = (if x = p then ?q else hnext (fld s x))"
      "hprevnextp (fld ?s x) = (if x = p then HashHead h else if ?q = Some x then HNext p else hprevnextp (fld s x))" for x
    using first assms(2) by (auto split: option.split)
  have "family (\<lambda>x. hashv (fld s x)) (\<lambda>d. True) (\<lambda>x. hnext (fld ?s x)) (\<lambda>x. hprevnextp (fld ?s x)) HNext HashHead
      ((whowashash s)(hashv (fld s p) := Some p)) (p # ys)"
    by (rule family_insert [OF fam assms(2,3) TrueI]) (use fs h assms(2) in auto)
  then have "hash_ok ?s (p # ys)" using fs(1) lt h unfolding hash_ok_family by simp
  moreover have "same_w s ?s" "same_c s ?s" "same_data s ?s"
    using first assms(2,4) p by (auto simp: same_defs split: option.split)
  ultimately show ?thesis using step by blast
qed


lemma cli_ok_cong_data:
  "cli_ok s xs \<Longrightarrow> cli_whowas s' = cli_whowas s \<Longrightarrow> (\<And>x. x \<in> set xs \<Longrightarrow> fld s' x = fld s x) \<Longrightarrow> cli_ok s' xs"
  by (rule cli_ok_frame) auto

lemma link_client_first:
  assumes "cli_ok s ys" "p \<notin> set ys" "distinct ys" "set ys \<subseteq> dom (ww_heap s)" "p \<in> dom (ww_heap s)"
  shows "\<exists>s'. link_client p c s = Some s' \<and> cli_ok s' (p # ys) \<and> same_w s s' \<and> same_h s s' \<and>
    dom (ww_heap s') = dom (ww_heap s) \<and> ww_alloc s' = ww_alloc s \<and>
    (\<forall>x. ww_data (fld s' x) = (if x = p then (ww_data (fld s p))\<lparr>online := Some c\<rparr> else ww_data (fld s x)))"
proof -
  obtain wp where p: "ww_heap s p = Some wp" using assms(5) by auto
  let ?q = "cli_whowas s c"
  have first: "q \<in> set ys" if "?q = Some q" for q
    using that assms(1) lseg_walk by (fastforce simp: cli_ok_def plist_def)
  let ?h1 = "(ww_heap s)(p \<mapsto> wp\<lparr>online := Some c, cnext := ?q, cprevnextp := CliHead c\<rparr>)"
  let ?h = "case ?q of None \<Rightarrow> ?h1 | Some q \<Rightarrow> ?h1(q \<mapsto> (fld s q)\<lparr>cprevnextp := CNext p\<rparr>)"
  let ?s = "s\<lparr>ww_heap := ?h, cli_whowas := (cli_whowas s)(c := Some p)\<rparr>"
  have step: "link_client p c s = Some ?s"
  proof (cases ?q)
    case (Some q)
    then obtain wq where "q \<noteq> p" "ww_heap s q = Some wq" using first assms(2,4) by (metis domD in_mono)
    then show ?thesis using p Some by (simp add: link_client_def upd_def upd_opt_def fun_upd_twist)
  qed (use p in \<open>simp add: link_client_def upd_def upd_opt_def\<close>)
  let ?key = "\<lambda>x. if x = p then Some c else online (fld s x)"
  have fs: "online (fld ?s x) = ?key x" "cnext (fld ?s x) = (if x = p then ?q else cnext (fld s x))"
      "cprevnextp (fld ?s x) = (if x = p then CliHead c else if ?q = Some x then CNext p else cprevnextp (fld s x))" for x
    using first assms(2) by (auto split: option.split)
  have "filter (\<lambda>x. ?key x = d) ys = filter (\<lambda>x. online (fld s x) = d) ys" for d
    using assms(2) by (intro filter_cong) auto
  then have fam: "family ?key (\<lambda>d. d \<noteq> None) (\<lambda>x. cnext (fld s x)) (\<lambda>x. cprevnextp (fld s x)) CNext
      (\<lambda>d. CliHead (the d)) (\<lambda>d. cli_whowas s (the d)) ys"
    using assms(1) by (simp add: cli_ok_family family_def)
  have "family ?key (\<lambda>d. d \<noteq> None) (\<lambda>x. cnext (fld ?s x)) (\<lambda>x. cprevnextp (fld ?s x)) CNext
      (\<lambda>d. CliHead (the d)) ((\<lambda>d. cli_whowas s (the d))(?key p := Some p)) (p # ys)"
    by (rule family_insert [OF fam assms(2,3)]) (use fs assms(2) in auto)
  moreover have "((\<lambda>d. cli_whowas s (the d))(?key p := Some p)) d = cli_whowas ?s (the d)" if "d \<noteq> None" for d
    using that by (cases d) auto
  ultimately have "cli_ok ?s (p # ys)"
    unfolding cli_ok_family fs(1) by (simp add: family_def)
  moreover have "same_w s ?s" "same_h s ?s" "dom (ww_heap ?s) = dom (ww_heap s)"
    using first assms(2,4) p by (auto simp: same_defs split: option.split)
  moreover have "ww_data (fld ?s x) = (if x = p then (ww_data (fld s p))\<lparr>online := Some c\<rparr> else ww_data (fld s x))" for x
    using first assms(2) p by (auto split: option.split)
  ultimately show ?thesis using step by (intro exI [of _ ?s]) simp
qed

text \<open>Writing a record that is on no list leaves the lists alone.\<close>

lemma links_outside:
  assumes "ww_links s ys" "\<forall>x\<in>set ys. ww_heap s' x = ww_heap s x"
    and e: "ww_list s' = ww_list s" "ww_tail s' = ww_tail s" "whowashash s' = whowashash s" "cli_whowas s' = cli_whowas s"
  shows "ww_links s' ys" "history s' ys = history s ys"
proof -
  have f: "fld s' x = fld s x" if "x \<in> set ys" for x using that assms(2) by simp
  have "list_ok s' ys" using assms(1) by - (rule list_ok_frame [of s], simp_all add: ww_links_def f e)
  moreover have "hash_ok s' ys" using assms(1) by - (rule hash_ok_frame [of s], simp_all add: ww_links_def f e)
  moreover have "cli_ok s' ys" using assms(1) by - (rule cli_ok_frame [of s], simp_all add: ww_links_def f e)
  moreover have "set ys \<subseteq> dom (ww_heap s')" using assms(1,2) by (auto simp: ww_links_def)
  ultimately show "ww_links s' ys" using assms(1) by (simp add: ww_links_def)
  show "history s' ys = history s ys" using f by (simp add: history_def)
qed

lemma links_other:
  assumes "ww_links s ys" "p \<notin> set ys"
  shows "ww_links (s\<lparr>ww_heap := (ww_heap s)(p \<mapsto> w), ww_alloc := n\<rparr>) ys"
    and "history (s\<lparr>ww_heap := (ww_heap s)(p \<mapsto> w), ww_alloc := n\<rparr>) ys = history s ys"
  using links_outside [OF assms(1), of "s\<lparr>ww_heap := (ww_heap s)(p \<mapsto> w), ww_alloc := n\<rparr>"] assms(2) by auto

lemma hash_name_bound: "hash_whowas_name name = Some h \<Longrightarrow> h < WW_MAX"
proof -
  have "unat (push_bit 3 (x AND 15) + (y AND 7) :: u32) < 128" for x y :: u32
  proof -
    have x: "unat (x AND 15) < 16" using unat_and_exp_minus_1 [of x 4] by simp
    have y: "unat (y AND 7) < 8" using unat_and_exp_minus_1 [of y 3] by simp
    have "unat (push_bit 3 (x AND 15)) = unat (x AND 15) * 8"
      using x by (simp add: push_bit_eq_mult unat_word_ariths mult.commute)
    then show ?thesis using x y by (simp add: unat_word_ariths)
  qed
  then show "hash_whowas_name name = Some h \<Longrightarrow> h < WW_MAX"
    by (auto simp: hash_whowas_name_def BITS_PER_COL_def BITS_PER_COL_MASK_def WW_MAX_INITIAL_def WW_MAX_def
        split: if_splits prod.splits)
qed

lemma hash_loop_lower: "map ToLower a = map ToLower b \<Longrightarrow> hash_loop h h2 a = hash_loop h h2 b"
proof (induction a arbitrary: b h h2)
  case (Cons x a)
  then obtain y b' where b: "b = y # b'" "ToLower x = ToLower y" "map ToLower a = map ToLower b'" by (cases b) auto
  show ?case unfolding b(1) hash_loop.simps Let_def b(2) by (rule Cons.IH [OF b(3)])
qed simp

text \<open>The contents of the record \<^verbatim>\<open>add_history\<close> makes.\<close>

definition new_entry :: "cptr \<Rightarrow> ww_client \<Rightarrow> int \<Rightarrow> bool \<Rightarrow> Whowas" where
  "new_entry cptr c now still_on = (fill_record c now (the (hash_whowas_name (wc_name c))))
     \<lparr>online := (if still_on then Some cptr else None)\<rparr>"

lemma history_Cons: "history s (p # ys) = ww_data (fld s p) # history s ys"
  by (simp add: history_def)

lemma ww_data_hashv: "hashv (ww_data w) = hashv w"
  by (simp add: ww_data_def)

lemma ww_data_fill: "ww_data (fill_record c now h) = fill_record c now h"
  by (simp add: ww_data_def fill_record_def ww_zero_def)

lemma add_linked:
  assumes inv: "ww_links s ys" "p \<notin> set ys" "p \<in> dom (ww_heap s)" and h: "hash_whowas_name (wc_name c) = Some h"
  shows "\<exists>s'. do { s \<leftarrow> upd p (\<lambda>_. fill_record c now h) s;
      s \<leftarrow> (if still_on then link_client p cptr s else Some s);
      s \<leftarrow> link_list p s; link_hash p h s } = Some s' \<and>
    ww_links s' (p # ys) \<and> dom (ww_heap s') = dom (ww_heap s) \<and> ww_alloc s' = ww_alloc s \<and>
    history s' (p # ys) = new_entry cptr c now still_on # history s ys"
proof -
  let ?r = "fill_record c now h"
  define s1 where "s1 = s\<lparr>ww_heap := (ww_heap s)(p \<mapsto> ?r)\<rparr>"
  have s1: "upd p (\<lambda>_. ?r) s = Some s1" using upd_Some [OF inv(3)] by (simp add: s1_def)
  have l1: "ww_links s1 ys" "history s1 ys = history s ys"
    using links_other [OF inv(1,2), where w = ?r and n = "ww_alloc s"] by (simp_all add: s1_def)
  have d1: "dom (ww_heap s1) = dom (ww_heap s)" "ww_alloc s1 = ww_alloc s" "fld s1 p = ?r"
    using inv(3) by (auto simp: s1_def)
  have r: "wprev ?r = None" "hashv ?r = h" "online ?r = None" by (simp_all add: fill_record_def ww_zero_def)
  have ok1: "distinct ys" "set ys \<subseteq> dom (ww_heap s1)" "list_ok s1 ys" "hash_ok s1 ys" "cli_ok s1 ys"
    using l1(1) by (simp_all add: ww_links_def)
  obtain s2 where s2: "(if still_on then link_client p cptr s1 else Some s1) = Some s2" "cli_ok s2 (p # ys)"
      "same_w s1 s2" "same_h s1 s2" "dom (ww_heap s2) = dom (ww_heap s1)" "ww_alloc s2 = ww_alloc s1"
      "\<forall>x. ww_data (fld s2 x) = (if x = p then (ww_data ?r)\<lparr>online := (if still_on then Some cptr else None)\<rparr> else ww_data (fld s1 x))"
  proof (cases still_on)
    case True
    obtain s2 where "link_client p cptr s1 = Some s2" "cli_ok s2 (p # ys)" "same_w s1 s2" "same_h s1 s2"
        "dom (ww_heap s2) = dom (ww_heap s1)" "ww_alloc s2 = ww_alloc s1"
        "\<forall>x. ww_data (fld s2 x) = (if x = p then (ww_data ?r)\<lparr>online := Some cptr\<rparr> else ww_data (fld s1 x))"
      using link_client_first [OF ok1(5) inv(2) ok1(1,2), of cptr] inv(3) unfolding d1(1,3) by blast
    then show ?thesis using that [of s2] True by simp
  next
    case False
    have "cli_ok s1 (p # ys)" using ok1(5) d1(3) r(3) by (simp add: cli_ok_unowned)
    moreover have "(ww_data ?r)\<lparr>online := None\<rparr> = ww_data ?r" by (simp add: ww_data_def fill_record_def ww_zero_def)
    ultimately show ?thesis using that [of s1] False d1 by (simp add: same_defs)
  qed
  have w2: "list_ok s2 ys" using s2(3) ok1(3) by - (rule list_ok_frame [of s1], auto simp: same_w_def)
  have hv: "hashv (fld s2 x) = hashv (fld s1 x)" for x
    using arg_cong [OF spec [OF s2(7), of x], of hashv] d1(3) by (simp add: ww_data_hashv split: if_split_asm)
  have h2: "hash_ok s2 ys" using s2(4) ok1(4) hv by - (rule hash_ok_frame [of s1], auto simp: same_h_def)
  have p2: "p \<in> dom (ww_heap s2)" "wprev (fld s2 p) = None" "set ys \<subseteq> dom (ww_heap s2)"
    using inv(3) d1 s2(3,5) r(1) ok1(2) by (auto simp: same_w_def)
  obtain s3 where s3: "link_list p s2 = Some s3" "list_ok s3 (p # ys)" "same_h s2 s3" "same_c s2 s3" "same_data s2 s3"
    using link_list_first [OF w2 inv(2) ok1(1) p2(3,1,2)] by blast
  have h3: "hash_ok s3 ys" "hashv (fld s3 p) = h" "p \<in> dom (ww_heap s3)" "set ys \<subseteq> dom (ww_heap s3)"
    using same_frame(1) [OF s3(5,3) h2] s3(5) p2 hv [of p] d1(3) r(2) ww_data_fields [of "fld s3 p" "fld s2 p"]
    by (auto simp: same_data_def)
  obtain s4 where s4: "link_hash p h s3 = Some s4" "hash_ok s4 (p # ys)" "same_w s3 s4" "same_c s3 s4" "same_data s3 s4"
    using link_hash_first [OF h3(1) inv(2) ok1(1) h3(4,3,2) hash_name_bound [OF h]] by blast
  have "list_ok s4 (p # ys)" "cli_ok s4 (p # ys)"
    using same_frame(3) [OF s4(5,3) s3(2)] same_frame(2) [OF s4(5,4) same_frame(2) [OF s3(5,4) s2(2)]] by simp_all
  moreover have dom4: "dom (ww_heap s4) = dom (ww_heap s)" "ww_alloc s4 = ww_alloc s"
    using s3(5) s4(5) s2(5,6) d1 by (simp_all add: same_data_def)
  ultimately have "ww_links s4 (p # ys)"
    using s4(2) inv l1(1) by (auto simp: ww_links_def)
  moreover have "ww_data (fld s4 x) = ww_data (fld s2 x)" for x using s3(5) s4(5) by (simp add: same_data_def)
  then have "history s4 (p # ys) = new_entry cptr c now still_on # history s ys"
    using s2(7) inv(2) l1(2) h by (auto simp: history_def new_entry_def ww_data_fill)
  ultimately show ?thesis using s1 s2(1) s3(1) s4(1) dom4 by auto
qed


lemma add_history_full:
  assumes inv: "ww_inv s xs" and len: "2 \<le> len" and fresh: "fresh \<notin> set xs" and h: "wc_name c \<noteq> []"
  shows "\<exists>s' xs'. add_history len fresh now cptr c still_on s = Some s' \<and> ww_inv s' xs' \<and>
    history s' xs' = new_entry cptr c now still_on #
      (if length xs < len then history s xs else butlast (history s xs))"
proof -
  obtain hv where hv: "hash_whowas_name (wc_name c) = Some hv" using h by (cases "hash_loop 0 0 (wc_name c)") (auto simp: hash_whowas_name_def)
  have "\<exists>p s1 ys. whowas_alloc len fresh s = Some (p, s1) \<and> ww_links s1 ys \<and> p \<notin> set ys \<and> dom (ww_heap s1) = insert p (set ys) \<and>
      ww_alloc s1 = Suc (length ys) \<and> history s1 ys = (if length xs < len then history s xs else butlast (history s xs))"
  proof (cases "length xs < len")
    case True
    let ?s = "s\<lparr>ww_heap := (ww_heap s)(fresh \<mapsto> ww_zero), ww_alloc := Suc (length xs)\<rparr>"
    have "whowas_alloc len fresh s = Some (fresh, ?s)"
      using True inv by (simp add: whowas_alloc_def ww_inv_def)
    moreover have "ww_links ?s xs" "history ?s xs = history s xs"
      using links_other [of s xs fresh] inv fresh by (simp_all add: ww_inv_def)
    ultimately show ?thesis using inv fresh True by (intro exI [of _ fresh] exI [of _ ?s] exI [of _ xs]) (auto simp: ww_inv_def)
  next
    case False
    then have "xs \<noteq> []" "butlast xs \<noteq> []" using len by (cases xs rule: rev_cases; auto)+
    then obtain ys w where xs: "xs = ys @ [w]" "ys \<noteq> []" by (metis append_butlast_last_id)
    have lk: "ww_links s (ys @ [w])" "ww_tail s = Some w" "dom (ww_heap s) = insert w (set ys)" "ww_alloc s = Suc (length ys)" "w \<notin> set ys"
      using inv xs by (auto simp: ww_inv_def ww_links_def list_ok_def)
    obtain s1 where s1: "whowas_clean w s = Some s1" "ww_links s1 ys" "same_data s s1"
      using whowas_clean_tail [OF lk(1) xs(2)] by blast
    let ?s = "s1\<lparr>ww_heap := (ww_heap s1)(w \<mapsto> ww_zero)\<rparr>"
    have "whowas_alloc len fresh s = Some (w, ?s)"
      using False lk(2,4) s1(1) xs by (simp add: whowas_alloc_def)
    moreover have "ww_links ?s ys" "history ?s ys = history s1 ys"
      using links_other [OF s1(2) lk(5), where w = ww_zero and n = "ww_alloc s1"] by simp_all
    moreover have "history s1 ys = butlast (history s xs)"
      using s1(3) xs by (simp add: history_def same_data_def)
    moreover have "dom (ww_heap ?s) = insert w (set ys)" "ww_alloc ?s = Suc (length ys)"
      using s1(3) lk(3,4) by (auto simp: same_data_def)
    ultimately show ?thesis using lk(5) False by (intro exI [of _ w] exI [of _ ?s] exI [of _ ys]) auto
  qed
  then obtain p s1 ys where a: "whowas_alloc len fresh s = Some (p, s1)" "ww_links s1 ys" "p \<notin> set ys"
      "dom (ww_heap s1) = insert p (set ys)" "ww_alloc s1 = Suc (length ys)"
      "history s1 ys = (if length xs < len then history s xs else butlast (history s xs))" by blast
  obtain s' where s': "do { s \<leftarrow> upd p (\<lambda>_. fill_record c now hv) s1;
      s \<leftarrow> (if still_on then link_client p cptr s else Some s);
      s \<leftarrow> link_list p s; link_hash p hv s } = Some s'"
    "ww_links s' (p # ys)" "dom (ww_heap s') = dom (ww_heap s1)" "ww_alloc s' = ww_alloc s1"
    "history s' (p # ys) = new_entry cptr c now still_on # history s1 ys"
    using add_linked [OF a(2,3) _ hv] a(4) by blast
  have "add_history len fresh now cptr c still_on s = Some s'"
    using a(1) hv s'(1) by (simp add: add_history_def)
  moreover have "ww_inv s' (p # ys)" using s' a by (simp add: ww_inv_def)
  ultimately show ?thesis using s'(5) a(6) by auto
qed


section \<open>The other operations\<close>

lemma whowas_free_tail:
  assumes "ww_inv s (ys @ [w])" "ys \<noteq> []"
  shows "\<exists>s'. whowas_free w s = Some s' \<and> ww_inv s' ys \<and> history s' ys = history s ys"
proof -
  have lk: "ww_links s (ys @ [w])" "dom (ww_heap s) = insert w (set ys)" "ww_alloc s = Suc (length ys)" "w \<notin> set ys"
    using assms(1) by (auto simp: ww_inv_def ww_links_def)
  obtain s1 where s1: "whowas_clean w s = Some s1" "ww_links s1 ys" "same_data s s1"
    using whowas_clean_tail [OF lk(1) assms(2)] by blast
  let ?s = "s1\<lparr>ww_heap := (ww_heap s1)(w := None), ww_alloc := ww_alloc s1 - 1\<rparr>"
  have "ww_links ?s ys" "history ?s ys = history s1 ys" using links_outside [OF s1(2), of ?s] lk(4) by auto
  moreover have "history s1 ys = history s ys" using s1(3) by (simp add: history_def same_data_def)
  moreover have "dom (ww_heap ?s) = set ys" using s1(3) lk(2,4) by (auto simp: same_data_def)
  moreover have "ww_alloc ?s = length ys" using s1(3) lk(3) by (simp add: same_data_def)
  ultimately show ?thesis using s1(1) by (auto simp: whowas_free_def ww_inv_def)
qed

lemma realloc_loop_take:
  "ww_inv s xs \<Longrightarrow> 1 \<le> len \<Longrightarrow> length xs \<le> len + n \<Longrightarrow>
     \<exists>s'. realloc_loop n len s = Some s' \<and> ww_inv s' (take len xs) \<and> history s' (take len xs) = take len (history s xs)"
proof (induction n arbitrary: s xs)
  case 0
  then show ?case by (simp add: history_def)
next
  case (Suc n)
  show ?case
  proof (cases "len < length xs")
    case True
    then have "xs \<noteq> []" "butlast xs \<noteq> []" using Suc.prems(2) by (cases xs rule: rev_cases; auto)+
    then obtain ys w where xs: "xs = ys @ [w]" "ys \<noteq> []" by (metis append_butlast_last_id)
    obtain s1 where s1: "whowas_free w s = Some s1" "ww_inv s1 ys" "history s1 ys = history s ys"
      using whowas_free_tail Suc.prems(1) xs by blast
    have "ww_tail s = Some w" "ww_alloc s = length xs"
      using Suc.prems(1) xs by (simp_all add: ww_inv_def ww_links_def list_ok_def)
    moreover have "take len xs = take len ys" "take len (history s xs) = take len (history s ys)"
      using True xs by (simp_all add: history_def)
    ultimately show ?thesis using Suc.IH [OF s1(2) Suc.prems(2)] Suc.prems(3) s1 True xs by simp
  next
    case False
    then show ?thesis using Suc.prems(1) by (simp add: ww_inv_def history_def)
  qed
qed

lemma off_loop_all:
  "lseg (\<lambda>x. cnext (fld s x)) a zs \<Longrightarrow> set zs \<subseteq> dom (ww_heap s) \<Longrightarrow> length zs \<le> n \<Longrightarrow>
     off_loop n a s = Some (s\<lparr>ww_heap := (\<lambda>x. if x \<in> set zs then map_option (\<lambda>w. w\<lparr>online := None\<rparr>) (ww_heap s x) else ww_heap s x)\<rparr>)"
proof (induction zs arbitrary: s a n)
  case Nil
  then show ?case by simp
next
  case (Cons z zs)
  obtain m where n: "n = Suc m" using Cons.prems(3) by (cases n) auto
  obtain w where w: "ww_heap s z = Some w" using Cons.prems(2) by auto
  let ?s = "s\<lparr>ww_heap := (ww_heap s)(z \<mapsto> w\<lparr>online := None\<rparr>)\<rparr>"
  have "cnext (fld ?s x) = cnext (fld s x)" for x using w by auto
  then have l: "lseg (\<lambda>x. cnext (fld ?s x)) (cnext w) zs" using Cons.prems(1) w by simp
  have d: "set zs \<subseteq> dom (ww_heap ?s)" using Cons.prems(2) by auto
  have "off_loop m (cnext w) ?s = Some (?s\<lparr>ww_heap := (\<lambda>x. if x \<in> set zs
      then map_option (\<lambda>w. w\<lparr>online := None\<rparr>) (ww_heap ?s x) else ww_heap ?s x)\<rparr>)"
    using Cons.IH [OF l d, of m] Cons.prems(3) n by simp
  moreover have "(\<lambda>x. if x \<in> set zs then map_option (\<lambda>w. w\<lparr>online := None\<rparr>) (ww_heap ?s x) else ww_heap ?s x) =
      (\<lambda>x. if x \<in> set (z # zs) then map_option (\<lambda>w. w\<lparr>online := None\<rparr>) (ww_heap s x) else ww_heap s x)"
    using w by auto
  ultimately show ?case using Cons.prems(1) n w by (simp add: upd_def)
qed

text \<open>
  When a client leaves, its records are cut off from it and its structure is released; a later
  client at the same address starts with an empty list.
\<close>

definition release_client :: "cptr \<Rightarrow> ww_state \<Rightarrow> ww_state" where
  "release_client c s = s\<lparr>cli_whowas := (cli_whowas s)(c := None)\<rparr>"

definition offline :: "cptr \<Rightarrow> Whowas \<Rightarrow> Whowas" where
  "offline c w = (if online w = Some c then w\<lparr>online := None\<rparr> else w)"

lemma off_history_ok:
  assumes "ww_inv s xs"
  shows "\<exists>s'. off_history c s = Some s' \<and> ww_inv (release_client c s') xs \<and>
    history (release_client c s') xs = map (offline c) (history s xs)"
proof -
  let ?zs = "filter (\<lambda>x. online (fld s x) = Some c) xs"
  have pl: "\<And>d. plist (\<lambda>x. cnext (fld s x)) (\<lambda>x. cprevnextp (fld s x)) CNext (CliHead d) (cli_whowas s d)
      (filter (\<lambda>x. online (fld s x) = Some d) xs)" and dom: "dom (ww_heap s) = set xs" "ww_alloc s = length xs"
    and ok: "list_ok s xs" "hash_ok s xs" "distinct xs"
    using assms by (simp_all add: ww_inv_def ww_links_def cli_ok_def)
  let ?h = "\<lambda>x. if x \<in> set ?zs then map_option (\<lambda>w. w\<lparr>online := None\<rparr>) (ww_heap s x) else ww_heap s x"
  define r where "r = release_client c (s\<lparr>ww_heap := ?h\<rparr>)"
  have "length ?zs \<le> Suc (ww_alloc s)" using dom(2) by (simp add: le_SucI)
  then have off: "off_history c s = Some (s\<lparr>ww_heap := ?h\<rparr>)"
    using off_loop_all [of s "cli_whowas s c" ?zs "Suc (ww_alloc s)"] pl [of c] dom(1)
    unfolding off_history_def plist_def by auto
  have fs: "fld r x = (if x \<in> set xs \<and> online (fld s x) = Some c then (fld s x)\<lparr>online := None\<rparr> else fld s x)" for x
    using dom(1) by (cases "ww_heap s x") (auto simp: release_client_def r_def)
  have r: "ww_list r = ww_list s" "ww_tail r = ww_tail s" "whowashash r = whowashash s" "ww_alloc r = ww_alloc s"
      "dom (ww_heap r) = dom (ww_heap s)" "cli_whowas r = (cli_whowas s)(c := None)"
    by (auto simp: release_client_def r_def split: if_splits)
  have "list_ok r xs" by (rule list_ok_frame [OF ok(1)]) (simp_all add: fs r)
  moreover have "hash_ok r xs" by (rule hash_ok_frame [OF ok(2)]) (simp_all add: fs r)
  moreover have "cli_ok r xs"
    unfolding cli_ok_def
  proof
    fix d
    have "filter (\<lambda>x. online (fld r x) = Some d) xs = (if d = c then [] else filter (\<lambda>x. online (fld s x) = Some d) xs)"
      by (auto simp: fs filter_empty_conv intro!: filter_cong)
    moreover have "plist (\<lambda>x. cnext (fld r x)) (\<lambda>x. cprevnextp (fld r x)) N l a zs =
        plist (\<lambda>x. cnext (fld s x)) (\<lambda>x. cprevnextp (fld s x)) N l a zs" for N :: "cptr \<Rightarrow> loc" and l a zs
      by (rule plist_cong) (simp_all add: fs)
    ultimately show "plist (\<lambda>x. cnext (fld r x)) (\<lambda>x. cprevnextp (fld r x)) CNext (CliHead d) (cli_whowas r d)
        (filter (\<lambda>x. online (fld r x) = Some d) xs)"
      using pl [of d] by (simp add: r plist_def)
  qed
  ultimately have "ww_inv r xs" using ok(3) dom r by (simp add: ww_inv_def ww_links_def)
  moreover have "history r xs = map (offline c) (history s xs)"
    by (auto simp: history_def offline_def fs ww_data_def)
  ultimately show ?thesis using off by (auto simp: r_def)
qed

section \<open>Lookups\<close>

fun find_online :: "string \<Rightarrow> int \<Rightarrow> Whowas list \<Rightarrow> cptr option" where
  "find_online nick limit [] = None"
| "find_online nick limit (w # ws) =
     (if ircd_strcmp nick (ww_name w) = 0 \<and> logoff w > limit then online w else find_online nick limit ws)"

lemma find_online_data: "find_online nick limit (map ww_data ws) = find_online nick limit ws"
  by (induction ws) (simp_all add: ww_data_def)

definition entry_ok :: "Whowas \<Rightarrow> bool" where
  "entry_ok w \<longleftrightarrow> hash_whowas_name (ww_name w) = Some (hashv w) \<and> NUL \<notin> set (ww_name w)"

lemma same_name_hash:
  assumes "ircd_strcmp a b = 0" "NUL \<notin> set a" "NUL \<notin> set b"
  shows "hash_whowas_name a = hash_whowas_name b"
proof -
  have m: "map ToLower a = map ToLower b" using assms strcmp_zero by simp
  then have "a = [] \<longleftrightarrow> b = []" by (metis map_is_Nil_conv)
  then show ?thesis using hash_loop_lower [OF m] by (simp add: hash_whowas_name_def)
qed

lemma find_online_bucket:
  assumes "hash_whowas_name nick = Some h" "NUL \<notin> set nick"
  shows "list_all entry_ok ws \<Longrightarrow> find_online nick limit (filter (\<lambda>w. hashv w = h) ws) = find_online nick limit ws"
proof (induction ws)
  case (Cons w ws)
  then show ?case using same_name_hash [of nick "ww_name w"] assms by (auto simp: entry_ok_def)
qed simp

lemma get_loop_find:
  "lseg (\<lambda>x. hnext (fld s x)) a zs \<Longrightarrow> set zs \<subseteq> dom (ww_heap s) \<Longrightarrow> length zs \<le> n \<Longrightarrow>
     get_loop n nick limit s a = Some (find_online nick limit (map (fld s) zs))"
proof (induction zs arbitrary: a n)
  case (Cons z zs)
  obtain m where n: "n = Suc m" using Cons.prems(3) by (cases n) auto
  then show ?case using Cons by auto
qed simp

lemma get_history_find:
  assumes "ww_inv s xs" "list_all entry_ok (history s xs)" "hash_whowas_name nick = Some h" "NUL \<notin> set nick"
  shows "get_history nick timelimit now s = Some (find_online nick (now - timelimit) (history s xs))"
proof -
  let ?zs = "filter (\<lambda>x. hashv (fld s x) = h) xs"
  have l: "lseg (\<lambda>x. hnext (fld s x)) (whowashash s h) ?zs" "set ?zs \<subseteq> dom (ww_heap s)" "length ?zs \<le> Suc (ww_alloc s)"
    using assms(1) by (auto simp: ww_inv_def ww_links_def hash_ok_def plist_def le_SucI)
  have "get_history nick timelimit now s = Some (find_online nick (now - timelimit) (map (fld s) ?zs))"
    using get_loop_find [OF l] assms(3) by (simp add: get_history_def)
  also have "map (fld s) ?zs = filter (\<lambda>w. hashv w = h) (map (fld s) xs)" by (induction xs) auto
  also have "find_online nick (now - timelimit) \<dots> = find_online nick (now - timelimit) (map (fld s) xs)"
    using assms(2) by (intro find_online_bucket [OF assms(3,4)]) (simp add: history_def list_all_iff entry_ok_def ww_data_def)
  also have "\<dots> = find_online nick (now - timelimit) (history s xs)"
    using find_online_data [of nick "now - timelimit" "map (fld s) xs"] by (simp add: history_def o_def)
  finally show ?thesis .
qed

definition entry_size :: "Whowas \<Rightarrow> nat" where
  "entry_size w = length (ww_name w) + length (username w) + length (hostname w) + length (servername w) + 4"

lemma count_loop_sum:
  "lseg (\<lambda>x. wnext (fld s x)) a zs \<Longrightarrow> set zs \<subseteq> dom (ww_heap s) \<Longrightarrow> length zs \<le> n \<Longrightarrow>
     \<exists>a' am'. count_loop n s a (u, um, aa, am) = Some (u + length zs, um + sum_list (map (\<lambda>x. entry_size (fld s x)) zs), a', am')"
proof (induction zs arbitrary: a n u um aa am)
  case (Cons z zs)
  obtain m where n: "n = Suc m" using Cons.prems(3) by (cases n) auto
  obtain w where w: "ww_heap s z = Some w" using Cons.prems(2) by auto
  then show ?case
    using Cons.prems n Cons.IH [of "wnext w" m "u + 1" "um + (length (ww_name w) + 1) + (length (username w) + 1) + (length (hostname w) + 1) + (length (servername w) + 1)"
        "case away w of None \<Rightarrow> aa | Some m \<Rightarrow> aa + 1" "case away w of None \<Rightarrow> am | Some m \<Rightarrow> am + (length m + 1)"]
    by (simp add: entry_size_def numeral_eq_Suc ac_simps)
qed simp

lemma count_whowas_total:
  assumes "ww_inv s xs"
  shows "\<exists>a am. count_whowas_memory s = Some (length xs, sum_list (map entry_size (history s xs)), a, am)"
proof -
  have "lseg (\<lambda>x. wnext (fld s x)) (ww_list s) xs" "set xs \<subseteq> dom (ww_heap s)" "length xs \<le> Suc (ww_alloc s)"
    using assms by (auto simp: ww_inv_def ww_links_def list_ok_def plist_def)
  from count_loop_sum [OF this, of 0 0 0 0] show ?thesis
    by (simp add: count_whowas_memory_def history_def entry_size_def ww_data_def o_def)
qed

section \<open>Runs\<close>

definition ww_init :: ww_state where
  "ww_init = \<lparr>ww_heap = Map.empty, ww_list = None, ww_tail = None, ww_alloc = 0, whowashash = (\<lambda>_. None), cli_whowas = (\<lambda>_. None)\<rparr>"

definition nick_ok :: "string \<Rightarrow> bool" where
  "nick_ok n \<longleftrightarrow> n \<noteq> [] \<and> NUL \<notin> set n"

text \<open>
  The states the history runs through, with the abstract history each of them stands for: a list
  of records, newest first. The allocator returns some block that is not in use.
\<close>

inductive ww_run :: "nat \<Rightarrow> ww_state \<Rightarrow> Whowas list \<Rightarrow> bool" for len where
  start: "ww_run len (initwhowas ww_init) []"
| add: "ww_run len s hs \<Longrightarrow> ww_heap s fresh = None \<Longrightarrow> nick_ok (wc_name c) \<Longrightarrow>
     add_history len fresh now cptr c still_on s = Some s' \<Longrightarrow>
     ww_run len s' (take len (new_entry cptr c now still_on # hs))"
| off: "ww_run len s hs \<Longrightarrow> off_history c s = Some s' \<Longrightarrow> ww_run len (release_client c s') (map (offline c) hs)"
| trim: "ww_run len s hs \<Longrightarrow> whowas_realloc len s = Some s' \<Longrightarrow> ww_run len s' (take len hs)"

lemma ww_inv_start: "ww_inv (initwhowas ww_init) []"
  by (simp add: ww_inv_def ww_links_def list_ok_def hash_ok_def cli_ok_def plist_def initwhowas_def ww_init_def)

lemma new_entry_ok: "nick_ok (wc_name c) \<Longrightarrow> entry_ok (new_entry cptr c now still_on)"
  by (cases "hash_loop 0 0 (wc_name c)")
    (auto simp: entry_ok_def new_entry_def nick_ok_def fill_record_def hash_whowas_name_def)

lemma offline_ok: "entry_ok (offline c w) = entry_ok w"
  by (simp add: entry_ok_def offline_def)

lemma ww_run_inv:
  assumes "ww_run len s hs" "2 \<le> len"
  shows "\<exists>xs. ww_inv s xs \<and> history s xs = hs \<and> length hs \<le> len \<and> list_all entry_ok hs"
  using assms(1)
proof (induction rule: ww_run.induct)
  case start
  then show ?case using ww_inv_start by (auto simp: history_def)
next
  case (add s hs fresh c now cptr still_on s')
  then obtain xs where xs: "ww_inv s xs" "history s xs = hs" "length hs \<le> len" "list_all entry_ok hs" by blast
  have len: "length xs = length hs" using xs(2) by (auto simp: history_def)
  have "fresh \<notin> set xs" using add.hyps(2) xs(1) by (auto simp: ww_inv_def)
  then obtain xs' where "ww_inv s' xs'"
      "history s' xs' = new_entry cptr c now still_on # (if length xs < len then hs else butlast hs)"
    using add_history_full [OF xs(1) assms(2), of fresh c now cptr still_on] add.hyps(3,4) xs(2) by (auto simp: nick_ok_def)
  moreover have "take len (new_entry cptr c now still_on # hs) = new_entry cptr c now still_on # (if length xs < len then hs else butlast hs)"
    using xs(3) len assms(2) by (cases len) (auto simp: butlast_conv_take)
  moreover have "list_all entry_ok (butlast hs)" using xs(4) by (auto simp: list_all_iff dest: in_set_butlastD)
  ultimately show ?case using xs(3,4) len assms(2) new_entry_ok [OF add.hyps(3)] by (intro exI [of _ xs']) auto
next
  case (off s hs c s')
  then obtain xs where xs: "ww_inv s xs" "history s xs = hs" "length hs \<le> len" "list_all entry_ok hs" by blast
  with off_history_ok [OF xs(1), of c] off.hyps(2) show ?case by (auto simp: list_all_iff offline_ok)
next
  case (trim s hs s')
  then obtain xs where xs: "ww_inv s xs" "history s xs = hs" "length hs \<le> len" "list_all entry_ok hs" by blast
  have "length xs = ww_alloc s" using xs(1) by (simp add: ww_inv_def)
  with realloc_loop_take [OF xs(1), of len "ww_alloc s"] trim.hyps(2) assms(2) xs
  show ?case by (auto simp: whowas_realloc_def list_all_iff dest: in_set_takeD)
qed

definition demo_client :: "string \<Rightarrow> ww_client" where
  "demo_client n = \<lparr>wc_name = n, wc_username = ''u'', wc_host = ''h'', wc_hidden = False, wc_realhost = ''h'',
     wc_ip = [], wc_server = ''s'', wc_info = ''i'', wc_away = None\<rparr>"

section \<open>Properties\<close>

text \<open>C14. The linked records implement a bounded list, newest first. With a history of at
  least two records, in every state the operations can reach: the list holds at most the configured
  number of records; adding, signing off and counting follow only valid pointers and return; and the
  lookup of a nickname through its hash bucket gives the online client of the newest record of that
  nickname (up to case) that is young enough.\<close>

theorem whowas_refines:
  assumes "ww_run len s hs" "2 \<le> len"
  shows "length hs \<le> len \<and>
    (nick_ok nick \<longrightarrow> get_history nick timelimit now s = Some (find_online nick (now - timelimit) hs)) \<and>
    (ww_heap s fresh = None \<longrightarrow> nick_ok (wc_name c) \<longrightarrow> add_history len fresh now cptr c still_on s \<noteq> None) \<and>
    off_history cptr s \<noteq> None \<and> whowas_realloc len s \<noteq> None \<and>
    (\<exists>a am. count_whowas_memory s = Some (length hs, sum_list (map entry_size hs), a, am))"
proof -
  obtain xs where xs: "ww_inv s xs" "history s xs = hs" "length hs \<le> len" "list_all entry_ok hs"
    using ww_run_inv [OF assms] by blast
  have "length xs = length hs" "ww_alloc s = length xs" using xs by (auto simp: history_def ww_inv_def)
  moreover have "\<exists>h. hash_whowas_name nick = Some h" if "nick_ok nick"
    using that by (cases "hash_loop 0 0 nick") (auto simp: nick_ok_def hash_whowas_name_def)
  moreover have "fresh \<notin> set xs" if "ww_heap s fresh = None" using that xs(1) by (auto simp: ww_inv_def)
  ultimately show ?thesis
    using xs get_history_find [OF xs(1)] add_history_full [OF xs(1) assms(2), of fresh c now cptr still_on]
      off_history_ok [OF xs(1), of cptr] realloc_loop_take [OF xs(1), of len "ww_alloc s"] count_whowas_total [OF xs(1)] assms(2)
    by (fastforce simp: nick_ok_def whowas_realloc_def)
qed


theorem whowas_refines_witness:
  "\<exists>s. ww_run 2 s [new_entry 7 (demo_client ''nick'') 50 True] \<and> get_history ''nick'' 100 60 s = Some (Some 7)"
proof -
  have n: "nick_ok ''nick''" by (simp add: nick_ok_def NUL_def)
  obtain s where s: "add_history 2 1 50 7 (demo_client ''nick'') True (initwhowas ww_init) = Some s"
    using whowas_refines [OF ww_run.start, where len = 2 and fresh = 1 and c = "demo_client ''nick''" and now = 50 and cptr = 7 and still_on = True] n
    by (auto simp: initwhowas_def ww_init_def demo_client_def)
  have run: "ww_run 2 s [new_entry 7 (demo_client ''nick'') 50 True]"
    using ww_run.add [OF ww_run.start _ _ s] n by (simp add: initwhowas_def ww_init_def demo_client_def)
  have "find_online ''nick'' (- 40) [new_entry 7 (demo_client ''nick'') 50 True] = Some 7"
    using strcmp_zero [of "''nick''" "''nick''"] by (simp add: new_entry_def fill_record_def demo_client_def NUL_def)
  with whowas_refines [OF run, where nick = "''nick''" and timelimit = 100 and now = 60] run n show ?thesis by auto
qed

text \<open>With a history of one record the list becomes a cycle when its record is reused, because
  \<^verbatim>\<open>whowas_clean\<close> does not reset \<open>ww_list\<close>: the count of the memory never ends. With a history of no
  records adding one writes through a NULL pointer.\<close>

lemma whowas_short_history:
  "(\<exists>s1 s2. add_history 1 1 0 7 (demo_client ''a'') False ww_init = Some s1 \<and>
     add_history 1 2 0 7 (demo_client ''b'') False s1 = Some s2 \<and> ww_list s2 = Some 1 \<and> map_option wnext (ww_heap s2 1) = Some (Some 1) \<and>
     count_whowas_memory s2 = None) \<and>
   add_history 0 1 0 7 (demo_client ''a'') False ww_init = None"
proof -
  obtain a where a: "hash_whowas_name ''a'' = Some a" "a < WW_MAX"
    using hash_name_bound [of "''a''"] by (cases "hash_loop 0 0 ''a''") (auto simp: hash_whowas_name_def)
  obtain b where b: "hash_whowas_name ''b'' = Some b" "b < WW_MAX"
    using hash_name_bound [of "''b''"] by (cases "hash_loop 0 0 ''b''") (auto simp: hash_whowas_name_def)
  show ?thesis
    using a b
    by (simp add: add_history_def whowas_alloc_def demo_client_def ww_init_def ww_zero_def fill_record_def upd_def upd_opt_def
        link_list_def link_hash_def whowas_clean_def clean_online_def clean_hash_def clean_list_def count_whowas_memory_def Let_def)
qed

end
