(* ===== verification/Msgq.thy ===== *)
theory Msgq
  imports Prelude "HOL-Library.Multiset"
begin

text \<open>
  Send queues (\<^verbatim>\<open>ircd/msgq.c\<close>). A message is formatted once into a \<^verbatim>\<open>MsgBuf\<close> and put on the
  queue of every client it goes to; the buffers are counted references in one store, so they are
  modelled with addresses. The first time a buffer is queued its text is copied to a close fitting
  buffer (\<^verbatim>\<open>real\<close>), unless it fits already or the pool is exhausted.

  The linked lists \<^verbatim>\<open>msglist\<close> and the free lists are lists of addresses, so \<^verbatim>\<open>next\<close> and
  \<^verbatim>\<open>prev_p\<close> have no field of their own: \<^verbatim>\<open>prev_p\<close> is set exactly for the buffers on
  \<^verbatim>\<open>msglist\<close>. Of the free \<^verbatim>\<open>Msg\<close> structures, which have no content, only the number is kept.
  A result \<open>None\<close> is a failed assertion or a bad pointer. A buffer that has been released but is
  still in the store has the reference cnt 0, so that any later use of it is an error here.
  The counters are natural numbers; the invariant shows that none of them is ever decremented
  below 0.
\<close>

section \<open>State\<close>

type_synonym mptr = nat

definition MB_BASE_SHIFT :: nat where "MB_BASE_SHIFT = 5"
definition MB_MAX_SHIFT :: nat where "MB_MAX_SHIFT = 9"

record MsgBuf =
  real :: "mptr option"
  ref :: nat
  power :: nat
  msg_text :: string  \<comment> \<open>the first \<^verbatim>\<open>length\<close> bytes of \<^verbatim>\<open>msg\<close>\<close>

record Msg =
  sent :: nat
  msg :: mptr

record MsgSizes =
  msgs :: nat
  sizes :: "nat \<Rightarrow> nat"

record MQData =
  mb_store :: "mptr \<rightharpoonup> MsgBuf"
  msglist :: "mptr list"
  msgs_alloc :: nat
  msgs_used :: nat
  msgs_free :: nat
  tot_bufsize :: nat
  buf_alloc :: "nat \<Rightarrow> nat"  \<comment> \<open>\<^verbatim>\<open>msgBufs[power - MB_BASE_SHIFT].alloc\<close> by \<^verbatim>\<open>power\<close>\<close>
  buf_used :: "nat \<Rightarrow> nat"
  buf_free :: "nat \<Rightarrow> mptr list"
  mq_sizes :: MsgSizes

record MsgQ =
  mq_length :: nat
  mq_count :: nat
  mq_queue :: "Msg list"
  mq_prio :: "Msg list"

definition bufsize :: "MsgBuf \<Rightarrow> nat" where
  "bufsize b = push_bit (power b) 1"

abbreviation mb_length :: "MsgBuf \<Rightarrow> nat" where
  "mb_length b \<equiv> length (msg_text b)"

definition mb_upd :: "mptr \<Rightarrow> (MsgBuf \<Rightarrow> MsgBuf) \<Rightarrow> MQData \<Rightarrow> MQData option" where
  "mb_upd p f s = map_option (\<lambda>b. s\<lparr>mb_store := (mb_store s)(p \<mapsto> f b)\<rparr>) (mb_store s p)"

section \<open>Releasing buffers\<close>

definition free_buf :: "mptr \<Rightarrow> MQData \<Rightarrow> MQData option" where
  "free_buf p s =
     map_option (\<lambda>b. s\<lparr>buf_free := (buf_free s)(power b := p # buf_free s (power b)),
                       buf_used := (buf_used s)(power b := buf_used s (power b) - 1)\<rparr>)
       (mb_store s p)"

text \<open>The recursion follows \<^verbatim>\<open>real\<close>; a real buffer has none of its own, so the depth 2 is enough.\<close>

fun clean_depth :: "nat \<Rightarrow> mptr \<Rightarrow> MQData \<Rightarrow> MQData option" where
  "clean_depth 0 p s = None"
| "clean_depth (Suc d) p s =
     do { b \<leftarrow> mb_store s p;
          if ref b = 0 then None
          else do { s \<leftarrow> mb_upd p (\<lambda>b. b\<lparr>ref := ref b - 1\<rparr>) s;
                    if ref b \<noteq> 1 then Some s
                    else do { s \<leftarrow> Some (s\<lparr>msglist := remove1 p (msglist s)\<rparr>);
                              s \<leftarrow> (case real b of
                                     None \<Rightarrow> Some s
                                   | Some r \<Rightarrow> if r = p then Some s else clean_depth d r s);
                              free_buf p s } } }"

definition msgq_clean :: "mptr \<Rightarrow> MQData \<Rightarrow> MQData option" where
  "msgq_clean = clean_depth 2"

section \<open>Removing data from a queue\<close>

datatype qsel = Queue | Prio

fun qlist :: "qsel \<Rightarrow> MsgQ \<Rightarrow> Msg list" where
  "qlist Queue mq = mq_queue mq"
| "qlist Prio mq = mq_prio mq"

fun set_qlist :: "qsel \<Rightarrow> Msg list \<Rightarrow> MsgQ \<Rightarrow> MsgQ" where
  "set_qlist Queue l mq = mq\<lparr>mq_queue := l\<rparr>"
| "set_qlist Prio l mq = mq\<lparr>mq_prio := l\<rparr>"

definition msgq_delmsg :: "qsel \<Rightarrow> nat \<Rightarrow> MQData \<times> MsgQ \<Rightarrow> (nat \<times> MQData \<times> MsgQ) option" where
  "msgq_delmsg q n = (\<lambda>(s, mq).
     case qlist q mq of
       [] \<Rightarrow> None
     | m # rest \<Rightarrow>
         do { b \<leftarrow> mb_store s (msg m);
              let msglen = mb_length b - sent m in
              if n \<ge> msglen
              then do { s \<leftarrow> msgq_clean (msg m) s;
                        Some (n - msglen,
                          s\<lparr>msgs_used := msgs_used s - 1, msgs_free := msgs_free s + 1\<rparr>,
                          set_qlist q rest
                            (mq\<lparr>mq_length := mq_length mq - msglen, mq_count := mq_count mq - 1\<rparr>)) }
              else Some (0, s,
                     set_qlist q (m\<lparr>sent := sent m + n\<rparr> # rest) (mq\<lparr>mq_length := mq_length mq - n\<rparr>)) })"

definition msgq_init :: MsgQ where
  "msgq_init = \<lparr>mq_length = 0, mq_count = 0, mq_queue = [], mq_prio = []\<rparr>"

text \<open>The list that data is taken from next.\<close>

definition next_list :: "MsgQ \<Rightarrow> qsel option" where
  "next_list mq =
     (if mq_queue mq \<noteq> [] \<and> sent (hd (mq_queue mq)) > 0 then Some Queue
      else if mq_prio mq \<noteq> [] then Some Prio
      else if mq_queue mq \<noteq> [] then Some Queue
      else None)"

lemma msgq_delmsg_shrinks:
  assumes "msgq_delmsg q n (s, mq) = Some (n', s', mq')" and "n > 0"
  shows "length (mq_queue mq') + length (mq_prio mq') + n' < length (mq_queue mq) + length (mq_prio mq) + n"
  using assms by (cases q) (auto simp: msgq_delmsg_def Let_def bind_eq_Some_conv split: list.splits if_splits)

function msgq_delete :: "nat \<Rightarrow> MQData \<times> MsgQ \<Rightarrow> (MQData \<times> MsgQ) option" where
  "msgq_delete n (s, mq) =
     (if n = 0 then Some (s, mq)
      else case next_list mq of
        None \<Rightarrow> Some (s, mq)
      | Some q \<Rightarrow>
          (case msgq_delmsg q n (s, mq) of
             None \<Rightarrow> None
           | Some (n', s', mq') \<Rightarrow> msgq_delete n' (s', mq')))"
  by pat_completeness auto
termination
proof (relation "measure (\<lambda>(n, s, mq). length (mq_queue mq) + length (mq_prio mq) + n)", goal_cases)
  case (2 n s mq q r n' z s' mq')
  then have "msgq_delmsg q n (s, mq) = Some (n', s', mq')" by simp
  with 2(1) show ?case using msgq_delmsg_shrinks by simp
qed simp

declare msgq_delete.simps [simp del]

definition MsgQClear :: "MQData \<times> MsgQ \<Rightarrow> (MQData \<times> MsgQ) option" where
  "MsgQClear = (\<lambda>(s, mq). msgq_delete (mq_length mq) (s, mq))"

section \<open>Mapping a queue to an I/O vector\<close>

text \<open>
  An element of the vector is the bytes it points at. \<open>map_list\<close> is the loop over a list, which
  gives the rest of the space when it is not used up and \<open>None\<close> for that when it is.
\<close>

fun map_list :: "MQData \<Rightarrow> nat \<Rightarrow> Msg list \<Rightarrow> (string list \<times> nat option) option" where
  "map_list s cnt [] = Some ([], Some cnt)"
| "map_list s cnt (m # rest) =
     do { b \<leftarrow> mb_store s (msg m);
          if cnt - 1 = 0 then Some ([msg_text b], None)
          else do { (iov, left) \<leftarrow> map_list s (cnt - 1) rest; Some (msg_text b # iov, left) } }"

text \<open>The partly sent message at the head of a list, if there is one, and where the loop starts.\<close>

definition map_partial :: "MQData \<Rightarrow> Msg list \<Rightarrow> (string list \<times> Msg list) option" where
  "map_partial s l =
     (case l of
        [] \<Rightarrow> Some ([], l)
      | m # rest \<Rightarrow>
          if sent m > 0 then map_option (\<lambda>b. ([drop (sent m) (msg_text b)], rest)) (mb_store s (msg m))
          else Some ([], l))"

definition msgq_mapiov :: "MQData \<Rightarrow> MsgQ \<Rightarrow> nat \<Rightarrow> (string list \<times> nat) option" where
  "msgq_mapiov s mq cnt =
     map_option (\<lambda>iov. (iov, sum_list (map length iov)))
      (if mq_length mq = 0 then Some []
       else do { (iov1, queue) \<leftarrow> map_partial s (mq_queue mq);
                 let cnt = cnt - length iov1 in
                 if iov1 \<noteq> [] \<and> cnt = 0 then Some iov1
                 else do { (iov2, prio) \<leftarrow> map_partial s (mq_prio mq);
                           let cnt = cnt - length iov2 in
                           if iov2 \<noteq> [] \<and> cnt = 0 then Some (iov1 @ iov2)
                           else do { (iov3, left) \<leftarrow> map_list s cnt prio;
                                     case left of
                                       None \<Rightarrow> Some (iov1 @ iov2 @ iov3)
                                     | Some cnt \<Rightarrow>
                                         do { (iov4, left) \<leftarrow> map_list s cnt queue;
                                              Some (iov1 @ iov2 @ iov3 @ iov4) } } } })"

section \<open>Allocating buffers\<close>

type_synonym msys = "MQData \<times> MsgQ list"

text \<open>
  The allocator, two features, and the two functions of \<^verbatim>\<open>ircd/send.c\<close> by which
  \<^verbatim>\<open>msgq_vmake\<close> tries to get buffers back, which work on the queues of all clients.
\<close>

record mq_env =
  MyMalloc :: "(mptr \<rightharpoonup> MsgBuf) \<Rightarrow> mptr"
  BUFFERPOOL :: nat
  HAS_FERGUSON_FLUSHER :: bool
  mq_flush_connections :: "msys \<Rightarrow> msys"
  mq_kill_highest_sendq :: "bool \<Rightarrow> msys \<Rightarrow> msys"

fun find_power :: "int \<Rightarrow> nat list \<Rightarrow> nat" where
  "find_power len [] = MB_MAX_SHIFT + 1"
| "find_power len (p # ps) = (if drop_bit p (len - 1) = 0 then p else find_power len ps)"

definition alloc_init :: "mptr \<Rightarrow> nat \<Rightarrow> mptr option \<Rightarrow> MQData \<Rightarrow> MQData option" where
  "alloc_init mb pw in_mb s =
     do { s \<leftarrow> Some (s\<lparr>buf_used := (buf_used s)(pw := buf_used s pw + 1)\<rparr>);
          s \<leftarrow> mb_upd mb (\<lambda>b. b\<lparr>real := None, ref := 1\<rparr>) s;
          case in_mb of None \<Rightarrow> Some s | Some p \<Rightarrow> mb_upd p (\<lambda>b. b\<lparr>real := Some mb\<rparr>) s }"

definition new_msgbuf :: "nat \<Rightarrow> MsgBuf" where
  "new_msgbuf pw = \<lparr>real = None, ref = 0, power = pw, msg_text = []\<rparr>"

definition alloc_new :: "mq_env \<Rightarrow> mptr option \<Rightarrow> nat \<Rightarrow> MQData \<Rightarrow> (mptr option \<times> MQData) option" where
  "alloc_new env in_mb pw s =
     (case buf_free s pw of
        mb # rest \<Rightarrow>
          map_option (Pair (Some mb)) (alloc_init mb pw in_mb (s\<lparr>buf_free := (buf_free s)(pw := rest)\<rparr>))
      | [] \<Rightarrow>
          if tot_bufsize s < BUFFERPOOL env
          then let mb = MyMalloc env (mb_store s)
               in map_option (Pair (Some mb)) (alloc_init mb pw in_mb
                    (s\<lparr>mb_store := (mb_store s)(mb \<mapsto> new_msgbuf pw),
                       buf_alloc := (buf_alloc s)(pw := buf_alloc s pw + 1),
                       tot_bufsize := tot_bufsize s + push_bit pw 1\<rparr>))
          else case in_mb of
             None \<Rightarrow> Some (None, s)
           | Some p \<Rightarrow> map_option (Pair in_mb) (mb_upd p (\<lambda>b. b\<lparr>real := in_mb\<rparr>) s))"

definition msgq_alloc :: "mq_env \<Rightarrow> mptr option \<Rightarrow> int \<Rightarrow> MQData \<Rightarrow> (mptr option \<times> MQData) option" where
  "msgq_alloc env in_mb len s =
     (let pw = find_power len [MB_BASE_SHIFT..<MB_MAX_SHIFT + 1] in
      if \<not> (push_bit pw 1 \<ge> len \<and> push_bit pw (1 :: int) \<le> 512) then None
      else case in_mb of
        None \<Rightarrow> alloc_new env in_mb pw s
      | Some p \<Rightarrow>
          do { b \<leftarrow> mb_store s p;
               if power b = pw
               then map_option (Pair in_mb) (mb_upd p (\<lambda>b. b\<lparr>real := in_mb\<rparr>) s)
               else alloc_new env in_mb pw s })"

text \<open>\<^verbatim>\<open>msgq_clear_freembs\<close>: the loop over one free list, and the loop over the sizes.\<close>

fun clear_list :: "nat \<Rightarrow> mptr list \<Rightarrow> MQData \<Rightarrow> MQData" where
  "clear_list i [] s = s"
| "clear_list i (mb # rest) s =
     clear_list i rest
       (s\<lparr>buf_free := (buf_free s)(i := rest), buf_alloc := (buf_alloc s)(i := buf_alloc s i - 1),
          tot_bufsize := tot_bufsize s - push_bit i 1, mb_store := (mb_store s)(mb := None)\<rparr>)"

definition msgq_clear_freembs :: "MQData \<Rightarrow> MQData" where
  "msgq_clear_freembs s =
     fold (\<lambda>i s. clear_list i (buf_free s i) s) [MB_BASE_SHIFT..<MB_MAX_SHIFT + 1] s"

section \<open>Making messages\<close>

definition crlf :: string where "crlf = [CHR 0x0D, CHR 0x0A]"

text \<open>
  The text a formatted message leaves in a buffer: \<^verbatim>\<open>ircd_vsnprintf\<close> writes at most
  \<^verbatim>\<open>bufsize - 2\<close> bytes here and returns the length of all of the text, which is then cut.
\<close>

definition fill_text :: "string \<Rightarrow> MsgBuf \<Rightarrow> MsgBuf" where
  "fill_text txt_out b = b\<lparr>msg_text := take (bufsize b - 2) txt_out @ crlf\<rparr>"

text \<open>A step of \<^verbatim>\<open>msgq_vmake\<close> that runs only while there is no buffer.\<close>

definition retry_alloc :: "mq_env \<Rightarrow> bool \<Rightarrow> (msys \<Rightarrow> msys) \<Rightarrow> mptr option \<times> msys \<Rightarrow> (mptr option \<times> msys) option" where
  "retry_alloc env cond f = (\<lambda>(mb, sys).
     if mb \<noteq> None \<or> \<not> cond then Some (mb, sys)
     else case f sys of (s, qs) \<Rightarrow>
       do { (mb, s) \<leftarrow> msgq_alloc env None (int BUFSIZE) s; Some (mb, (s, qs)) })"

definition clear_sys :: "msys \<Rightarrow> msys" where
  "clear_sys = (\<lambda>(s, qs). (msgq_clear_freembs s, qs))"

definition vmake_alloc :: "mq_env \<Rightarrow> msys \<Rightarrow> (mptr option \<times> msys) option" where
  "vmake_alloc env sys =
     retry_alloc env True (\<lambda>x. x) (None, sys) \<bind>
     retry_alloc env (HAS_FERGUSON_FLUSHER env) (mq_flush_connections env) \<bind>
     retry_alloc env True clear_sys \<bind>
     retry_alloc env True (\<lambda>x. clear_sys (mq_kill_highest_sendq env False x)) \<bind>
     retry_alloc env True (\<lambda>x. clear_sys (mq_kill_highest_sendq env True x))"

text \<open>\<open>Inl\<close> is the exit of the program by \<^verbatim>\<open>server_panic\<close>.\<close>

definition msgq_vmake :: "mq_env \<Rightarrow> string \<Rightarrow> msys \<Rightarrow> (string + mptr \<times> msys) option" where
  "msgq_vmake env txt_out sys =
     do { (mb, (s, qs)) \<leftarrow> vmake_alloc env sys;
          case mb of
            None \<Rightarrow> Some (Inl ''Unable to allocate buffers!'')
          | Some p \<Rightarrow>
              do { s \<leftarrow> mb_upd p (fill_text txt_out) s;
                   Some (Inr (p, s\<lparr>msglist := p # msglist s\<rparr>, qs)) } }"

definition msgq_append :: "string \<Rightarrow> mptr \<Rightarrow> MQData \<Rightarrow> MQData option" where
  "msgq_append txt_out p s =
     do { b \<leftarrow> mb_store s p;
          if real b \<noteq> None \<or> mb_length b \<le> 2 \<or> bufsize b < mb_length b then None
          else mb_upd p (fill_text (take (mb_length b - 2) (msg_text b) @ txt_out)) s }"

section \<open>Queueing messages\<close>

text \<open>Give \<open>p\<close> its real buffer.\<close>

definition make_real :: "mq_env \<Rightarrow> mptr \<Rightarrow> MQData \<Rightarrow> MQData option" where
  "make_real env p s =
     do { b \<leftarrow> mb_store s p;
          if mb_length b - 1 \<ge> BUFSIZE then None
          else do {
            s \<leftarrow> Some (s\<lparr>mq_sizes := (mq_sizes s)\<lparr>msgs := msgs (mq_sizes s) + 1,
                     sizes := (sizes (mq_sizes s))(mb_length b - 1 := sizes (mq_sizes s) (mb_length b - 1) + 1)\<rparr>\<rparr>);
            (tmp, s) \<leftarrow> msgq_alloc env (Some p) (int (mb_length b)) s;
            t \<leftarrow> tmp;
            if t = p then Some s
            else do { s \<leftarrow> mb_upd t (\<lambda>tb. tb\<lparr>msg_text := msg_text b\<rparr>) s;
                      if p \<in> set (msglist s)
                      then Some (s\<lparr>msglist := map (\<lambda>x. if x = p then t else x) (msglist s)\<rparr>)
                      else None } } }"

definition msgq_add :: "mq_env \<Rightarrow> mptr \<Rightarrow> bool \<Rightarrow> MQData \<times> MsgQ \<Rightarrow> (MQData \<times> MsgQ) option" where
  "msgq_add env p prio = (\<lambda>(s, mq).
     do { b \<leftarrow> mb_store s p;
          if ref b = 0 \<or> mb_length b = 0 then None
          else do {
            prio \<leftarrow> Some False;
            s \<leftarrow> Some (if msgs_free s = 0 then s\<lparr>msgs_alloc := msgs_alloc s + 1\<rparr>
                       else s\<lparr>msgs_free := msgs_free s - 1\<rparr>);
            s \<leftarrow> Some (s\<lparr>msgs_used := msgs_used s + 1\<rparr>);
            s \<leftarrow> (if real b = None then make_real env p s else Some s);
            b \<leftarrow> mb_store s p;
            r \<leftarrow> real b;
            s \<leftarrow> mb_upd r (\<lambda>b. b\<lparr>ref := ref b + 1\<rparr>) s;
            b \<leftarrow> mb_store s r;
            let q = (if prio then Prio else Queue) in
            Some (s, set_qlist q (qlist q mq @ [\<lparr>sent = 0, msg = r\<rparr>])
              (mq\<lparr>mq_length := mq_length mq + mb_length b, mq_count := mq_count mq + 1\<rparr>)) } })"

section \<open>Statistics\<close>

text \<open>The two totals; \<open>szm\<close> and \<open>szb\<close> are the sizes of \<^verbatim>\<open>struct Msg\<close> and \<^verbatim>\<open>struct MsgBuf\<close>.\<close>

definition msgq_count_memory :: "nat \<Rightarrow> nat \<Rightarrow> MQData \<Rightarrow> nat \<times> nat" where
  "msgq_count_memory szm szb s =
     (msgs_alloc s * szm,
      fold (\<lambda>i total. total + buf_alloc s i * (szb + push_bit i 1)) [MB_BASE_SHIFT..<MB_MAX_SHIFT + 1] 0)"

definition msgq_bufleft :: "mptr \<Rightarrow> MQData \<Rightarrow> nat option" where
  "msgq_bufleft p s = map_option (\<lambda>b. bufsize b - mb_length b) (mb_store s p)"

end
