(* ===== verification/Msgq_Store.thy ===== *)
theory Msgq_Store
  imports Msgq
begin

text \<open>
  The store of message buffers: its invariant relates every reference count to the references
  that exist, the free lists and counters to the buffers, and a copied buffer to its copy. Each
  operation of \<^verbatim>\<open>ircd/msgq.c\<close> on buffers keeps it, and none of them fails or uses a released buffer.
\<close>

section \<open>Invariant of the store\<close>

text \<open>
  The fields of the stored buffers as functions of the address, with the values of a buffer that
  does not exist chosen so that it counts as not live.
\<close>

definition rf :: "MQData \<Rightarrow> mptr \<Rightarrow> nat" where
  "rf s p = (case mb_store s p of None \<Rightarrow> 0 | Some b \<Rightarrow> ref b)"

definition rl :: "MQData \<Rightarrow> mptr \<Rightarrow> mptr option" where
  "rl s p = (case mb_store s p of None \<Rightarrow> None | Some b \<Rightarrow> real b)"

definition tx :: "MQData \<Rightarrow> mptr \<Rightarrow> string" where
  "tx s p = (case mb_store s p of None \<Rightarrow> [] | Some b \<Rightarrow> msg_text b)"

definition pw :: "MQData \<Rightarrow> mptr \<Rightarrow> nat option" where
  "pw s p = map_option power (mb_store s p)"

definition live :: "MQData \<Rightarrow> mptr set" where
  "live s = {p. rf s p > 0}"

definition owners :: "MQData \<Rightarrow> mptr \<Rightarrow> mptr set" where
  "owners s p = {q \<in> live s. q \<noteq> p \<and> rl s q = Some p}"

definition of_power :: "MQData \<Rightarrow> nat \<Rightarrow> mptr set" where
  "of_power s k = {p. pw s p = Some k}"

text \<open>
  \<open>H\<close> holds the references of the code that made a message and has not released it, \<open>Q\<close> those of
  the queues. \<open>P\<close> are the buffers that are in neither state while an operation runs: no longer
  live and not on a free list.
\<close>

definition refs_inv :: "MQData \<Rightarrow> mptr multiset \<Rightarrow> mptr multiset \<Rightarrow> bool" where
  "refs_inv s H Q \<longleftrightarrow> finite (dom (mb_store s)) \<and>
     (\<forall>p. rf s p = count H p + count Q p + card (owners s p))"

definition size_inv :: "MQData \<Rightarrow> bool" where
  "size_inv s \<longleftrightarrow> (\<forall>p k. pw s p = Some k \<longrightarrow> MB_BASE_SHIFT \<le> k \<and> k \<le> MB_MAX_SHIFT \<and>
     (p \<in> live s \<longrightarrow> 2 \<le> length (tx s p) \<and> length (tx s p) \<le> 2 ^ k))"

text \<open>A copied buffer is held only, its copy is queued only and has the same text.\<close>

definition copy_inv :: "MQData \<Rightarrow> mptr multiset \<Rightarrow> mptr multiset \<Rightarrow> bool" where
  "copy_inv s H Q \<longleftrightarrow>
     (\<forall>p r. p \<in> live s \<longrightarrow> rl s p = Some r \<longrightarrow> r \<noteq> p \<longrightarrow>
        p \<notin># Q \<and> r \<notin># H \<and> r \<in> live s \<and> rl s r = None \<and> tx s r = tx s p) \<and>
     (\<forall>p. p \<in># H \<longrightarrow> p \<in># Q \<longrightarrow> rl s p = Some p)"

definition msglist_inv :: "MQData \<Rightarrow> bool" where
  "msglist_inv s \<longleftrightarrow> distinct (msglist s) \<and>
     set (msglist s) = {p \<in> live s. rl s p = None \<or> rl s p = Some p}"

definition free_inv :: "MQData \<Rightarrow> mptr set \<Rightarrow> bool" where
  "free_inv s P \<longleftrightarrow> P \<subseteq> dom (mb_store s) - live s \<and>
     (\<forall>k. distinct (buf_free s k) \<and> set (buf_free s k) = of_power s k - live s - P \<and>
          buf_used s k = card (of_power s k \<inter> (live s \<union> P)) \<and>
          buf_alloc s k = card (of_power s k)) \<and>
     tot_bufsize s = (\<Sum>k = MB_BASE_SHIFT..MB_MAX_SHIFT. buf_alloc s k * 2 ^ k)"

definition store_inv :: "MQData \<Rightarrow> mptr multiset \<Rightarrow> mptr multiset \<Rightarrow> mptr set \<Rightarrow> bool" where
  "store_inv s H Q P \<longleftrightarrow> refs_inv s H Q \<and> size_inv s \<and> copy_inv s H Q \<and> msglist_inv s \<and> free_inv s P"

lemmas view_defs = rf_def rl_def tx_def pw_def
lemmas inv_defs = store_inv_def refs_inv_def size_inv_def copy_inv_def msglist_inv_def free_inv_def

lemma mb_upd_Some [simp]: "mb_store s p = Some b \<Longrightarrow> mb_upd p f s = Some (s\<lparr>mb_store := (mb_store s)(p \<mapsto> f b)\<rparr>)"
  by (simp add: mb_upd_def)

text \<open>The views depend on the store alone.\<close>

lemma views_cong:
  assumes "mb_store s' = mb_store s"
  shows "rf s' = rf s" "rl s' = rl s" "tx s' = tx s" "pw s' = pw s"
    "live s' = live s" "owners s' = owners s" "of_power s' = of_power s"
proof -
  show *: "rf s' = rf s" "rl s' = rl s" "tx s' = tx s" "pw s' = pw s"
    using assms by (auto simp: view_defs fun_eq_iff)
  show l: "live s' = live s" using * by (simp add: live_def)
  show "owners s' = owners s" "of_power s' = of_power s"
    using * l by (auto simp: owners_def of_power_def fun_eq_iff)
qed

lemma views_upd:
  assumes "mb_store s' = (mb_store s)(p \<mapsto> b)"
  shows "rf s' = (rf s)(p := ref b)" "rl s' = (rl s)(p := real b)"
    "tx s' = (tx s)(p := msg_text b)" "pw s' = (pw s)(p \<mapsto> power b)"
  using assms by (auto simp: view_defs fun_eq_iff)

lemma views_at:
  assumes "mb_store s p = Some b"
  shows "ref b = rf s p" "real b = rl s p" "msg_text b = tx s p" "pw s p = Some (power b)"
  using assms by (simp_all add: view_defs)

lemma copy_cong:
  assumes "live s' = live s" "rl s' = rl s" "tx s' = tx s"
  shows "copy_inv s' = copy_inv s"
  using assms by (simp add: copy_inv_def fun_eq_iff)

lemma inv_congs:
  assumes "live s' = live s" "rl s' = rl s" "tx s' = tx s" "pw s' = pw s" "msglist s' = msglist s"
  shows "size_inv s' = size_inv s" "copy_inv s' = copy_inv s" "msglist_inv s' = msglist_inv s"
  using assms by (simp_all add: size_inv_def copy_inv_def msglist_inv_def fun_eq_iff)

lemma live_dom: "live s \<subseteq> dom (mb_store s)"
  by (auto simp: live_def rf_def split: option.splits)

lemma of_power_dom: "of_power s k \<subseteq> dom (mb_store s)"
  by (auto simp: of_power_def pw_def)

lemma live_storeE:
  assumes "p \<in> live s"
  obtains b where "mb_store s p = Some b" "ref b > 0"
  using assms by (auto simp: live_def rf_def split: option.splits)

lemma store_inv_live:
  assumes "store_inv s H Q P" and "p \<in># H + Q"
  shows "p \<in> live s"
proof -
  have "rf s p = count H p + count Q p + card (owners s p)"
    using assms(1) by (simp add: store_inv_def refs_inv_def)
  moreover have "count H p + count Q p > 0" using assms(2) by auto
  ultimately show ?thesis by (simp add: live_def)
qed

lemma finite_live: "store_inv s H Q P \<Longrightarrow> finite (live s)"
  by (rule finite_subset [OF live_dom]) (simp add: store_inv_def refs_inv_def)

lemma finite_owners: "store_inv s H Q P \<Longrightarrow> finite (owners s p)"
  by (rule finite_subset [OF _ finite_live]) (auto simp: owners_def)

text \<open>A change of the reference count that keeps a buffer live.\<close>

lemma ref_change:
  assumes inv: "store_inv s H' Q' P" and b: "mb_store s p = Some b" and pos: "ref b > 0" "k > 0"
    and k: "k = count H p + count Q p + card (owners s p)"
    and eq: "\<And>x. x \<noteq> p \<Longrightarrow> count H x = count H' x \<and> count Q x = count Q' x"
    and copy: "copy_inv s H Q"
    and s': "s' = s\<lparr>mb_store := (mb_store s)(p \<mapsto> b\<lparr>ref := k\<rparr>)\<rparr>"
  shows "store_inv s' H Q P"
proof -
  have up: "mb_store s' = (mb_store s)(p \<mapsto> b\<lparr>ref := k\<rparr>)"
    and fl: "msglist s' = msglist s" "buf_free s' = buf_free s" "buf_used s' = buf_used s"
      "buf_alloc s' = buf_alloc s" "tot_bufsize s' = tot_bufsize s"
    by (simp_all add: s')
  have v: "rf s' = (rf s)(p := k)" "rl s' = rl s" "tx s' = tx s" "pw s' = pw s"
    using views_upd [OF up] views_at [OF b] by (auto simp: fun_eq_iff)
  have lv: "live s' = live s" and op: "of_power s' = of_power s"
    using v pos views_at(1) [OF b] by (auto simp: live_def of_power_def)
  have own: "owners s' = owners s" using v lv by (simp add: owners_def fun_eq_iff)
  have "refs_inv s' H Q" using inv eq k own v up unfolding store_inv_def refs_inv_def by auto
  moreover have "size_inv s'" "msglist_inv s'" "copy_inv s' H Q"
    using inv copy inv_congs [OF lv v(2-4) fl(1)] by (simp_all add: store_inv_def)
  moreover have "dom (mb_store s') = dom (mb_store s)" using b up by auto
  then have "free_inv s' P" using inv lv op fl by (simp add: store_inv_def free_inv_def)
  ultimately show ?thesis by (simp add: store_inv_def)
qed

text \<open>Dropping one reference to \<open>p\<close>, held or queued.\<close>

definition drops :: "mptr \<Rightarrow> mptr multiset \<Rightarrow> mptr multiset \<Rightarrow> mptr multiset \<Rightarrow> mptr multiset \<Rightarrow> bool" where
  "drops p H' Q' H Q \<longleftrightarrow> (H' = add_mset p H \<and> Q' = Q) \<or> (H' = H \<and> Q' = add_mset p Q)"

lemma drops_count:
  assumes "drops p H' Q' H Q"
  shows "x \<noteq> p \<Longrightarrow> count H x = count H' x \<and> count Q x = count Q' x"
    and "count H' p + count Q' p = Suc (count H p + count Q p)"
    and "x \<in># H \<Longrightarrow> x \<in># H'" and "x \<in># Q \<Longrightarrow> x \<in># Q'" and "p \<in># H' + Q'"
  using assms by (auto simp: drops_def)

lemma copy_inv_drops: "copy_inv s H' Q' \<Longrightarrow> drops p H' Q' H Q \<Longrightarrow> copy_inv s H Q"
  using drops_count(3,4) unfolding copy_inv_def by blast

lemma drop_shared:
  assumes inv: "store_inv s H' Q' P" and d: "drops p H' Q' H Q"
    and b: "mb_store s p = Some b" and more: "ref b > 1"
  shows "store_inv (s\<lparr>mb_store := (mb_store s)(p \<mapsto> b\<lparr>ref := ref b - 1\<rparr>)\<rparr>) H Q P"
proof (rule ref_change [OF inv b _ _ _ _ _ refl])
  have "ref b = count H' p + count Q' p + card (owners s p)"
    using inv views_at(1) [OF b] by (simp add: store_inv_def refs_inv_def)
  then show "ref b - 1 = count H p + count Q p + card (owners s p)"
    using drops_count(2) [OF d] by simp
  show "copy_inv s H Q" using inv d copy_inv_drops by (auto simp: store_inv_def)
qed (use more drops_count(1) [OF d] in auto)

definition real_refs :: "mptr \<Rightarrow> mptr option \<Rightarrow> mptr multiset" where
  "real_refs p r = (case r of None \<Rightarrow> {#} | Some x \<Rightarrow> if x = p then {#} else {#x#})"

lemma count_real_refs: "count (real_refs p r) x = (if r = Some x \<and> x \<noteq> p then 1 else 0)"
  by (auto simp: real_refs_def split: option.splits)

lemma in_real_refs: "x \<in># real_refs p r \<longleftrightarrow> r = Some x \<and> x \<noteq> p"
  by (auto simp: real_refs_def split: option.splits if_splits)

lemma copy_invD:
  assumes "copy_inv s H Q" "p \<in> live s" "rl s p = Some r" "r \<noteq> p"
  shows "p \<notin># Q" "r \<notin># H" "r \<in> live s" "rl s r = None" "tx s r = tx s p"
  using assms unfolding copy_inv_def by blast+

lemma drop_last:
  assumes inv: "store_inv s H' Q' P" and d: "drops p H' Q' H Q"
    and b: "mb_store s p = Some b" and one: "ref b = 1"
    and s': "s' = s\<lparr>mb_store := (mb_store s)(p \<mapsto> b\<lparr>ref := 0\<rparr>), msglist := remove1 p (msglist s)\<rparr>"
  shows "store_inv s' H (Q + real_refs p (real b)) (insert p P)"
proof -
  have up: "mb_store s' = (mb_store s)(p \<mapsto> b\<lparr>ref := 0\<rparr>)"
    and fl: "msglist s' = remove1 p (msglist s)" "buf_free s' = buf_free s" "buf_used s' = buf_used s"
      "buf_alloc s' = buf_alloc s" "tot_bufsize s' = tot_bufsize s"
    by (simp_all add: s')
  note [simp] = views_at [OF b]
  have v: "rf s' = (rf s)(p := 0)" "rl s' = rl s" "tx s' = tx s" "pw s' = pw s"
    using views_upd [OF up] by (auto simp: fun_eq_iff)
  have p: "p \<in> live s" using one by (simp add: live_def)
  have lv: "live s' = live s - {p}" and op: "of_power s' = of_power s"
    using v by (auto simp: live_def of_power_def)
  have refs: "rf s x = count H' x + count Q' x + card (owners s x)" for x
    using inv by (simp add: store_inv_def refs_inv_def)
  have none: "card (owners s p) = 0" "count H p = 0" "count Q p = 0"
    using refs [of p] drops_count(2) [OF d] one by simp_all
  then have own0: "owners s p = {}" using finite_owners [OF inv] by simp
  have own: "owners s' x = owners s x - {p}" for x using v lv by (auto simp: owners_def)
  have cp: "copy_inv s H Q" using inv d copy_inv_drops by (auto simp: store_inv_def)
  have "refs_inv s' H (Q + real_refs p (real b))"
  proof -
    have "rf s' x = count H x + count (Q + real_refs p (real b)) x + card (owners s' x)" for x
    proof (cases "x = p")
      case True
      then show ?thesis using none own0 own [of p] by (simp add: v count_real_refs)
    next
      case False
      have "card (owners s x) = (if rl s p = Some x then 1 else 0) + card (owners s x - {p})"
        using False p finite_owners [OF inv, of x] card_Suc_Diff1 [of "owners s x" p]
        by (auto simp: owners_def)
      then show ?thesis using False refs [of x] drops_count(1) [OF d False]
        by (simp add: v count_real_refs own)
    qed
    then show ?thesis using inv b by (simp add: store_inv_def refs_inv_def up)
  qed
  moreover have "size_inv s'" using inv unfolding store_inv_def size_inv_def v lv by simp
  moreover have "copy_inv s' H (Q + real_refs p (real b))"
    unfolding copy_inv_def
  proof (intro conjI allI impI)
    fix x r assume "x \<in> live s'" "rl s' x = Some r" "r \<noteq> x"
    then have x: "x \<in> live s" "rl s x = Some r" "r \<noteq> x" "x \<noteq> p" using v lv by auto
    note c = copy_invD [OF cp x(1-3)]
    have "r \<noteq> p" using own0 x by (auto simp: owners_def)
    moreover have "\<not> (rl s p = Some x \<and> x \<noteq> p)" using copy_invD(4) [OF cp p] x by auto
    ultimately show "x \<notin># Q + real_refs p (real b)" "r \<notin># H" "r \<in> live s'" "rl s' r = None" "tx s' r = tx s' x"
      using c v lv by (auto simp: in_real_refs)
  next
    fix x assume x: "x \<in># H" "x \<in># Q + real_refs p (real b)"
    then have "\<not> (rl s p = Some x \<and> x \<noteq> p)" using copy_invD(2) [OF cp p, of x] by auto
    then show "rl s' x = Some x" using x cp v by (auto simp: in_real_refs copy_inv_def)
  qed
  moreover have "msglist_inv s'" using inv unfolding store_inv_def msglist_inv_def fl v lv by auto
  moreover have "free_inv s' (insert p P)"
  proof -
    have dom: "dom (mb_store s') = dom (mb_store s)" "p \<in> dom (mb_store s)" using b up by auto
    have PP: "p \<notin> P" "P \<subseteq> dom (mb_store s) - live s" using inv p by (auto simp: store_inv_def free_inv_def)
    have "live s - {p} \<union> insert p P = live s \<union> P"
      "of_power s k - (live s - {p}) - insert p P = of_power s k - live s - P" for k
      using p PP by auto
    then show ?thesis using inv PP dom
      unfolding store_inv_def free_inv_def lv op fl by auto
  qed
  ultimately show ?thesis by (simp add: store_inv_def)
qed

lemma free_limbo:
  assumes inv: "store_inv s H Q (insert p P)" and p: "p \<notin> P" "mb_store s p = Some b"
  shows "\<exists>s'. free_buf p s = Some s' \<and> store_inv s' H Q P \<and> mb_store s' = mb_store s"
proof -
  define s' where "s' = s\<lparr>buf_free := (buf_free s)(power b := p # buf_free s (power b)),
    buf_used := (buf_used s)(power b := buf_used s (power b) - 1)\<rparr>"
  have st: "mb_store s' = mb_store s" "msglist s' = msglist s" by (simp_all add: s'_def)
  note vc = views_cong [OF st(1)]
  have "refs_inv s' H Q" using inv vc st by (simp add: store_inv_def refs_inv_def)
  moreover have "size_inv s'" "copy_inv s' H Q" "msglist_inv s'"
    using inv inv_congs [OF vc(5) vc(2-4) st(2)] by (simp_all add: store_inv_def)
  moreover have "free_inv s' P"
  proof -
    have k: "p \<in> of_power s (power b)" "p \<notin> live s" "k \<noteq> power b \<Longrightarrow> p \<notin> of_power s k" for k
      using inv p views_at(4) [OF p(2)] by (auto simp: store_inv_def free_inv_def of_power_def)
    have fin: "finite (of_power s k)" for k
      using inv finite_subset [OF of_power_dom] by (auto simp: store_inv_def refs_inv_def)
    have old: "set (buf_free s k) = of_power s k - live s - insert p P" "distinct (buf_free s k)"
      "buf_used s k = card (of_power s k \<inter> (live s \<union> insert p P))"
      "buf_alloc s k = card (of_power s k)" "insert p P \<subseteq> dom (mb_store s) - live s" for k
      using inv unfolding store_inv_def free_inv_def by blast+
    have "of_power s (power b) \<inter> (live s \<union> insert p P) = insert p (of_power s (power b) \<inter> (live s \<union> P))"
      using k by auto
    then have u: "card (of_power s (power b) \<inter> (live s \<union> insert p P)) - 1 = card (of_power s (power b) \<inter> (live s \<union> P))"
      using k p fin by simp
    have u2: "of_power s k \<inter> (live s \<union> insert p P) = of_power s k \<inter> (live s \<union> P)" if "k \<noteq> power b" for k
      using k(3) [OF that] by auto
    have "distinct (buf_free s' k) \<and> set (buf_free s' k) = of_power s k - live s - P \<and>
        buf_used s' k = card (of_power s k \<inter> (live s \<union> P)) \<and> buf_alloc s' k = card (of_power s k)" for k
      using old(1-4) [of k] u u2 [of k] k p by (auto simp: s'_def)
    moreover have "tot_bufsize s' = (\<Sum>k = MB_BASE_SHIFT..MB_MAX_SHIFT. buf_alloc s' k * 2 ^ k)"
      using inv by (simp add: s'_def store_inv_def free_inv_def)
    ultimately show ?thesis using old(5) unfolding free_inv_def vc st by blast
  qed
  ultimately have "store_inv s' H Q P" by (simp add: store_inv_def)
  then show ?thesis using p st by (auto simp: free_buf_def s'_def)
qed

text \<open>What releasing a buffer leaves alone.\<close>

definition same_rest :: "MQData \<Rightarrow> MQData \<Rightarrow> bool" where
  "same_rest s s' \<longleftrightarrow> msgs_alloc s' = msgs_alloc s \<and> msgs_used s' = msgs_used s \<and>
     msgs_free s' = msgs_free s"

lemma same_rest_refl [simp]: "same_rest s s"
  by (simp add: same_rest_def)

lemma same_rest_trans [trans]: "same_rest s s' \<Longrightarrow> same_rest s' s'' \<Longrightarrow> same_rest s s''"
  by (simp add: same_rest_def)

lemma free_buf_rest:
  assumes "free_buf p s = Some s'"
  shows "same_rest s s'" "tot_bufsize s' = tot_bufsize s"
  using assms by (auto simp: free_buf_def same_rest_def)

text \<open>Releasing a buffer that has no copy.\<close>

lemma clean_flat:
  assumes inv: "store_inv s H' Q' P" and d: "drops p H' Q' H Q" and rl: "rl s p = None \<or> rl s p = Some p"
  shows "\<exists>s'. clean_depth (Suc k) p s = Some s' \<and> store_inv s' H Q P \<and> tx s' = tx s \<and> same_rest s s' \<and>
    tot_bufsize s' = tot_bufsize s"
proof -
  have "p \<in> live s" by (rule store_inv_live [OF inv drops_count(5) [OF d]])
  then obtain b where b: "mb_store s p = Some b" "ref b > 0" by (rule live_storeE)
  have pP: "p \<notin> P" using inv \<open>p \<in> live s\<close> by (auto simp: store_inv_def free_inv_def)
  show ?thesis
  proof (cases "ref b = 1")
    case False
    then have "ref b > 1" using b by simp
    from drop_shared [OF inv d b(1) this] show ?thesis
      using False b views_upd(3) [of "s\<lparr>mb_store := (mb_store s)(p \<mapsto> b\<lparr>ref := ref b - 1\<rparr>)\<rparr>" s p]
      by (auto simp: views_at(3) same_rest_def)
  next
    case True
    define s1 where "s1 = s\<lparr>mb_store := (mb_store s)(p \<mapsto> b\<lparr>ref := 0\<rparr>), msglist := remove1 p (msglist s)\<rparr>"
    have r: "real b = None \<or> real b = Some p" using rl views_at(2) [OF b(1)] by simp
    have "store_inv s1 H (Q + real_refs p (real b)) (insert p P)"
      by (rule drop_last [OF inv d b(1) True s1_def])
    then have "store_inv s1 H Q (insert p P)" using r by (auto simp: real_refs_def)
    then obtain s' where s': "free_buf p s1 = Some s'" "store_inv s' H Q P" "mb_store s' = mb_store s1"
      using free_limbo [OF _ pP, of s1 H Q "b\<lparr>ref := 0\<rparr>"] by (auto simp: s1_def)
    have "tx s' = tx s"
      using views_cong(3) [OF s'(3)] views_upd(3) [of s1 s p "b\<lparr>ref := 0\<rparr>"] views_at(3) [OF b(1)]
      by (auto simp: s1_def)
    moreover have "same_rest s s'"
      by (rule same_rest_trans [OF _ free_buf_rest(1) [OF s'(1)]]) (simp add: s1_def same_rest_def)
    moreover have "tot_bufsize s' = tot_bufsize s" using free_buf_rest(2) [OF s'(1)] by (simp add: s1_def)
    moreover have "clean_depth (Suc k) p s = free_buf p s1"
      using True b(1) r by (auto simp: s1_def split: option.splits)
    ultimately show ?thesis using s' by auto
  qed
qed

lemma msgq_clean_ok:
  assumes inv: "store_inv s H' Q' {}" and d: "drops p H' Q' H Q"
  shows "\<exists>s'. msgq_clean p s = Some s' \<and> store_inv s' H Q {} \<and> tx s' = tx s \<and> same_rest s s' \<and>
    tot_bufsize s' = tot_bufsize s"
proof -
  have two: "msgq_clean = clean_depth (Suc (Suc 0))" by (simp add: msgq_clean_def numeral_2_eq_2)
  have pl: "p \<in> live s" by (rule store_inv_live [OF inv drops_count(5) [OF d]])
  then obtain b where b: "mb_store s p = Some b" "ref b > 0" by (rule live_storeE)
  consider "rl s p = None \<or> rl s p = Some p" | "ref b > 1"
    | r where "rl s p = Some r" "r \<noteq> p" "ref b = 1"
    using b(2) by (cases "ref b = 1"; cases "rl s p") auto
  then show ?thesis
  proof cases
    case 1
    from clean_flat [OF inv d this] show ?thesis by (simp only: two)
  next
    case 2
    from drop_shared [OF inv d b(1) this] show ?thesis
      using 2 b views_upd(3) [of "s\<lparr>mb_store := (mb_store s)(p \<mapsto> b\<lparr>ref := ref b - 1\<rparr>)\<rparr>" s p]
      by (auto simp: two views_at(3) same_rest_def)
  next
    case 3
    define s1 where "s1 = s\<lparr>mb_store := (mb_store s)(p \<mapsto> b\<lparr>ref := 0\<rparr>), msglist := remove1 p (msglist s)\<rparr>"
    have st1: "mb_store s1 = (mb_store s)(p \<mapsto> b\<lparr>ref := 0\<rparr>)" by (simp add: s1_def)
    have v1: "rl s1 = rl s" "tx s1 = tx s"
      using views_upd [OF st1] views_at [OF b(1)] by auto
    have r: "real b = Some r" using 3 views_at(2) [OF b(1)] by simp
    have "store_inv s1 H (add_mset r Q) {p}"
      using drop_last [OF inv d b(1) 3(3) s1_def] 3(2) by (simp add: r real_refs_def)
    moreover have "rl s1 r = None"
      using inv copy_invD(4) [OF _ pl 3(1,2)] v1 by (auto simp: store_inv_def)
    ultimately obtain s2 where s2: "clean_depth (Suc 0) r s1 = Some s2" "store_inv s2 H Q {p}"
        "tx s2 = tx s1" "same_rest s1 s2" "tot_bufsize s2 = tot_bufsize s1"
      using clean_flat [of s1 H "add_mset r Q" "{p}" r H Q 0] by (auto simp: drops_def)
    then have "p \<in> dom (mb_store s2)" by (auto simp: store_inv_def free_inv_def)
    then obtain b2 where "mb_store s2 p = Some b2" by auto
    from free_limbo [OF s2(2) _ this] obtain s' where
      s': "free_buf p s2 = Some s'" "store_inv s' H Q {}" "mb_store s' = mb_store s2" by auto
    have "msgq_clean p s = Some s'"
      using b(1) 3 r s2(1) s'(1) unfolding two s1_def by (simp add: clean_depth.simps(2) [of "Suc 0"] del: clean_depth.simps)
    moreover have "tx s' = tx s" using views_cong(3) [OF s'(3)] s2(3) v1 by simp
    moreover have "same_rest s s'"
    proof -
      have "same_rest s s1" by (simp add: s1_def same_rest_def)
      also note s2(4)
      also note free_buf_rest(1) [OF s'(1)]
      finally show ?thesis .
    qed
    moreover have "tot_bufsize s' = tot_bufsize s"
      using free_buf_rest(2) [OF s'(1)] s2(5) by (simp add: s1_def)
    ultimately show ?thesis using s'(2) by auto
  qed
qed

section \<open>Allocation\<close>

definition malloc_ok :: "mq_env \<Rightarrow> bool" where
  "malloc_ok env \<longleftrightarrow> (\<forall>st. finite (dom st) \<longrightarrow> MyMalloc env st \<notin> dom st)"

definition alloc_rest :: "mptr \<Rightarrow> mptr option \<Rightarrow> MQData \<Rightarrow> MQData option" where
  "alloc_rest t in_mb s =
     do { s \<leftarrow> mb_upd t (\<lambda>b. b\<lparr>real := None, ref := 1\<rparr>) s;
          case in_mb of None \<Rightarrow> Some s | Some p \<Rightarrow> mb_upd p (\<lambda>b. b\<lparr>real := Some t\<rparr>) s }"

definition pool_bound :: "mq_env \<Rightarrow> MQData \<Rightarrow> bool" where
  "pool_bound env s \<longleftrightarrow> tot_bufsize s < BUFFERPOOL env + BUFSIZE"

lemma finite_of_power: "store_inv s H Q P \<Longrightarrow> finite (of_power s k)"
  by (rule finite_subset [OF of_power_dom]) (simp add: store_inv_def refs_inv_def)

lemma free_invD:
  assumes "free_inv s P"
  shows "P \<subseteq> dom (mb_store s) - live s" "distinct (buf_free s k)"
    "set (buf_free s k) = of_power s k - live s - P"
    "buf_used s k = card (of_power s k \<inter> (live s \<union> P))" "buf_alloc s k = card (of_power s k)"
    "tot_bufsize s = (\<Sum>k = MB_BASE_SHIFT..MB_MAX_SHIFT. buf_alloc s k * 2 ^ k)"
  using assms unfolding free_inv_def by blast+

lemma alloc_pop:
  assumes inv: "store_inv s H Q {}" and fr: "buf_free s k = t # rest"
    and s1: "s1 = s\<lparr>buf_free := (buf_free s)(k := rest), buf_used := (buf_used s)(k := buf_used s k + 1)\<rparr>"
  shows "store_inv s1 H Q {t}" "t \<in> of_power s k" "t \<notin> live s"
proof -
  have st: "mb_store s1 = mb_store s" "msglist s1 = msglist s" by (simp_all add: s1)
  note vc = views_cong [OF st(1)]
  have fi: "free_inv s {}" using inv by (simp add: store_inv_def)
  note f = free_invD [OF fi]
  show t: "t \<in> of_power s k" "t \<notin> live s" using f(3) [of k] fr by auto
  have other: "t \<notin> of_power s j" if "j \<noteq> k" for j using t(1) that by (auto simp: of_power_def)
  have "of_power s k \<inter> (live s \<union> {t}) = insert t (of_power s k \<inter> live s)" using t by auto
  then have u: "card (of_power s k \<inter> (live s \<union> {t})) = card (of_power s k \<inter> live s) + 1"
    using t finite_of_power [OF inv] by simp
  have u2: "of_power s j \<inter> (live s \<union> {t}) = of_power s j \<inter> live s" if "j \<noteq> k" for j
    using other [OF that] by auto
  have "distinct (buf_free s1 j) \<and> set (buf_free s1 j) = of_power s j - live s - {t} \<and>
      buf_used s1 j = card (of_power s j \<inter> (live s \<union> {t})) \<and> buf_alloc s1 j = card (of_power s j)" for j
    using f(2-5) [of j] f(2,3) [of k] fr u u2 [of j] other [of j] by (auto simp: s1)
  moreover have "{t} \<subseteq> dom (mb_store s) - live s" using t of_power_dom by auto
  moreover have "tot_bufsize s1 = (\<Sum>k = MB_BASE_SHIFT..MB_MAX_SHIFT. buf_alloc s1 k * 2 ^ k)"
    using f(6) by (simp add: s1)
  ultimately have "free_inv s1 {t}" unfolding free_inv_def vc st by blast
  moreover have "refs_inv s1 H Q" using inv vc st by (simp add: store_inv_def refs_inv_def)
  moreover have "size_inv s1" "copy_inv s1 H Q" "msglist_inv s1"
    using inv inv_congs [OF vc(5) vc(2-4) st(2)] by (simp_all add: store_inv_def)
  ultimately show "store_inv s1 H Q {t}" by (simp add: store_inv_def)
qed

lemma alloc_malloc:
  assumes inv: "store_inv s H Q {}" and t: "t \<notin> dom (mb_store s)"
    and k: "MB_BASE_SHIFT \<le> k" "k \<le> MB_MAX_SHIFT"
    and s1: "s1 = s\<lparr>mb_store := (mb_store s)(t \<mapsto> new_msgbuf k),
       buf_alloc := (buf_alloc s)(k := buf_alloc s k + 1), tot_bufsize := tot_bufsize s + 2 ^ k,
       buf_used := (buf_used s)(k := buf_used s k + 1)\<rparr>"
  shows "store_inv s1 H Q {t}"
proof -
  have st: "mb_store s1 = (mb_store s)(t \<mapsto> new_msgbuf k)" "msglist s1 = msglist s" by (simp_all add: s1)
  have fl: "buf_free s1 = buf_free s" "buf_used s1 = (buf_used s)(k := buf_used s k + 1)"
    "buf_alloc s1 = (buf_alloc s)(k := buf_alloc s k + 1)" by (simp_all add: s1)
  have nt: "mb_store s t = None" using t by auto
  then have at: "rf s t = 0" "rl s t = None" "tx s t = []" "pw s t = None" by (simp_all add: view_defs)
  have v: "rf s1 = rf s" "rl s1 = rl s" "tx s1 = tx s" "pw s1 = (pw s)(t \<mapsto> k)"
    using views_upd [OF st(1)] at by (auto simp: new_msgbuf_def)
  have lv: "live s1 = live s" using v by (simp add: live_def)
  have own: "owners s1 = owners s" using v lv by (simp add: owners_def fun_eq_iff)
  have op: "of_power s1 j = (if j = k then insert t (of_power s j) else of_power s j)" for j
    using v at by (auto simp: of_power_def)
  have tl: "t \<notin> live s" "t \<notin> of_power s j" for j using at by (auto simp: live_def of_power_def)
  have fi: "free_inv s {}" using inv by (simp add: store_inv_def)
  note f = free_invD [OF fi] and fin = finite_of_power [OF inv]
  have u: "insert t (of_power s k) \<inter> insert t (live s) = insert t (of_power s k \<inter> live s)" by auto
  have "distinct (buf_free s1 j) \<and> set (buf_free s1 j) = of_power s1 j - live s - {t} \<and>
      buf_used s1 j = card (of_power s1 j \<inter> (live s \<union> {t})) \<and> buf_alloc s1 j = card (of_power s1 j)" for j
    unfolding op fl using f(2-5) [of j] tl fin [of j] u by (cases "j = k") auto
  moreover have "{t} \<subseteq> dom (mb_store s1) - live s" using st tl by simp
  moreover have "tot_bufsize s1 = (\<Sum>k = MB_BASE_SHIFT..MB_MAX_SHIFT. buf_alloc s1 k * 2 ^ k)"
  proof -
    have "(\<Sum>j = MB_BASE_SHIFT..MB_MAX_SHIFT. buf_alloc s1 j * 2 ^ j) =
        (\<Sum>j = MB_BASE_SHIFT..MB_MAX_SHIFT. buf_alloc s j * 2 ^ j + (if j = k then 2 ^ k else 0))"
      by (rule sum.cong) (auto simp: s1)
    also have "\<dots> = (\<Sum>j = MB_BASE_SHIFT..MB_MAX_SHIFT. buf_alloc s j * 2 ^ j) + 2 ^ k"
      using k by (simp add: sum.distrib)
    finally show ?thesis using f(6) by (simp add: s1)
  qed
  ultimately have "free_inv s1 {t}" unfolding free_inv_def lv by blast
  moreover have "refs_inv s1 H Q" using inv v own st by (simp add: store_inv_def refs_inv_def)
  moreover have "size_inv s1" using inv v lv k tl by (simp add: store_inv_def size_inv_def)
  moreover have "copy_inv s1 H Q" using inv copy_cong [OF lv v(2,3)] by (simp add: store_inv_def)
  moreover have "msglist_inv s1" using inv unfolding store_inv_def msglist_inv_def v lv st by simp
  ultimately show ?thesis by (simp add: store_inv_def)
qed

lemma alloc_limbo:
  assumes inv: "store_inv s H Q {}" and env: "malloc_ok env"
    and k: "MB_BASE_SHIFT \<le> k" "k \<le> MB_MAX_SHIFT"
    and room: "buf_free s k \<noteq> [] \<or> tot_bufsize s < BUFFERPOOL env"
  shows "\<exists>t s1 b. alloc_new env in_mb k s = map_option (Pair (Some t)) (alloc_rest t in_mb s1) \<and>
    store_inv s1 H Q {t} \<and> mb_store s1 t = Some b \<and> power b = k \<and> t \<notin> live s \<and>
    (\<forall>x. x \<noteq> t \<longrightarrow> mb_store s1 x = mb_store s x) \<and> same_rest s s1 \<and>
    msglist s1 = msglist s \<and> (pool_bound env s \<longrightarrow> pool_bound env s1)"
proof (cases "buf_free s k")
  case (Cons t rest)
  define s1 where "s1 = s\<lparr>buf_free := (buf_free s)(k := rest), buf_used := (buf_used s)(k := buf_used s k + 1)\<rparr>"
  note p = alloc_pop [OF inv Cons s1_def]
  obtain b where "mb_store s t = Some b" "power b = k" using p(2) by (auto simp: of_power_def pw_def)
  then show ?thesis using p Cons
    by (intro exI [of _ t] exI [of _ s1] exI [of _ b])
      (simp add: alloc_new_def alloc_init_def alloc_rest_def s1_def same_rest_def pool_bound_def)
next
  case Nil
  define t where "t = MyMalloc env (mb_store s)"
  have t: "t \<notin> dom (mb_store s)"
    using env inv unfolding malloc_ok_def t_def by (auto simp: store_inv_def refs_inv_def)
  define s1 where "s1 = s\<lparr>mb_store := (mb_store s)(t \<mapsto> new_msgbuf k),
     buf_alloc := (buf_alloc s)(k := buf_alloc s k + 1), tot_bufsize := tot_bufsize s + 2 ^ k,
     buf_used := (buf_used s)(k := buf_used s k + 1)\<rparr>"
  have "(2 :: nat) ^ k \<le> 2 ^ MB_MAX_SHIFT" using k by (intro power_increasing) auto
  then have "pool_bound env s1"
    using room Nil by (simp add: pool_bound_def s1_def MB_MAX_SHIFT_def BUFSIZE_def)
  moreover have "t \<notin> live s" using t live_dom by auto
  moreover have "alloc_new env in_mb k s = map_option (Pair (Some t)) (alloc_rest t in_mb s1)"
    using room Nil by (simp add: alloc_new_def alloc_init_def alloc_rest_def s1_def t_def Let_def push_bit_eq_mult)
  ultimately show ?thesis using alloc_malloc [OF inv t k s1_def]
    by (intro exI [of _ t] exI [of _ s1] exI [of _ "new_msgbuf k"])
      (simp add: s1_def same_rest_def new_msgbuf_def)
qed

text \<open>A buffer in neither state becomes live with one reference.\<close>

lemma free_inv_alive:
  assumes fi: "free_inv s {t}" and lv: "live s' = insert t (live s)" and pw: "pw s' = pw s"
    and fl: "dom (mb_store s') = dom (mb_store s)" "buf_free s' = buf_free s" "buf_used s' = buf_used s"
      "buf_alloc s' = buf_alloc s" "tot_bufsize s' = tot_bufsize s"
  shows "free_inv s' {}"
proof -
  have op: "of_power s' = of_power s" using pw by (simp add: of_power_def fun_eq_iff)
  have "of_power s k - insert t (live s) - {} = of_power s k - live s - {t}"
    "insert t (live s) \<union> {} = live s \<union> {t}" for k by auto
  then show ?thesis using fi unfolding free_inv_def lv op fl by simp
qed

lemma limbo_unowned:
  assumes inv: "store_inv s H Q {t}"
  shows "t \<notin> live s" "t \<in> dom (mb_store s)" "owners s t = {}" "t \<notin># H" "t \<notin># Q" "t \<notin> set (msglist s)"
proof -
  show t: "t \<notin> live s" "t \<in> dom (mb_store s)" using inv by (auto simp: store_inv_def free_inv_def)
  then show "t \<notin># H" "t \<notin># Q" using store_inv_live [OF inv, of t] by auto
  show "t \<notin> set (msglist s)" using inv t by (auto simp: store_inv_def msglist_inv_def)
  have "copy_inv s H Q" using inv by (simp add: store_inv_def)
  then show "owners s t = {}" using copy_invD(3) t(1) unfolding owners_def by blast
qed

lemma alive_held:
  assumes inv: "store_inv s H Q {t}" and b: "mb_store s t = Some b"
    and w: "2 \<le> length w" "length w \<le> bufsize b"
    and s': "s' = s\<lparr>mb_store := (mb_store s)(t \<mapsto> b\<lparr>real := None, ref := 1, msg_text := w\<rparr>), msglist := t # msglist s\<rparr>"
  shows "store_inv s' (add_mset t H) Q {}"
proof -
  have up: "mb_store s' = (mb_store s)(t \<mapsto> b\<lparr>real := None, ref := 1, msg_text := w\<rparr>)"
    and fl: "msglist s' = t # msglist s" "buf_free s' = buf_free s" "buf_used s' = buf_used s"
      "buf_alloc s' = buf_alloc s" "tot_bufsize s' = tot_bufsize s"
    by (simp_all add: s')
  note u = limbo_unowned [OF inv]
  have v: "rf s' = (rf s)(t := 1)" "rl s' = (rl s)(t := None)" "tx s' = (tx s)(t := w)" "pw s' = pw s"
    using views_upd [OF up] views_at [OF b] by auto
  have lv: "live s' = insert t (live s)" using v by (auto simp: live_def)
  have own: "owners s' = owners s" using v u(1) by (auto simp: owners_def lv fun_eq_iff)
  have cp: "copy_inv s H Q" using inv by (simp add: store_inv_def)
  have "refs_inv s' (add_mset t H) Q"
    using inv own v u up unfolding store_inv_def refs_inv_def
    by (auto simp: not_in_iff)
  moreover have "size_inv s'"
    using inv w views_at(4) [OF b] u(1)
    unfolding store_inv_def size_inv_def v lv bufsize_def push_bit_eq_mult by auto
  moreover have "copy_inv s' (add_mset t H) Q"
    unfolding copy_inv_def
  proof (intro conjI allI impI)
    fix x r assume "x \<in> live s'" "rl s' x = Some r" "r \<noteq> x"
    then have x: "x \<in> live s" "rl s x = Some r" "r \<noteq> x" "x \<noteq> t" using v lv by (auto split: if_splits)
    note c = copy_invD [OF cp x(1-3)]
    then have "r \<noteq> t" using u by auto
    then show "x \<notin># Q" "r \<notin># add_mset t H" "r \<in> live s'" "rl s' r = None" "tx s' r = tx s' x"
      using c v lv x by auto
  next
    fix x assume "x \<in># add_mset t H" "x \<in># Q"
    then show "rl s' x = Some x" using u cp v by (auto simp: copy_inv_def)
  qed
  moreover have "msglist_inv s'" using inv u unfolding store_inv_def msglist_inv_def fl v lv by auto
  moreover have "free_inv s' {}"
    by (rule free_inv_alive [of s t, OF _ lv v(4) _ fl(2-5)]) (use inv b up in \<open>auto simp: store_inv_def\<close>)
  ultimately show ?thesis by (simp add: store_inv_def)
qed

lemma alive_copy:
  assumes inv: "store_inv s H Q {t}" and b: "mb_store s t = Some b"
    and p: "mb_store s p = Some pb" "p \<in># H" "real pb = None" "mb_length pb \<le> bufsize b"
    and s': "s' = s\<lparr>mb_store := (mb_store s)(t \<mapsto> b\<lparr>real := None, ref := 1, msg_text := msg_text pb\<rparr>,
        p \<mapsto> pb\<lparr>real := Some t\<rparr>), msglist := map (\<lambda>x. if x = p then t else x) (msglist s)\<rparr>"
  shows "store_inv s' H Q {}"
proof -
  define s1 where "s1 = s\<lparr>mb_store := (mb_store s)(t \<mapsto> b\<lparr>real := None, ref := 1, msg_text := msg_text pb\<rparr>)\<rparr>"
  have up1: "mb_store s1 = (mb_store s)(t \<mapsto> b\<lparr>real := None, ref := 1, msg_text := msg_text pb\<rparr>)"
    and up: "mb_store s' = (mb_store s1)(p \<mapsto> pb\<lparr>real := Some t\<rparr>)"
    and fl: "msglist s' = map (\<lambda>x. if x = p then t else x) (msglist s)" "buf_free s' = buf_free s"
      "buf_used s' = buf_used s" "buf_alloc s' = buf_alloc s" "tot_bufsize s' = tot_bufsize s"
    by (simp_all add: s' s1_def)
  note u = limbo_unowned [OF inv] and at = views_at [OF p(1)] views_at [OF b]
  have pl: "p \<in> live s" using store_inv_live [OF inv, of p] p(2) by simp
  then have pt: "p \<noteq> t" using u by auto
  have v: "rf s' = (rf s)(t := 1)" "rl s' = (rl s)(t := None, p := Some t)"
    "tx s' = (tx s)(t := tx s p)" "pw s' = pw s"
    using views_upd [OF up1] views_upd [OF up] at pt by (auto simp: fun_eq_iff)
  have rp: "rl s p = None" using p(3) at by simp
  have lv: "live s' = insert t (live s)" using v by (auto simp: live_def)
  have own: "owners s' x = (if x = t then {p} else owners s x)" for x
    using v u(1,3) pl pt rp by (auto simp: owners_def lv)
  have cp: "copy_inv s H Q" using inv by (simp add: store_inv_def)
  have pQ: "p \<notin># Q" using cp p(2) rp by (auto simp: copy_inv_def)
  have noP: "rl s x = Some p \<Longrightarrow> x \<in> live s \<Longrightarrow> x = p" for x
    using copy_invD(2) [OF cp, of x p] p(2) by auto
  have "refs_inv s' H Q"
    using inv own v u up up1 unfolding store_inv_def refs_inv_def by (auto simp: not_in_iff)
  moreover have "size_inv s'"
    using inv p(4) at u(1) pl
    unfolding store_inv_def size_inv_def v lv bufsize_def push_bit_eq_mult by auto
  moreover have "copy_inv s' H Q"
    unfolding copy_inv_def
  proof (intro conjI allI impI)
    fix x r assume x0: "x \<in> live s'" "rl s' x = Some r" "r \<noteq> x"
    show "x \<notin># Q" "r \<notin># H" "r \<in> live s'" "rl s' r = None" "tx s' r = tx s' x"
    proof (goal_cases)
      case 1 show ?case using x0 pQ u copy_invD(1) [OF cp, of x r] v lv by (auto split: if_splits)
      case 2 show ?case using x0 u copy_invD(2) [OF cp, of x r] v lv by (auto split: if_splits)
      case 3 show ?case using x0 copy_invD(3) [OF cp, of x r] v lv by (auto split: if_splits)
      case 4 show ?case using x0 noP copy_invD(4) [OF cp, of x r] v lv pt u(1) by (auto split: if_splits)
      case 5 show ?case using x0 copy_invD(3,5) [OF cp, of x r] v lv pt u(1) by (auto split: if_splits)
    qed
  next
    fix x assume "x \<in># H" "x \<in># Q"
    then show "rl s' x = Some x" using u cp v pQ by (auto simp: copy_inv_def)
  qed
  moreover have "msglist_inv s'"
  proof -
    have m: "distinct (msglist s)" "set (msglist s) = {p \<in> live s. rl s p = None \<or> rl s p = Some p}"
      using inv by (auto simp: store_inv_def msglist_inv_def)
    have "inj_on (\<lambda>x. if x = p then t else x) (set (msglist s))" using u(6) by (auto simp: inj_on_def)
    then have "distinct (msglist s')" using m(1) by (simp add: fl distinct_map)
    moreover have "set (msglist s') = insert t (set (msglist s) - {p})"
      using m(2) pl rp by (auto simp: fl)
    ultimately show ?thesis using u(1) pt unfolding msglist_inv_def m(2) v lv by auto
  qed
  moreover have "free_inv s' {}"
    by (rule free_inv_alive [of s t, OF _ lv v(4) _ fl(2-5)]) (use inv b p up up1 in \<open>auto simp: store_inv_def\<close>)
  ultimately show ?thesis by (simp add: store_inv_def)
qed

lemma alive_self:
  assumes inv: "store_inv s H Q {}" and p: "mb_store s p = Some pb" "p \<in># H" "real pb = None"
    and s': "s' = s\<lparr>mb_store := (mb_store s)(p \<mapsto> pb\<lparr>real := Some p\<rparr>)\<rparr>"
  shows "store_inv s' H Q {}"
proof -
  have up: "mb_store s' = (mb_store s)(p \<mapsto> pb\<lparr>real := Some p\<rparr>)"
    and fl: "msglist s' = msglist s" "buf_free s' = buf_free s" "buf_used s' = buf_used s"
      "buf_alloc s' = buf_alloc s" "tot_bufsize s' = tot_bufsize s"
    by (simp_all add: s')
  have v: "rf s' = rf s" "rl s' = (rl s)(p \<mapsto> p)" "tx s' = tx s" "pw s' = pw s"
    using views_upd [OF up] views_at [OF p(1)] by auto
  have lv: "live s' = live s" and op: "of_power s' = of_power s"
    using v by (auto simp: live_def of_power_def)
  have rp: "rl s p = None" using p(3) views_at(2) [OF p(1)] by simp
  have own: "owners s' = owners s" using v rp by (auto simp: owners_def lv fun_eq_iff split: if_splits)
  have pl: "p \<in> live s" using store_inv_live [OF inv, of p] p(2) by simp
  have cp: "copy_inv s H Q" using inv by (simp add: store_inv_def)
  have dom: "dom (mb_store s') = dom (mb_store s)" using up p(1) by auto
  have "refs_inv s' H Q" using inv own v dom by (simp add: store_inv_def refs_inv_def)
  moreover have "size_inv s'" using inv unfolding store_inv_def size_inv_def v lv by simp
  moreover have "copy_inv s' H Q"
    unfolding copy_inv_def
  proof (intro conjI allI impI)
    fix x r assume "x \<in> live s'" "rl s' x = Some r" "r \<noteq> x"
    then have x: "x \<in> live s" "rl s x = Some r" "r \<noteq> x" "x \<noteq> p" using v lv by (auto split: if_splits)
    note c = copy_invD [OF cp x(1-3)]
    then have "r \<noteq> p" using p(2) by auto
    then show "x \<notin># Q" "r \<notin># H" "r \<in> live s'" "rl s' r = None" "tx s' r = tx s' x"
      using c v lv by auto
  next
    fix x assume "x \<in># H" "x \<in># Q"
    then show "rl s' x = Some x" using cp v by (auto simp: copy_inv_def)
  qed
  moreover have "msglist_inv s'" using inv pl rp unfolding store_inv_def msglist_inv_def fl v lv by auto
  moreover have "free_inv s' {}" using inv unfolding store_inv_def free_inv_def lv op fl dom by simp
  ultimately show ?thesis by (simp add: store_inv_def)
qed

lemma queue_ref:
  assumes inv: "store_inv s H Q {}" and b: "mb_store s r = Some b" and l: "r \<in> live s"
    and q: "rl s r = Some r \<or> (r \<notin># H \<and> rl s r = None)"
  shows "store_inv (s\<lparr>mb_store := (mb_store s)(r \<mapsto> b\<lparr>ref := ref b + 1\<rparr>)\<rparr>) H (add_mset r Q) {}"
proof (rule ref_change [OF inv b _ _ _ _ _ refl])
  have "rf s r = count H r + count Q r + card (owners s r)"
    using inv by (simp add: store_inv_def refs_inv_def)
  then show "ref b + 1 = count H r + count (add_mset r Q) r + card (owners s r)"
    using views_at(1) [OF b] by simp
  have cp: "copy_inv s H Q" using inv by (simp add: store_inv_def)
  show "copy_inv s H (add_mset r Q)"
    unfolding copy_inv_def
  proof (intro conjI allI impI)
    fix x y assume x: "x \<in> live s" "rl s x = Some y" "y \<noteq> x"
    note c = copy_invD [OF cp x]
    show "x \<notin># add_mset r Q" using c x q by auto
    show "y \<notin># H" "y \<in> live s" "rl s y = None" "tx s y = tx s x" by (fact c)+
  next
    fix x assume "x \<in># H" "x \<in># add_mset r Q"
    then show "rl s x = Some x" using q cp by (auto simp: copy_inv_def)
  qed
qed (use l views_at(1) [OF b] in \<open>auto simp: live_def\<close>)

lemma find_power_ok:
  assumes "0 < len" "len \<le> 512"
  defines "k \<equiv> find_power len [MB_BASE_SHIFT..<MB_MAX_SHIFT + 1]"
  shows "MB_BASE_SHIFT \<le> k" "k \<le> MB_MAX_SHIFT" "len \<le> 2 ^ k"
proof -
  have "[MB_BASE_SHIFT..<MB_MAX_SHIFT + 1] = [5, 6, 7, 8, 9]"
    by (simp add: MB_BASE_SHIFT_def MB_MAX_SHIFT_def upt_rec)
  then have k: "k = find_power len [5, 6, 7, 8, 9]" by (simp add: k_def)
  have dz: "drop_bit n (len - 1) = 0 \<longleftrightarrow> len - 1 < 2 ^ n" for n
  proof -
    have "(0 :: int) < 2 ^ n" by simp
    then have "\<not> (len \<le> 1 \<and> 2 ^ n < len - 1)" by linarith
    then show ?thesis using assms(1) by (auto simp: drop_bit_eq_div zdiv_eq_0_iff not_le)
  qed
  show "MB_BASE_SHIFT \<le> k" "k \<le> MB_MAX_SHIFT" "len \<le> 2 ^ k"
    using assms(1,2) by (auto simp: k dz MB_BASE_SHIFT_def MB_MAX_SHIFT_def)
qed

lemma msgq_alloc_eq:
  assumes "0 < len" "len \<le> 512"
  shows "\<exists>k. MB_BASE_SHIFT \<le> k \<and> k \<le> MB_MAX_SHIFT \<and> len \<le> 2 ^ k \<and> (len = 512 \<longrightarrow> k = MB_MAX_SHIFT) \<and>
    msgq_alloc env in_mb len s =
      (case in_mb of None \<Rightarrow> alloc_new env in_mb k s
       | Some p \<Rightarrow> do { b \<leftarrow> mb_store s p;
           if power b = k then map_option (Pair in_mb) (mb_upd p (\<lambda>b. b\<lparr>real := in_mb\<rparr>) s)
           else alloc_new env in_mb k s })"
proof -
  define k where "k = find_power len [MB_BASE_SHIFT..<MB_MAX_SHIFT + 1]"
  note k = find_power_ok [OF assms, folded k_def]
  have "(2 :: int) ^ k \<le> 2 ^ MB_MAX_SHIFT" using k by (intro power_increasing) auto
  then have "(2 :: int) ^ k \<le> 512" by (simp add: MB_MAX_SHIFT_def)
  moreover have "len = 512 \<longrightarrow> k = MB_MAX_SHIFT"
  proof
    assume "len = 512"
    then have "(2 :: int) ^ MB_MAX_SHIFT \<le> 2 ^ k" using k(3) by (simp add: MB_MAX_SHIFT_def)
    then have "MB_MAX_SHIFT \<le> k" by (rule power_le_imp_le_exp [rotated]) simp
    then show "k = MB_MAX_SHIFT" using k(2) by simp
  qed
  ultimately show ?thesis using k unfolding msgq_alloc_def k_def [symmetric]
    by (intro exI [of _ k]) (simp add: Let_def push_bit_eq_mult)
qed

section \<open>Operations on the store\<close>

definition count_size :: "nat \<Rightarrow> MQData \<Rightarrow> MQData" where
  "count_size n s = s\<lparr>mq_sizes := (mq_sizes s)\<lparr>msgs := msgs (mq_sizes s) + 1,
     sizes := (sizes (mq_sizes s))(n - 1 := sizes (mq_sizes s) (n - 1) + 1)\<rparr>\<rparr>"

lemma count_size_simps [simp]:
  "mb_store (count_size n s) = mb_store s" "msglist (count_size n s) = msglist s"
  "buf_free (count_size n s) = buf_free s" "tot_bufsize (count_size n s) = tot_bufsize s"
  "same_rest s (count_size n s)" "pool_bound env (count_size n s) = pool_bound env s"
  by (simp_all add: count_size_def same_rest_def pool_bound_def)

lemma count_size_inv: "store_inv (count_size n s) H Q P = store_inv s H Q P"
proof -
  have st: "mb_store (count_size n s) = mb_store s" "msglist (count_size n s) = msglist s" by simp_all
  note vc = views_cong [OF st(1)]
  show ?thesis
    using inv_congs [OF vc(5) vc(2-4) st(2)] vc
    by (simp add: store_inv_def refs_inv_def free_inv_def) (simp add: count_size_def)
qed

lemma make_real_eq:
  assumes "mb_store s p = Some b" "mb_length b - 1 < BUFSIZE"
    and "msgq_alloc env (Some p) (int (mb_length b)) (count_size (mb_length b) s) = Some (Some t, s2)"
  shows "make_real env p s =
    (if t = p then Some s2
     else do { s \<leftarrow> mb_upd t (\<lambda>tb. tb\<lparr>msg_text := msg_text b\<rparr>) s2;
               if p \<in> set (msglist s) then Some (s\<lparr>msglist := map (\<lambda>x. if x = p then t else x) (msglist s)\<rparr>)
               else None })"
  using assms unfolding count_size_def make_real_def by simp

lemma live_text_bounds:
  assumes inv: "store_inv s H Q P" and b: "mb_store s p = Some b" and pl: "p \<in> live s"
  shows "2 \<le> mb_length b" "mb_length b \<le> bufsize b" "mb_length b \<le> BUFSIZE" "32 \<le> bufsize b"
proof -
  have "MB_BASE_SHIFT \<le> power b" "power b \<le> MB_MAX_SHIFT" "2 \<le> mb_length b" "mb_length b \<le> 2 ^ power b"
    using inv views_at [OF b] pl unfolding store_inv_def size_inv_def by metis+
  moreover from this have "(2 :: nat) ^ power b \<le> 2 ^ MB_MAX_SHIFT" "(2 :: nat) ^ MB_BASE_SHIFT \<le> 2 ^ power b"
    by (intro power_increasing; simp)+
  ultimately show "2 \<le> mb_length b" "mb_length b \<le> bufsize b" "mb_length b \<le> BUFSIZE" "32 \<le> bufsize b"
    by (auto simp: MB_MAX_SHIFT_def MB_BASE_SHIFT_def BUFSIZE_def bufsize_def push_bit_eq_mult)
qed

text \<open>The first time a held buffer is queued it gets a real buffer with its text.\<close>

definition made_real :: "mq_env \<Rightarrow> mptr \<Rightarrow> mptr multiset \<Rightarrow> mptr multiset \<Rightarrow> MQData \<Rightarrow> MQData \<Rightarrow> mptr \<Rightarrow> bool" where
  "made_real env p H Q s s' r \<longleftrightarrow> store_inv s' H Q {} \<and> rl s' p = Some r \<and>
    r \<in> live s' \<and> (r = p \<or> r \<notin># H \<and> rl s' r = None) \<and> tx s' r = tx s p \<and>
    (\<forall>x\<in>live s. tx s' x = tx s x) \<and> same_rest s s' \<and> (pool_bound env s \<longrightarrow> pool_bound env s')"

lemma make_real_self:
  assumes inv: "store_inv s H Q {}" and p: "p \<in># H" and b: "mb_store s p = Some b" "real b = None"
    and s': "s' = s\<lparr>mb_store := (mb_store s)(p \<mapsto> b\<lparr>real := Some p\<rparr>)\<rparr>"
  shows "made_real env p H Q s s' p"
proof -
  have pl: "p \<in> live s" using store_inv_live [OF inv, of p] p by simp
  have up: "mb_store s' = (mb_store s)(p \<mapsto> b\<lparr>real := Some p\<rparr>)" by (simp add: s')
  have "tx s' = tx s" "rl s' p = Some p" "rf s' = rf s"
    using views_upd [OF up] views_at [OF b(1)] by auto
  moreover have "same_rest s s'" "pool_bound env s' = pool_bound env s"
    by (simp_all add: s' same_rest_def pool_bound_def)
  ultimately show ?thesis
    using pl alive_self [OF inv b(1) p b(2) s'] by (simp add: made_real_def live_def)
qed

lemma make_real_copy:
  assumes inv: "store_inv s1 H Q {t}" and p: "p \<in># H" and b: "mb_store s p = Some b" "real b = None"
    and tb: "mb_store s1 t = Some tb" "mb_length b \<le> bufsize tb" "t \<notin> live s"
    and fr: "\<forall>x. x \<noteq> t \<longrightarrow> mb_store s1 x = mb_store s x" "p \<in> live s"
      "same_rest s s1" "pool_bound env s \<longrightarrow> pool_bound env s1"
    and s': "s' = s1\<lparr>mb_store := (mb_store s1)(t \<mapsto> tb\<lparr>real := None, ref := 1, msg_text := msg_text b\<rparr>,
        p \<mapsto> b\<lparr>real := Some t\<rparr>), msglist := map (\<lambda>x. if x = p then t else x) (msglist s1)\<rparr>"
  shows "made_real env p H Q s s' t"
proof -
  have tp: "t \<noteq> p" using tb(3) fr(2) by auto
  then have p1: "mb_store s1 p = Some b" using fr(1) b by auto
  have "mb_store s' p = Some (b\<lparr>real := Some t\<rparr>)"
      "mb_store s' t = Some (tb\<lparr>real := None, ref := 1, msg_text := msg_text b\<rparr>)"
    using tp by (simp_all add: s')
  then have "rl s' p = Some t" "t \<in> live s'" "rl s' t = None" "tx s' t = tx s p"
    using views_at(3) [OF b(1)] by (simp_all add: view_defs live_def)
  moreover have "tx s' x = tx s x" if "x \<in> live s" for x
    using that tb(3) fr(1) b(1) by (auto simp: tx_def s')
  moreover have "same_rest s s'" "pool_bound env s' = pool_bound env s1"
    using fr(3) by (simp_all add: same_rest_def s' pool_bound_def)
  ultimately show ?thesis
    using alive_copy [OF inv tb(1) p1 p b(2) tb(2) s'] limbo_unowned(4) [OF inv] fr(4)
    by (simp add: made_real_def)
qed

lemma made_real_count: "made_real env p H Q (count_size n s) s' r = made_real env p H Q s s' r"
proof -
  have "mb_store (count_size n s) = mb_store s" by simp
  note vc = views_cong [OF this]
  show ?thesis by (simp add: made_real_def vc) (simp add: same_rest_def count_size_def)
qed

lemma make_real_ok:
  assumes inv: "store_inv s H Q {}" and env: "malloc_ok env" and p: "p \<in># H" and rp: "rl s p = None"
  shows "\<exists>s' r. make_real env p s = Some s' \<and> made_real env p H Q s s' r"
proof -
  have pl: "p \<in> live s" using store_inv_live [OF inv, of p] p by simp
  then obtain b where b: "mb_store s p = Some b" by (rule live_storeE)
  have rb: "real b = None" using rp views_at(2) [OF b] by simp
  note len = live_text_bounds [OF inv b pl]
  then have len': "0 < int (mb_length b)" "int (mb_length b) \<le> 512" "mb_length b - 1 < BUFSIZE"
    by (auto simp: BUFSIZE_def)
  define s0 where "s0 = count_size (mb_length b) s"
  have inv0: "store_inv s0 H Q {}" and b0: "mb_store s0 p = Some b"
    using inv b by (simp_all add: s0_def count_size_inv)
  have pl0: "p \<in> live s0" and m0: "p \<in> set (msglist s0)"
    using inv pl rp views_cong(5) [of s0 s] by (auto simp: s0_def store_inv_def msglist_inv_def)
  note mk = make_real_eq [OF b len'(3), of env, folded s0_def]
  obtain k where k: "MB_BASE_SHIFT \<le> k" "k \<le> MB_MAX_SHIFT" "int (mb_length b) \<le> 2 ^ k"
    and al: "msgq_alloc env (Some p) (int (mb_length b)) s0 =
      (if power b = k then map_option (Pair (Some p)) (mb_upd p (\<lambda>b. b\<lparr>real := Some p\<rparr>) s0)
       else alloc_new env (Some p) k s0)"
    using msgq_alloc_eq [OF len'(1,2), of env "Some p" s0] b0 by auto
  show ?thesis
  proof (cases "power b = k \<or> \<not> (buf_free s0 k \<noteq> [] \<or> tot_bufsize s0 < BUFFERPOOL env)")
    case True
    define s' where "s' = s0\<lparr>mb_store := (mb_store s0)(p \<mapsto> b\<lparr>real := Some p\<rparr>)\<rparr>"
    have "msgq_alloc env (Some p) (int (mb_length b)) s0 = Some (Some p, s')"
      using True b0 al by (auto simp: alloc_new_def s'_def)
    then show ?thesis
      using mk make_real_self [OF inv0 p b0 rb s'_def, of env] made_real_count by (auto simp: s0_def)
  next
    case False
    then obtain t s1 tb where t: "alloc_new env (Some p) k s0 = map_option (Pair (Some t)) (alloc_rest t (Some p) s1)"
      "store_inv s1 H Q {t}" "mb_store s1 t = Some tb" "power tb = k" "t \<notin> live s0"
      "\<forall>x. x \<noteq> t \<longrightarrow> mb_store s1 x = mb_store s0 x" "same_rest s0 s1" "msglist s1 = msglist s0"
      "pool_bound env s0 \<longrightarrow> pool_bound env s1"
      using alloc_limbo [OF inv0 env k(1,2), of "Some p"] by blast
    have tp: "t \<noteq> p" using t(5) pl0 by auto
    define s2 where "s2 = s1\<lparr>mb_store := (mb_store s1)(t \<mapsto> tb\<lparr>real := None, ref := 1\<rparr>, p \<mapsto> b\<lparr>real := Some t\<rparr>)\<rparr>"
    define s' where "s' = s1\<lparr>mb_store := (mb_store s1)(t \<mapsto> tb\<lparr>real := None, ref := 1, msg_text := msg_text b\<rparr>,
        p \<mapsto> b\<lparr>real := Some t\<rparr>), msglist := map (\<lambda>x. if x = p then t else x) (msglist s1)\<rparr>"
    have "mb_store s1 p = Some b" using t(6) tp b0 by auto
    then have "msgq_alloc env (Some p) (int (mb_length b)) s0 = Some (Some t, s2)"
      using False al t(1,3) tp by (simp add: alloc_rest_def s2_def)
    note mk [OF this]
    moreover have "mb_upd t (\<lambda>tb. tb\<lparr>msg_text := msg_text b\<rparr>) s2 = Some (s'\<lparr>msglist := msglist s1\<rparr>)"
      using tp by (auto simp: mb_upd_def s2_def s'_def fun_upd_def fun_eq_iff)
    ultimately have "make_real env p s = Some s'"
      using tp m0 by (simp add: t(8)) (simp add: s'_def t(8))
    moreover have "int (mb_length b) \<le> int (bufsize tb)"
      using k(3) t(4) by (simp add: bufsize_def push_bit_eq_mult)
    then have "mb_length b \<le> bufsize tb" by (simp only: of_nat_le_iff)
    then have "made_real env p H Q s0 s' t"
      by (rule make_real_copy [OF t(2) p b0 rb t(3) _ t(5,6) pl0 t(7,9) s'_def])
    ultimately show ?thesis using made_real_count by (auto simp: s0_def)
  qed
qed

lemma append_ok:
  assumes inv: "store_inv s H Q {}" and p: "p \<in># H" and rp: "rl s p = None" and len: "length (tx s p) > 2"
  shows "\<exists>s' k. msgq_append w p s = Some s' \<and> store_inv s' H Q {} \<and> same_rest s s' \<and>
    pool_bound env s' = pool_bound env s \<and> pw s p = Some k \<and> p \<notin># Q \<and>
    tx s' = (tx s)(p := take (2 ^ k - 2) (take (length (tx s p) - 2) (tx s p) @ w) @ crlf)"
proof -
  have pl: "p \<in> live s" using store_inv_live [OF inv, of p] p by simp
  then obtain b where b: "mb_store s p = Some b" by (rule live_storeE)
  note at = views_at [OF b] and bd = live_text_bounds [OF inv b pl]
  define w' where "w' = take (bufsize b - 2) (take (mb_length b - 2) (msg_text b) @ w) @ crlf"
  define s' where "s' = s\<lparr>mb_store := (mb_store s)(p \<mapsto> b\<lparr>msg_text := w'\<rparr>)\<rparr>"
  have up: "mb_store s' = (mb_store s)(p \<mapsto> b\<lparr>msg_text := w'\<rparr>)"
    and fl: "msglist s' = msglist s" "buf_free s' = buf_free s" "buf_used s' = buf_used s"
      "buf_alloc s' = buf_alloc s" "tot_bufsize s' = tot_bufsize s"
    by (simp_all add: s'_def)
  have v: "rf s' = rf s" "rl s' = rl s" "tx s' = (tx s)(p := w')" "pw s' = pw s"
    using views_upd [OF up] at by auto
  have lv: "live s' = live s" and op: "of_power s' = of_power s"
    using v by (auto simp: live_def of_power_def)
  have own: "owners s' = owners s" using v by (simp add: owners_def lv fun_eq_iff)
  have dom: "dom (mb_store s') = dom (mb_store s)" using up b by auto
  have cp: "copy_inv s H Q" using inv by (simp add: store_inv_def)
  have w'len: "2 \<le> length w'" "length w' \<le> bufsize b" using bd by (auto simp: w'_def crlf_def)
  have "refs_inv s' H Q" using inv own v dom by (simp add: store_inv_def refs_inv_def)
  moreover have "size_inv s'"
    using inv w'len at unfolding store_inv_def size_inv_def v lv bufsize_def push_bit_eq_mult by auto
  moreover have "copy_inv s' H Q"
    unfolding copy_inv_def
  proof (intro conjI allI impI)
    fix x r assume "x \<in> live s'" "rl s' x = Some r" "r \<noteq> x"
    then have x: "x \<in> live s" "rl s x = Some r" "r \<noteq> x" "x \<noteq> p" using v lv rp by auto
    note c = copy_invD [OF cp x(1-3)]
    then have "r \<noteq> p" using p by auto
    then show "x \<notin># Q" "r \<notin># H" "r \<in> live s'" "rl s' r = None" "tx s' r = tx s' x"
      using c v lv x by auto
  next
    fix x assume "x \<in># H" "x \<in># Q"
    then show "rl s' x = Some x" using cp v by (auto simp: copy_inv_def)
  qed
  moreover have "msglist_inv s'" using inv unfolding store_inv_def msglist_inv_def fl v lv by simp
  moreover have "free_inv s' {}" using inv unfolding store_inv_def free_inv_def lv op fl dom by simp
  ultimately have "store_inv s' H Q {}" by (simp add: store_inv_def)
  moreover have "msgq_append w p s = Some s'"
    using b bd len at rp by (simp add: msgq_append_def fill_text_def s'_def w'_def)
  moreover have "p \<notin># Q" using cp p rp by (auto simp: copy_inv_def)
  ultimately show ?thesis using v at
    by (intro exI [of _ s'] exI [of _ "power b"])
      (simp add: s'_def same_rest_def pool_bound_def w'_def bufsize_def push_bit_eq_mult)
qed

text \<open>Releasing the free buffers.\<close>

lemma clear_one:
  assumes inv: "store_inv s H Q {}" and fr: "buf_free s i = t # rest"
    and s': "s' = s\<lparr>buf_free := (buf_free s)(i := rest), buf_alloc := (buf_alloc s)(i := buf_alloc s i - 1),
          tot_bufsize := tot_bufsize s - push_bit i 1, mb_store := (mb_store s)(t := None)\<rparr>"
  shows "store_inv s' H Q {}" "\<forall>x\<in>live s. tx s' x = tx s x" "tot_bufsize s' \<le> tot_bufsize s"
proof -
  have fi: "free_inv s {}" using inv by (simp add: store_inv_def)
  note f = free_invD [OF fi]
  have t: "t \<in> of_power s i" "t \<notin> live s" using f(3) [of i] fr by auto
  have fl: "mb_store s' = (mb_store s)(t := None)" "msglist s' = msglist s" "buf_free s' = (buf_free s)(i := rest)"
    "buf_used s' = buf_used s" "buf_alloc s' = (buf_alloc s)(i := buf_alloc s i - 1)"
    "tot_bufsize s' = tot_bufsize s - 2 ^ i" by (simp_all add: s' push_bit_eq_mult)
  have v: "rf s' = rf s" "rl s' = (rl s)(t := None)" "tx s' = (tx s)(t := [])" "pw s' = (pw s)(t := None)"
    using t(2) by (auto simp: view_defs fl live_def fun_eq_iff split: option.splits)
  have lv: "live s' = live s" using v by (simp add: live_def)
  have own: "owners s' = owners s" using v t(2) by (auto simp: owners_def lv fun_eq_iff)
  have op: "of_power s' j = of_power s j - {t}" for j using v by (auto simp: of_power_def)
  have other: "t \<notin> of_power s j" if "j \<noteq> i" for j using t(1) that by (auto simp: of_power_def)
  show "\<forall>x\<in>live s. tx s' x = tx s x" "tot_bufsize s' \<le> tot_bufsize s" using v t(2) fl by auto
  have cp: "copy_inv s H Q" using inv by (simp add: store_inv_def)
  have "refs_inv s' H Q" using inv own v fl by (simp add: store_inv_def refs_inv_def)
  moreover have "size_inv s'"
    using inv unfolding store_inv_def size_inv_def v lv using t(2) by auto
  moreover have "copy_inv s' H Q"
    unfolding copy_inv_def
  proof (intro conjI allI impI)
    fix x r assume "x \<in> live s'" "rl s' x = Some r" "r \<noteq> x"
    then have x: "x \<in> live s" "rl s x = Some r" "r \<noteq> x" "x \<noteq> t" using v lv t by (auto split: if_splits)
    note c = copy_invD [OF cp x(1-3)]
    then have "r \<noteq> t" using t by auto
    then show "x \<notin># Q" "r \<notin># H" "r \<in> live s'" "rl s' r = None" "tx s' r = tx s' x"
      using c v lv x by auto
  next
    fix x assume x: "x \<in># H" "x \<in># Q"
    then have "x \<noteq> t" using store_inv_live [OF inv, of x] t by auto
    then show "rl s' x = Some x" using cp x v by (auto simp: copy_inv_def)
  qed
  moreover have "msglist_inv s'" using inv t(2) unfolding store_inv_def msglist_inv_def fl v lv by auto
  moreover have "free_inv s' {}"
  proof -
    have "distinct (buf_free s' j) \<and> set (buf_free s' j) = of_power s' j - live s \<and>
        buf_used s' j = card (of_power s' j \<inter> live s) \<and> buf_alloc s' j = card (of_power s' j)" for j
    proof (cases "j = i")
      case True
      have "(of_power s i - {t}) \<inter> live s = of_power s i \<inter> live s" using t by auto
      then show ?thesis using f(2-5) [of i] fr t finite_of_power [OF inv, of i] True
        by (auto simp: fl op)
    next
      case False
      then show ?thesis using f(2-5) [of j] other [OF False] by (simp add: fl op)
    qed
    moreover have "tot_bufsize s' = (\<Sum>k = MB_BASE_SHIFT..MB_MAX_SHIFT. buf_alloc s' k * 2 ^ k)"
    proof -
      have i: "i \<in> {MB_BASE_SHIFT..MB_MAX_SHIFT}"
        using inv t(1) by (auto simp: store_inv_def size_inv_def of_power_def)
      have "buf_alloc s i \<ge> 1"
        using t finite_of_power [OF inv, of i] card_gt_0_iff [of "of_power s i"] by (auto simp: f(5))
      then have "buf_alloc s i * 2 ^ i = buf_alloc s' i * 2 ^ i + 2 ^ i"
        by (simp add: fl mult_eq_if algebra_simps)
      then show ?thesis
        using i by (simp add: fl f(6) sum.remove [OF finite_atLeastAtMost i])
    qed
    ultimately show ?thesis unfolding free_inv_def lv by auto
  qed
  ultimately show "store_inv s' H Q {}" by (simp add: store_inv_def)
qed

text \<open>What an operation on other buffers leaves of the live ones.\<close>

definition shrinks :: "MQData \<Rightarrow> MQData \<Rightarrow> bool" where
  "shrinks s s' \<longleftrightarrow> live s' = live s \<and> (\<forall>x\<in>live s. tx s' x = tx s x) \<and>
     same_rest s s' \<and> tot_bufsize s' \<le> tot_bufsize s"

lemma shrinks_trans [trans]: "shrinks s s' \<Longrightarrow> shrinks s' s'' \<Longrightarrow> shrinks s s''"
  unfolding shrinks_def using same_rest_trans by fastforce

lemma clear_list_inv:
  assumes "store_inv s H Q {}"
  shows "store_inv (clear_list i (buf_free s i) s) H Q {} \<and> shrinks s (clear_list i (buf_free s i) s)"
  using assms
proof (induction "buf_free s i" arbitrary: s)
  case Nil
  then show ?case by (simp add: shrinks_def Nil.hyps [symmetric])
next
  case (Cons t rest)
  define s1 where "s1 = s\<lparr>buf_free := (buf_free s)(i := rest), buf_alloc := (buf_alloc s)(i := buf_alloc s i - 1),
          tot_bufsize := tot_bufsize s - push_bit i 1, mb_store := (mb_store s)(t := None)\<rparr>"
  have fr: "buf_free s i = t # rest" using Cons.hyps(2) by simp
  note c = clear_one [OF Cons.prems fr s1_def]
  have "live s1 = live s"
    using alloc_pop(3) [OF Cons.prems fr refl] by (auto simp: live_def rf_def s1_def split: option.splits)
  then have "shrinks s s1" using c(2,3) by (simp add: shrinks_def s1_def same_rest_def)
  moreover have "rest = buf_free s1 i" by (simp add: s1_def)
  note Cons.hyps(1) [OF this c(1)]
  moreover have "clear_list i (buf_free s i) s = clear_list i (buf_free s1 i) s1"
    by (simp add: fr s1_def)
  ultimately show ?case using shrinks_trans by auto
qed

lemma clear_freembs_inv:
  assumes "store_inv s H Q {}"
  shows "store_inv (msgq_clear_freembs s) H Q {} \<and> shrinks s (msgq_clear_freembs s)"
proof -
  have "store_inv (fold (\<lambda>i s. clear_list i (buf_free s i) s) is s) H Q {} \<and>
      shrinks s (fold (\<lambda>i s. clear_list i (buf_free s i) s) is s)" for "is"
    using assms
  proof (induction "is" arbitrary: s)
    case Nil
    then show ?case by (simp add: shrinks_def)
  next
    case (Cons i "is")
    note c = clear_list_inv [OF Cons.prems, of i]
    from Cons.IH [OF conjunct1 [OF c]] c show ?case using shrinks_trans by auto
  qed
  then show ?thesis by (simp add: msgq_clear_freembs_def)
qed

text \<open>\<^verbatim>\<open>msgq_alloc\<close> for a message that is still to be formatted.\<close>

lemma alloc_fresh:
  assumes inv: "store_inv s H Q {}" and env: "malloc_ok env"
  shows "msgq_alloc env None (int BUFSIZE) s = Some (None, s) \<and>
      buf_free s MB_MAX_SHIFT = [] \<and> BUFFERPOOL env \<le> tot_bufsize s \<or>
    (\<exists>t s1 b. msgq_alloc env None (int BUFSIZE) s =
        Some (Some t, s1\<lparr>mb_store := (mb_store s1)(t \<mapsto> b\<lparr>real := None, ref := 1\<rparr>)\<rparr>) \<and>
      store_inv s1 H Q {t} \<and> mb_store s1 t = Some b \<and> power b = MB_MAX_SHIFT \<and> same_rest s s1 \<and>
      (\<forall>x. x \<noteq> t \<longrightarrow> mb_store s1 x = mb_store s x) \<and> t \<notin> live s \<and>
      (pool_bound env s \<longrightarrow> pool_bound env s1))"
proof -
  have al: "msgq_alloc env None (int BUFSIZE) s = alloc_new env None MB_MAX_SHIFT s"
    using msgq_alloc_eq [of 512 env None s] by (auto simp: BUFSIZE_def)
  have k: "MB_BASE_SHIFT \<le> MB_MAX_SHIFT" by (simp add: MB_BASE_SHIFT_def MB_MAX_SHIFT_def)
  show ?thesis
  proof (cases "buf_free s MB_MAX_SHIFT \<noteq> [] \<or> tot_bufsize s < BUFFERPOOL env")
    case True
    obtain t s1 b where t: "alloc_new env None MB_MAX_SHIFT s = map_option (Pair (Some t)) (alloc_rest t None s1)"
      "store_inv s1 H Q {t}" "mb_store s1 t = Some b" "power b = MB_MAX_SHIFT" "t \<notin> live s"
      "\<forall>x. x \<noteq> t \<longrightarrow> mb_store s1 x = mb_store s x" "same_rest s s1"
      "pool_bound env s \<longrightarrow> pool_bound env s1"
      using alloc_limbo [OF inv env k order_refl True, of None] by blast
    then show ?thesis unfolding al
      by (intro disjI2 exI [of _ t] exI [of _ s1] exI [of _ b]) (simp add: alloc_rest_def)
  next
    case False
    then show ?thesis by (simp add: al alloc_new_def)
  qed
qed

end
