(* ===== verification/Msgq_Queue.thy ===== *)
theory Msgq_Queue
  imports Msgq_Store
begin

text \<open>
  The send queue of a client is a byte stream: \<^verbatim>\<open>msgq_add\<close> appends a message to it, \<^verbatim>\<open>msgq_delete\<close>
  takes bytes off its front and \<^verbatim>\<open>msgq_mapiov\<close> shows a prefix of it. The system of all queues
  with the references held outside them is a state machine whose invariant is shown here.
\<close>

section \<open>The bytes of a queue\<close>

definition piece :: "MQData \<Rightarrow> Msg \<Rightarrow> string" where
  "piece s m = drop (sent m) (tx s (msg m))"

definition pieces :: "MQData \<Rightarrow> Msg list \<Rightarrow> string" where
  "pieces s l = concat (map (piece s) l)"

text \<open>The order in which they are sent: a message that is partly sent comes before everything else.\<close>

definition pending :: "MQData \<Rightarrow> MsgQ \<Rightarrow> string" where
  "pending s mq =
     (case mq_queue mq of
        [] \<Rightarrow> pieces s (mq_prio mq)
      | m # rest \<Rightarrow> if sent m > 0 then piece s m @ pieces s (mq_prio mq) @ pieces s rest
                   else pieces s (mq_prio mq) @ pieces s (m # rest))"

definition msgs_ok :: "MQData \<Rightarrow> Msg list \<Rightarrow> bool" where
  "msgs_ok s l \<longleftrightarrow> (\<forall>m\<in>set l. sent m < length (tx s (msg m))) \<and> (\<forall>m\<in>set (tl l). sent m = 0)"

definition queue_ok :: "MQData \<Rightarrow> MsgQ \<Rightarrow> bool" where
  "queue_ok s mq \<longleftrightarrow> msgs_ok s (mq_queue mq) \<and> msgs_ok s (mq_prio mq) \<and>
     mq_length mq = length (pending s mq) \<and> mq_count mq = length (mq_queue mq) + length (mq_prio mq)"

definition qrefs :: "MsgQ \<Rightarrow> mptr multiset" where
  "qrefs mq = mset (map msg (mq_queue mq)) + mset (map msg (mq_prio mq))"

lemma pieces_simps [simp]: "pieces s [] = []" "pieces s (m # l) = piece s m @ pieces s l"
  "pieces s (l @ l') = pieces s l @ pieces s l'"
  by (simp_all add: pieces_def)

lemma msgs_ok_Cons: "msgs_ok s (m # l) \<Longrightarrow> msgs_ok s l \<and> sent m < length (tx s (msg m)) \<and> (\<forall>x\<in>set l. sent x = 0)"
  by (cases l) (auto simp: msgs_ok_def)

lemma queue_cong:
  assumes "\<And>p. p \<in># qrefs mq \<Longrightarrow> tx s' p = tx s p"
  shows "pending s' mq = pending s mq" "queue_ok s' mq = queue_ok s mq"
proof -
  have t: "tx s' (msg m) = tx s (msg m)" if "m \<in> set (mq_queue mq) \<union> set (mq_prio mq)" for m
    using assms [of "msg m"] that by (auto simp: qrefs_def)
  have p: "pieces s' l = pieces s l" and m: "msgs_ok s' l = msgs_ok s l"
    if "set l \<subseteq> set (mq_queue mq) \<union> set (mq_prio mq)" for l
  proof -
    have "piece s' m = piece s m" if "m \<in> set l" for m using t \<open>set l \<subseteq> _\<close> that by (auto simp: piece_def)
    then show "pieces s' l = pieces s l" by (simp add: pieces_def cong: map_cong)
    show "msgs_ok s' l = msgs_ok s l" using t that by (auto simp: msgs_ok_def subset_iff)
  qed
  have p1: "pieces s' (mq_prio mq) = pieces s (mq_prio mq)" by (rule p) simp
  have p2: "pieces s' (mq_queue mq) = pieces s (mq_queue mq)" by (rule p) simp
  have p3: "pieces s' (tl (mq_queue mq)) = pieces s (tl (mq_queue mq))"
    by (rule p) (cases "mq_queue mq"; auto)
  have p4: "pieces s' (take 1 (mq_queue mq)) = pieces s (take 1 (mq_queue mq))"
    by (rule p) (auto dest: in_set_takeD)
  show *: "pending s' mq = pending s mq"
    using p1 p2 p3 p4 by (cases "mq_queue mq") (simp_all add: pending_def)
  show "queue_ok s' mq = queue_ok s mq" using m [of "mq_queue mq"] m [of "mq_prio mq"] *
    by (simp add: queue_ok_def)
qed

lemma qlist_simps [simp]:
  "qlist q (set_qlist q l mq) = l" "q \<noteq> q' \<Longrightarrow> qlist q' (set_qlist q l mq) = qlist q' mq"
  "mq_length (set_qlist q l mq) = mq_length mq" "mq_count (set_qlist q l mq) = mq_count mq"
  by (cases q; cases q'; simp)+

lemma queue_okD: "queue_ok s mq \<Longrightarrow> msgs_ok s (qlist q mq)"
  by (cases q) (simp_all add: queue_ok_def)

lemma queue_fields [simp]:
  "mq_queue (set_qlist q l mq) = (if q = Queue then l else mq_queue mq)"
  "mq_prio (set_qlist q l mq) = (if q = Prio then l else mq_prio mq)"
  by (cases q; simp)+

lemma pending_counters [simp]:
  "pending s (mq\<lparr>mq_length := n\<rparr>) = pending s mq" "pending s (mq\<lparr>mq_count := n\<rparr>) = pending s mq"
  by (auto simp: pending_def split: list.splits)

text \<open>The first bytes are those of the message the next data is taken from.\<close>

lemma next_listE:
  assumes "next_list mq = Some q"
  obtains m rest where "qlist q mq = m # rest"
  using assms by (auto simp: next_list_def neq_Nil_conv split: if_splits)

lemma pending_next:
  assumes ok: "msgs_ok s (mq_queue mq)" "msgs_ok s (mq_prio mq)"
    and q: "next_list mq = Some q" "qlist q mq = m # rest"
  shows "pending s mq = piece s m @ pending s (set_qlist q rest mq)"
proof (cases q)
  case Queue
  have rest: "\<forall>x\<in>set rest. sent x = 0" using msgs_ok_Cons [of s m rest] ok(1) q(2) Queue by simp
  show ?thesis using q Queue rest
    by (cases rest) (auto simp: pending_def next_list_def split: if_splits)
next
  case Prio
  then show ?thesis using q by (auto simp: pending_def next_list_def split: if_splits list.splits)
qed

lemma pending_part:
  assumes ok: "msgs_ok s (mq_queue mq)" "msgs_ok s (mq_prio mq)" and n: "n > 0" "n < length (piece s m)"
    and q: "next_list mq = Some q" "qlist q mq = m # rest"
  shows "pending s (set_qlist q (m\<lparr>sent := sent m + n\<rparr> # rest) mq) = drop n (pending s mq)"
proof -
  have p: "piece s (m\<lparr>sent := sent m + n\<rparr>) = drop n (piece s m)" by (simp add: piece_def add.commute)
  show ?thesis
  proof (cases q)
    case Queue
    then show ?thesis using q n p by (auto simp: pending_def next_list_def split: if_splits)
  next
    case Prio
    then show ?thesis using q n p by (auto simp: pending_def next_list_def split: if_splits list.splits)
  qed
qed

lemma pending_Nil:
  assumes "queue_ok s mq" and "next_list mq = None"
  shows "pending s mq = []"
  using assms by (auto simp: next_list_def pending_def split: if_splits)

lemma qrefs_Cons:
  assumes "qlist q mq = m # rest"
  shows "qrefs mq = add_mset (msg m) (qrefs (set_qlist q rest mq))"
    "length (mq_queue mq) + length (mq_prio mq) =
      Suc (length (mq_queue (set_qlist q rest mq)) + length (mq_prio (set_qlist q rest mq)))"
  using assms by (cases q; simp add: qrefs_def)+

section \<open>Operations on a queue\<close>

text \<open>
  \<open>R\<close> are the references of all other queues and \<open>U\<close> their number of messages.
\<close>

definition local_inv :: "mq_env \<Rightarrow> mptr multiset \<Rightarrow> mptr multiset \<Rightarrow> nat \<Rightarrow> MQData \<Rightarrow> MsgQ \<Rightarrow> bool" where
  "local_inv env H R U s mq \<longleftrightarrow> store_inv s H (qrefs mq + R) {} \<and> queue_ok s mq \<and>
     msgs_used s = mq_count mq + U \<and> msgs_alloc s = msgs_used s + msgs_free s \<and> pool_bound env s"

lemma pending_lists:
  assumes "mq_queue mq' = mq_queue mq" "mq_prio mq' = mq_prio mq"
  shows "pending s mq' = pending s mq" "qrefs mq' = qrefs mq"
  unfolding pending_def qrefs_def assms by simp_all

lemma store_inv_counters:
  assumes "mb_store s' = mb_store s" "msglist s' = msglist s" "buf_free s' = buf_free s"
    "buf_used s' = buf_used s" "buf_alloc s' = buf_alloc s" "tot_bufsize s' = tot_bufsize s"
  shows "store_inv s' H Q P = store_inv s H Q P"
proof -
  note vc = views_cong [OF assms(1)]
  show ?thesis using inv_congs [OF vc(5) vc(2-4) assms(2)] vc assms
    by (simp add: store_inv_def refs_inv_def free_inv_def)
qed

lemma delmsg_head:
  assumes inv: "local_inv env H R U s mq" and q: "next_list mq = Some q" and l: "qlist q mq = m # rest"
  obtains b where "mb_store s (msg m) = Some b" "length (piece s m) = mb_length b - sent m"
    "length (piece s m) > 0" "pending s mq = piece s m @ pending s (set_qlist q rest mq)"
    "msgs_ok s (mq_queue mq)" "msgs_ok s (mq_prio mq)" "msgs_ok s rest" "\<forall>x\<in>set rest. sent x = 0"
    "mq_count mq = length (mq_queue mq) + length (mq_prio mq)" "mq_length mq = length (pending s mq)"
proof -
  have ok: "queue_ok s mq" and si: "store_inv s H (qrefs mq + R) {}"
    using inv by (simp_all add: local_inv_def)
  have oks: "msgs_ok s (mq_queue mq)" "msgs_ok s (mq_prio mq)"
      "mq_count mq = length (mq_queue mq) + length (mq_prio mq)" "mq_length mq = length (pending s mq)"
    using ok by (simp_all add: queue_ok_def)
  have m: "sent m < length (tx s (msg m))" "msgs_ok s rest" "\<forall>x\<in>set rest. sent x = 0"
    using msgs_ok_Cons [of s m rest] queue_okD [OF ok, of q] l by auto
  have "msg m \<in> live s" using store_inv_live [OF si, of "msg m"] qrefs_Cons(1) [OF l] by simp
  then obtain b where b: "mb_store s (msg m) = Some b" by (rule live_storeE)
  have "length (piece s m) = mb_length b - sent m" "length (piece s m) > 0"
    using m(1) by (simp_all add: piece_def views_at(3) [OF b])
  then show ?thesis
    using that b m oks pending_next [OF oks(1,2) q l] by blast
qed

lemma delmsg_whole:
  assumes inv: "local_inv env H R U s mq" and q: "next_list mq = Some q" and l: "qlist q mq = m # rest"
    and n: "length (piece s m) \<le> n"
  shows "\<exists>s' mq'. msgq_delmsg q n (s, mq) = Some (n - length (piece s m), s', mq') \<and>
    local_inv env H R U s' mq' \<and> tx s' = tx s \<and> pending s mq = piece s m @ pending s' mq'"
proof -
  obtain b where b: "mb_store s (msg m) = Some b" "length (piece s m) = mb_length b - sent m"
    "length (piece s m) > 0" "pending s mq = piece s m @ pending s (set_qlist q rest mq)"
    "msgs_ok s (mq_queue mq)" "msgs_ok s (mq_prio mq)" "msgs_ok s rest" "\<forall>x\<in>set rest. sent x = 0"
    "mq_count mq = length (mq_queue mq) + length (mq_prio mq)" "mq_length mq = length (pending s mq)"
    by (rule delmsg_head [OF inv q l])
  have si: "store_inv s H (qrefs mq + R) {}" using inv by (simp add: local_inv_def)
  note qr = qrefs_Cons [OF l]
  have "drops (msg m) H (qrefs mq + R) H (qrefs (set_qlist q rest mq) + R)" using qr by (simp add: drops_def)
  from msgq_clean_ok [OF si this] obtain s1 where
    s1: "msgq_clean (msg m) s = Some s1" "store_inv s1 H (qrefs (set_qlist q rest mq) + R) {}"
      "tx s1 = tx s" "same_rest s s1" "tot_bufsize s1 = tot_bufsize s" by blast
  define s' where "s' = s1\<lparr>msgs_used := msgs_used s1 - 1, msgs_free := msgs_free s1 + 1\<rparr>"
  define mq' where "mq' = set_qlist q rest (mq\<lparr>mq_length := mq_length mq - length (piece s m), mq_count := mq_count mq - 1\<rparr>)"
  have si': "store_inv s' H (qrefs (set_qlist q rest mq) + R) {}"
    using s1(2) store_inv_counters [of s' s1] by (simp add: s'_def)
  have f: "mq_queue mq' = mq_queue (set_qlist q rest mq)" "mq_prio mq' = mq_prio (set_qlist q rest mq)"
    by (simp_all add: mq'_def)
  note same = pending_lists [OF f]
  have tx': "tx s' = tx s" using s1(3) views_cong(3) [of s' s1] by (simp add: s'_def)
  note qc = queue_cong [of mq' s' s, unfolded tx', OF refl]
  have "queue_ok s mq'"
    using b(4-10) qr(2) same(1) f unfolding queue_ok_def
    by (cases q) (simp_all, simp_all add: mq'_def)
  then have "local_inv env H R U s' mq'"
    using si' same(2) inv s1(4,5) qr(2) b(9) qc(2)
    by (simp add: local_inv_def s'_def mq'_def same_rest_def pool_bound_def)
  moreover have "msgq_delmsg q n (s, mq) = Some (n - length (piece s m), s', mq')"
    using n b(1,2) l s1(1) by (simp add: msgq_delmsg_def Let_def s'_def mq'_def)
  ultimately show ?thesis using tx' b(4) same(1) qc(1) by auto
qed

lemma delmsg_part:
  assumes inv: "local_inv env H R U s mq" and q: "next_list mq = Some q" and l: "qlist q mq = m # rest"
    and n: "n > 0" "n < length (piece s m)"
  shows "\<exists>mq'. msgq_delmsg q n (s, mq) = Some (0, s, mq') \<and>
    local_inv env H R U s mq' \<and> pending s mq' = drop n (pending s mq)"
proof -
  obtain b where b: "mb_store s (msg m) = Some b" "length (piece s m) = mb_length b - sent m"
    "length (piece s m) > 0" "pending s mq = piece s m @ pending s (set_qlist q rest mq)"
    "msgs_ok s (mq_queue mq)" "msgs_ok s (mq_prio mq)" "msgs_ok s rest" "\<forall>x\<in>set rest. sent x = 0"
    "mq_count mq = length (mq_queue mq) + length (mq_prio mq)" "mq_length mq = length (pending s mq)"
    by (rule delmsg_head [OF inv q l])
  define mq' where "mq' = set_qlist q (m\<lparr>sent := sent m + n\<rparr> # rest) (mq\<lparr>mq_length := mq_length mq - n\<rparr>)"
  have f: "mq_queue mq' = mq_queue (set_qlist q (m\<lparr>sent := sent m + n\<rparr> # rest) mq)"
    "mq_prio mq' = mq_prio (set_qlist q (m\<lparr>sent := sent m + n\<rparr> # rest) mq)"
    by (simp_all add: mq'_def)
  have pd: "pending s mq' = drop n (pending s mq)"
    using pending_lists(1) [OF f] pending_part [OF b(5,6) n q l] by simp
  have "msgs_ok s (m\<lparr>sent := sent m + n\<rparr> # rest)"
    using b(2,7,8) n views_at(3) [OF b(1)] by (auto simp: msgs_ok_def)
  then have "queue_ok s mq'"
    using b(4-10) l pd n f unfolding queue_ok_def
    by (cases q) (simp_all, simp_all add: mq'_def)
  moreover have "qrefs mq' = qrefs mq" using l f by (cases q) (simp_all add: qrefs_def)
  ultimately have "local_inv env H R U s mq'"
    using inv by (simp add: local_inv_def mq'_def)
  moreover have "msgq_delmsg q n (s, mq) = Some (0, s, mq')"
    using n b l by (simp add: msgq_delmsg_def Let_def mq'_def)
  ultimately show ?thesis using pd by auto
qed

lemma msgq_delete_ok:
  assumes "local_inv env H R U s mq"
  shows "\<exists>s' mq'. msgq_delete n (s, mq) = Some (s', mq') \<and> local_inv env H R U s' mq' \<and>
    tx s' = tx s \<and> pending s' mq' = drop n (pending s mq)"
  using assms
proof (induction n "(s, mq)" arbitrary: s mq rule: msgq_delete.induct)
  case (1 n s mq)
  show ?case
  proof (cases "n = 0 \<or> next_list mq = None")
    case True
    then have "pending s mq = drop n (pending s mq)"
      using pending_Nil [of s mq] "1.prems" by (auto simp: local_inv_def)
    then show ?thesis using True "1.prems" by (auto simp: msgq_delete.simps [of n])
  next
    case False
    then obtain q where q: "next_list mq = Some q" and n: "n > 0" by auto
    from q obtain m rest where l: "qlist q mq = m # rest" by (rule next_listE)
    show ?thesis
    proof (cases "length (piece s m) \<le> n")
      case True
      from delmsg_whole [OF "1.prems" q l True] obtain s1 mq1 where
        d: "msgq_delmsg q n (s, mq) = Some (n - length (piece s m), s1, mq1)"
          "local_inv env H R U s1 mq1" "tx s1 = tx s" "pending s mq = piece s m @ pending s1 mq1" by blast
      note ih = "1.hyps" [OF _ q d(1) refl refl d(2)]
      then show ?thesis using n q d True by (auto simp: msgq_delete.simps [of n])
    next
      case False
      with delmsg_part [OF "1.prems" q l n] show ?thesis
        using n q by (auto simp: msgq_delete.simps [of n] msgq_delete.simps [of 0])
    qed
  qed
qed

lemma msgq_add_eq:
  assumes b: "mb_store s p = Some b" "ref b > 0" "msg_text b \<noteq> []"
    and s0: "s0 = (if msgs_free s = 0 then s\<lparr>msgs_alloc := msgs_alloc s + 1, msgs_used := msgs_used s + 1\<rparr>
      else s\<lparr>msgs_free := msgs_free s - 1, msgs_used := msgs_used s + 1\<rparr>)"
    and s1: "(if real b = None then make_real env p s0 else Some s0) = Some s1"
    and pb: "mb_store s1 p = Some pb" "real pb = Some r" and rb: "mb_store s1 r = Some rb"
  shows "msgq_add env p prio (s, mq) =
    Some (s1\<lparr>mb_store := (mb_store s1)(r \<mapsto> rb\<lparr>ref := ref rb + 1\<rparr>)\<rparr>,
      mq\<lparr>mq_length := mq_length mq + mb_length rb, mq_count := mq_count mq + 1,
         mq_queue := mq_queue mq @ [\<lparr>sent = 0, msg = r\<rparr>]\<rparr>)"
proof -
  have "msgq_add env p prio (s, mq) = (if real b = None then make_real env p s0 else Some s0) \<bind>
      (\<lambda>s. do { b \<leftarrow> mb_store s p; r \<leftarrow> real b; s \<leftarrow> mb_upd r (\<lambda>b. b\<lparr>ref := ref b + 1\<rparr>) s; b \<leftarrow> mb_store s r;
        Some (s, mq\<lparr>mq_length := mq_length mq + mb_length b, mq_count := mq_count mq + 1,
          mq_queue := mq_queue mq @ [\<lparr>sent = 0, msg = r\<rparr>]\<rparr>) })"
    using b unfolding msgq_add_def s0 by simp
  then show ?thesis unfolding s1 using pb rb by simp
qed

lemma msgq_add_ok:
  assumes inv: "local_inv env H R U s mq" and env: "malloc_ok env" and p: "p \<in># H" and np: "mq_prio mq = []"
  shows "\<exists>s' mq'. msgq_add env p prio (s, mq) = Some (s', mq') \<and> local_inv env H R U s' mq' \<and>
    (\<forall>x\<in>live s. tx s' x = tx s x) \<and> pending s' mq' = pending s mq @ tx s p \<and> mq_prio mq' = []"
proof -
  have ok: "queue_ok s mq" and si: "store_inv s H (qrefs mq + R) {}"
    using inv by (simp_all add: local_inv_def)
  have pl: "p \<in> live s" using store_inv_live [OF si, of p] p by simp
  then obtain b where b: "mb_store s p = Some b" "ref b > 0" by (rule live_storeE)
  note bd = live_text_bounds [OF si b(1) pl]
  define s0 where "s0 = (if msgs_free s = 0 then s\<lparr>msgs_alloc := msgs_alloc s + 1, msgs_used := msgs_used s + 1\<rparr>
      else s\<lparr>msgs_free := msgs_free s - 1, msgs_used := msgs_used s + 1\<rparr>)"
  have st0: "mb_store s0 = mb_store s" by (simp add: s0_def)
  have si0: "store_inv s0 H (qrefs mq + R) {}"
    using si store_inv_counters [of s0 s] by (simp add: s0_def)
  note vc = views_cong [OF st0]
  have acc0: "msgs_used s0 = mq_count mq + U + 1" "msgs_alloc s0 = msgs_used s0 + msgs_free s0" "pool_bound env s0"
    using inv by (auto simp: s0_def local_inv_def pool_bound_def)
  obtain s1 r where s1: "(if real b = None then make_real env p s0 else Some s0) = Some s1"
    and mr: "made_real env p H (qrefs mq + R) s0 s1 r"
  proof (cases "real b")
    case None
    then have "rl s0 p = None" using vc(2) views_at(2) [OF b(1)] by simp
    from make_real_ok [OF si0 env p this] that None show ?thesis by auto
  next
    case (Some r)
    have rl0: "rl s0 p = Some r" and pl0: "p \<in> live s0" using Some vc views_at(2) [OF b(1)] pl by simp_all
    have cp: "copy_inv s0 H (qrefs mq + R)" using si0 by (simp add: store_inv_def)
    have "r = p \<or> r \<notin># H \<and> rl s0 r = None \<and> r \<in> live s0 \<and> tx s0 r = tx s0 p"
      using copy_invD [OF cp pl0 rl0] by blast
    then have "made_real env p H (qrefs mq + R) s0 s0 r"
      using si0 rl0 pl0 by (auto simp: made_real_def)
    with that Some show ?thesis by auto
  qed
  note m = mr [unfolded made_real_def]
  obtain rb where rb: "mb_store s1 r = Some rb" using m live_storeE [of r s1] by blast
  obtain pb where pb: "mb_store s1 p = Some pb" "real pb = Some r"
    using m by (auto simp: rl_def split: option.splits)
  define s' where "s' = s1\<lparr>mb_store := (mb_store s1)(r \<mapsto> rb\<lparr>ref := ref rb + 1\<rparr>)\<rparr>"
  define mq' where "mq' = mq\<lparr>mq_length := mq_length mq + mb_length rb, mq_count := mq_count mq + 1,
    mq_queue := mq_queue mq @ [\<lparr>sent = 0, msg = r\<rparr>]\<rparr>"
  have "msg_text b \<noteq> []" using bd by auto
  then have "msgq_add env p prio (s, mq) = Some (s', mq')"
    unfolding s'_def mq'_def by (rule msgq_add_eq [OF b _ s0_def s1 pb rb])
  moreover have "rl s1 r = Some r \<or> (r \<notin># H \<and> rl s1 r = None)" using m by auto
  then have "store_inv s' H (add_mset r (qrefs mq + R)) {}"
    unfolding s'_def by (intro queue_ref [OF _ rb]) (use m in auto)
  then have "store_inv s' H (qrefs mq' + R) {}" by (simp add: qrefs_def mq'_def)
  moreover have up: "mb_store s' = (mb_store s1)(r \<mapsto> rb\<lparr>ref := ref rb + 1\<rparr>)" by (simp add: s'_def)
  then have "tx s' = tx s1" using views_upd(3) [OF up] views_at(3) [OF rb] by auto
  moreover from this have tx': "\<forall>x\<in>live s. tx s' x = tx s x" "tx s' r = tx s p"
    using m vc by auto
  moreover have qc: "pending s' mq = pending s mq" "queue_ok s' mq"
    using queue_cong [of mq s' s] tx' store_inv_live [OF si] ok by auto
  have rt: "piece s' \<lparr>sent = 0, msg = r\<rparr> = tx s p" "mb_length rb = length (tx s p)"
    using tx' views_at(3) [OF rb] \<open>tx s' = tx s1\<close> by (simp_all add: piece_def)
  have pd: "pending s' mq' = pending s mq @ tx s p"
    using rt qc(1) [symmetric] np by (cases "mq_queue mq") (auto simp: pending_def mq'_def)
  moreover have "queue_ok s' mq'"
  proof -
    have "msgs_ok s' (mq_queue mq @ [\<lparr>sent = 0, msg = r\<rparr>])"
      using qc(2) tx' bd views_at(3) [OF b(1)] by (cases "mq_queue mq") (auto simp: queue_ok_def msgs_ok_def)
    then show ?thesis
      using qc pd rt(2) by (simp add: queue_ok_def mq'_def)
  qed
  ultimately show ?thesis using m acc0 np
    by (intro exI [of _ s'] exI [of _ mq'])
      (simp add: local_inv_def s'_def same_rest_def pool_bound_def, simp add: mq'_def)
qed

section \<open>The I/O vector\<close>

definition plist :: "MQData \<Rightarrow> MsgQ \<Rightarrow> string list" where
  "plist s mq =
     (case mq_queue mq of
        [] \<Rightarrow> map (piece s) (mq_prio mq)
      | m # rest \<Rightarrow> if sent m > 0 then piece s m # map (piece s) (mq_prio mq) @ map (piece s) rest
                   else map (piece s) (mq_prio mq) @ map (piece s) (m # rest))"

lemma concat_plist: "concat (plist s mq) = pending s mq"
  by (auto simp: plist_def pending_def pieces_def split: list.splits)

lemma map_list_take:
  assumes "\<forall>m\<in>set l. sent m = 0 \<and> msg m \<in> live s" and "cnt > 0"
  shows "map_list s cnt l =
    Some (take cnt (map (piece s) l), if length l < cnt then Some (cnt - length l) else None)"
  using assms
proof (induction l arbitrary: cnt)
  case Nil
  then show ?case by simp
next
  case (Cons m l)
  then have "msg m \<in> live s" by simp
  then obtain b where b: "mb_store s (msg m) = Some b" by (rule live_storeE)
  have p: "piece s m = msg_text b" using Cons.prems views_at(3) [OF b] by (simp add: piece_def)
  show ?case
  proof (cases "cnt - 1 = 0")
    case True
    then have "cnt = 1" using Cons.prems by simp
    then show ?thesis using b p by simp
  next
    case False
    then obtain k where k: "cnt = Suc k" "k > 0" by (cases cnt) auto
    then show ?thesis using Cons.IH [of k] Cons.prems b p by simp
  qed
qed

lemma map_partial_eq:
  assumes "\<forall>m\<in>set l. msg m \<in> live s"
  shows "map_partial s l =
    Some (case l of [] \<Rightarrow> ([], []) | m # rest \<Rightarrow> if sent m > 0 then ([piece s m], rest) else ([], l))"
proof (cases l)
  case (Cons m rest)
  then have "msg m \<in> live s" using assms by simp
  then obtain b where b: "mb_store s (msg m) = Some b" by (rule live_storeE)
  then show ?thesis using Cons views_at(3) [OF b] by (simp add: map_partial_def piece_def)
qed (simp add: map_partial_def)

text \<open>A list without the message that is partly sent.\<close>

definition unsent :: "Msg list \<Rightarrow> Msg list" where
  "unsent l = (case l of [] \<Rightarrow> [] | m # rest \<Rightarrow> if sent m > 0 then rest else l)"

definition first_part :: "MQData \<Rightarrow> Msg list \<Rightarrow> string list" where
  "first_part s l = (case l of [] \<Rightarrow> [] | m # rest \<Rightarrow> if sent m > 0 then [piece s m] else [])"

lemma unsent_split: "map (piece s) l = first_part s l @ map (piece s) (unsent l)"
  by (auto simp: unsent_def first_part_def split: list.splits)

lemma unsent_zero: "msgs_ok s l \<Longrightarrow> \<forall>m\<in>set (unsent l). sent m = 0"
  by (cases l) (auto simp: unsent_def msgs_ok_def)

lemma unsent_set: "set (unsent l) \<subseteq> set l"
  by (auto simp: unsent_def split: list.splits if_splits)

lemma plist_nonempty:
  assumes "queue_ok s mq"
  shows "[] \<notin> set (plist s mq)"
proof -
  have "piece s m \<noteq> []" if "m \<in> set (mq_queue mq) \<union> set (mq_prio mq)" for m
    using assms that by (auto simp: queue_ok_def msgs_ok_def piece_def)
  moreover have "set (plist s mq) \<subseteq> piece s ` (set (mq_queue mq) \<union> set (mq_prio mq))"
    by (auto simp: plist_def split: list.splits if_splits)
  ultimately show ?thesis by force
qed

lemma map_partial_parts:
  "\<forall>m\<in>set l. msg m \<in> live s \<Longrightarrow> map_partial s l = Some (first_part s l, unsent l)"
  by (auto simp: map_partial_eq first_part_def unsent_def split: list.splits)

lemma plist_parts:
  "plist s mq = first_part s (mq_queue mq) @ first_part s (mq_prio mq) @
    map (piece s) (unsent (mq_prio mq)) @ map (piece s) (unsent (mq_queue mq))"
  using unsent_split [of s "mq_prio mq"]
  by (auto simp: plist_def first_part_def unsent_def split: list.splits)

lemma first_part_length: "length (first_part s l) \<le> 1"
  by (auto simp: first_part_def split: list.splits)

lemma msgq_mapiov_ok:
  assumes inv: "local_inv env H R U s mq" and cnt: "cnt > 0"
  shows "msgq_mapiov s mq cnt = Some (take cnt (plist s mq), length (concat (take cnt (plist s mq))))"
proof -
  have ok: "queue_ok s mq" and si: "store_inv s H (qrefs mq + R) {}"
    using inv by (simp_all add: local_inv_def)
  have lv: "\<forall>m\<in>set (mq_queue mq). msg m \<in> live s" "\<forall>m\<in>set (mq_prio mq). msg m \<in> live s"
    using store_inv_live [OF si] by (auto simp: qrefs_def)
  have un: "\<forall>m\<in>set (unsent (mq_queue mq)). sent m = 0 \<and> msg m \<in> live s"
    "\<forall>m\<in>set (unsent (mq_prio mq)). sent m = 0 \<and> msg m \<in> live s"
    using unsent_zero unsent_set ok lv unfolding queue_ok_def by blast+
  note parts = map_partial_parts [OF lv(1)] map_partial_parts [OF lv(2)]
  define i1 where "i1 = first_part s (mq_queue mq)"
  define i2 where "i2 = first_part s (mq_prio mq)"
  note pp = plist_parts [of s mq, folded i1_def i2_def]
  have l12: "length i1 \<le> 1" "length i2 \<le> 1" using first_part_length by (simp_all add: i1_def i2_def)
  have sums: "sum_list (map length xs) = length (concat xs)" for xs :: "string list"
    by (simp add: length_concat)
  let ?body = "do { (iov1, queue) \<leftarrow> map_partial s (mq_queue mq);
                 let cnt = cnt - length iov1 in
                 if iov1 \<noteq> [] \<and> cnt = 0 then Some iov1
                 else do { (iov2, prio) \<leftarrow> map_partial s (mq_prio mq);
                           let cnt = cnt - length iov2 in
                           if iov2 \<noteq> [] \<and> cnt = 0 then Some (iov1 @ iov2)
                           else do { (iov3, left) \<leftarrow> map_list s cnt prio;
                                     case left of
                                       None \<Rightarrow> Some (iov1 @ iov2 @ iov3)
                                     | Some cnt \<Rightarrow>
                                         do { (iov4, left) \<leftarrow> map_list s cnt queue;
                                              Some (iov1 @ iov2 @ iov3 @ iov4) } } } }"
  have "?body = Some (take cnt (plist s mq))"
  proof (cases "cnt - length i1 - length i2 > 0")
    case True
    then have *: "\<not> (i1 \<noteq> [] \<and> cnt - length i1 = 0)" "\<not> (i2 \<noteq> [] \<and> cnt - length i1 - length i2 = 0)" by auto
    show ?thesis using * map_list_take [OF un(2) True] map_list_take [OF un(1)] True
      unfolding parts i1_def [symmetric] i2_def [symmetric]
      by (simp add: Let_def pp)
  next
    case False
    show ?thesis
    proof (cases "i1 \<noteq> [] \<and> cnt - length i1 = 0")
      case True
      moreover from this have "cnt = length i1" using cnt l12 by (cases i1) auto
      ultimately show ?thesis unfolding parts i1_def [symmetric] i2_def [symmetric] by (simp add: Let_def pp)
    next
      case nl: False
      then have "i2 \<noteq> [] \<and> cnt - length i1 - length i2 = 0" using False cnt l12 by auto
      moreover from this nl have "cnt = length i1 + length i2" using cnt l12 by (cases i1; cases i2) auto
      ultimately show ?thesis using nl unfolding parts i1_def [symmetric] i2_def [symmetric]
        by (simp add: Let_def pp)
    qed
  qed
  moreover have "mq_length mq = 0 \<Longrightarrow> plist s mq = []"
    using plist_nonempty [OF ok] concat_plist [of s mq] ok by (cases "plist s mq") (auto simp: queue_ok_def)
  ultimately show ?thesis using sums by (simp add: msgq_mapiov_def)
qed

end
