(* ===== verification/Msgq_Sys.thy ===== *)
theory Msgq_Sys
  imports Msgq_Queue "HOL-Library.Sublist"
begin

text \<open>
  The queues of all clients over one store, with the messages that callers hold. Every operation
  of \<^verbatim>\<open>ircd/msgq.c\<close> succeeds in a state that was reached by them, changes the byte stream of one
  client only, and keeps the books.
\<close>

section \<open>All queues\<close>

definition all_refs :: "MsgQ list \<Rightarrow> mptr multiset" where
  "all_refs qs = sum_list (map qrefs qs)"

definition sys_inv :: "mq_env \<Rightarrow> mptr multiset \<Rightarrow> mptr set \<Rightarrow> msys \<Rightarrow> bool" where
  "sys_inv env H P = (\<lambda>(s, qs). store_inv s H (all_refs qs) P \<and>
     (\<forall>mq\<in>set qs. queue_ok s mq \<and> mq_prio mq = []) \<and>
     msgs_used s = sum_list (map mq_count qs) \<and> msgs_alloc s = msgs_used s + msgs_free s \<and> pool_bound env s)"

definition others :: "nat \<Rightarrow> MsgQ list \<Rightarrow> MsgQ list" where
  "others i qs = take i qs @ drop (Suc i) qs"

lemma others_update [simp]: "others i (qs[i := x]) = others i qs"
  by (simp add: others_def)

lemma others_parts:
  assumes "i < length qs"
  shows "set qs = insert (qs ! i) (set (others i qs))" "all_refs qs = qrefs (qs ! i) + all_refs (others i qs)"
    "sum_list (map mq_count qs) = mq_count (qs ! i) + sum_list (map mq_count (others i qs))"
proof -
  have "set (take i qs @ (qs ! i) # drop (Suc i) qs) = insert (qs ! i) (set (others i qs))"
    "all_refs (take i qs @ (qs ! i) # drop (Suc i) qs) = qrefs (qs ! i) + all_refs (others i qs)"
    "sum_list (map mq_count (take i qs @ (qs ! i) # drop (Suc i) qs)) =
      mq_count (qs ! i) + sum_list (map mq_count (others i qs))"
    by (auto simp: others_def all_refs_def)
  then show "set qs = insert (qs ! i) (set (others i qs))" "all_refs qs = qrefs (qs ! i) + all_refs (others i qs)"
    "sum_list (map mq_count qs) = mq_count (qs ! i) + sum_list (map mq_count (others i qs))"
    by (simp_all only: id_take_nth_drop [OF assms, symmetric])
qed

lemma sys_local:
  assumes "i < length qs"
  shows "sys_inv env H {} (s, qs) \<longleftrightarrow>
    local_inv env H (all_refs (others i qs)) (sum_list (map mq_count (others i qs))) s (qs ! i) \<and>
    (\<forall>mq\<in>set (others i qs). queue_ok s mq \<and> mq_prio mq = []) \<and> mq_prio (qs ! i) = []"
  using others_parts [OF assms] by (auto simp: sys_inv_def local_inv_def)

text \<open>Replacing one queue by the result of an operation that keeps the texts the others use.\<close>

lemma sys_update:
  assumes i: "i < length qs" and inv: "sys_inv env H {} (s, qs)"
    and l: "local_inv env H' (all_refs (others i qs)) (sum_list (map mq_count (others i qs))) s' mq'"
    and tx: "\<forall>x\<in>live s. tx s' x = tx s x" and p: "mq_prio mq' = []"
  shows "sys_inv env H' {} (s', qs[i := mq'])"
    "\<forall>j<length qs. j \<noteq> i \<longrightarrow> pending s' (qs ! j) = pending s (qs ! j)"
proof -
  have si: "store_inv s H (all_refs qs) {}" using inv by (simp add: sys_inv_def)
  have cong: "pending s' mq = pending s mq" "queue_ok s' mq = queue_ok s mq" if "mq \<in> set qs" for mq
  proof -
    have "set_mset (qrefs mq) \<subseteq> set_mset (all_refs qs)"
      using that by (auto simp: all_refs_def in_set_conv_decomp)
    then have "tx s' x = tx s x" if "x \<in># qrefs mq" for x
      using store_inv_live [OF si, of x] tx that by auto
    then show "pending s' mq = pending s mq" "queue_ok s' mq = queue_ok s mq"
      using queue_cong [of mq s' s] by auto
  qed
  have sub: "set (others i qs) \<subseteq> set qs" using others_parts(1) [OF i] by auto
  show "sys_inv env H' {} (s', qs[i := mq'])"
    using i l p inv cong sub sys_local [of i "qs[i := mq']" env H' s'] sys_local [OF i, of env H s]
    by auto
  show "\<forall>j<length qs. j \<noteq> i \<longrightarrow> pending s' (qs ! j) = pending s (qs ! j)"
    using cong by auto
qed

lemma delmsg_prio: "msgq_delmsg q n (s, mq) = Some (n', s', mq') \<Longrightarrow> mq_prio mq = [] \<Longrightarrow> mq_prio mq' = []"
  by (cases q) (auto simp: msgq_delmsg_def Let_def bind_eq_Some_conv split: list.splits if_splits)

lemma delete_prio: "msgq_delete n (s, mq) = Some (s', mq') \<Longrightarrow> mq_prio mq = [] \<Longrightarrow> mq_prio mq' = []"
proof (induction n "(s, mq)" arbitrary: s mq rule: msgq_delete.induct)
  case (1 n s mq)
  show ?case
  proof (cases "n = 0 \<or> next_list mq = None")
    case True
    then show ?thesis using "1.prems" by (auto simp: msgq_delete.simps [of n] split: if_splits)
  next
    case False
    then obtain q n1 s1 mq1 where "next_list mq = Some q" "msgq_delmsg q n (s, mq) = Some (n1, s1, mq1)"
        "msgq_delete n1 (s1, mq1) = Some (s', mq')"
      using "1.prems"(1) by (auto simp: msgq_delete.simps [of n] split: option.splits)
    then show ?thesis using "1.hyps" [OF _ _ _ refl refl] False delmsg_prio "1.prems"(2) by blast
  qed
qed

lemma sys_delete:
  assumes inv: "sys_inv env H {} (s, qs)" and i: "i < length qs"
  shows "\<exists>s' mq'. msgq_delete n (s, qs ! i) = Some (s', mq') \<and> sys_inv env H {} (s', qs[i := mq']) \<and>
    tx s' = tx s \<and> pending s' mq' = drop n (pending s (qs ! i)) \<and>
    (\<forall>j<length qs. j \<noteq> i \<longrightarrow> pending s' (qs ! j) = pending s (qs ! j))"
proof -
  have l: "local_inv env H (all_refs (others i qs)) (sum_list (map mq_count (others i qs))) s (qs ! i)"
    and np: "mq_prio (qs ! i) = []"
    using inv sys_local [OF i] by auto
  from msgq_delete_ok [OF l, of n] obtain s' mq' where d:
    "msgq_delete n (s, qs ! i) = Some (s', mq')"
    "local_inv env H (all_refs (others i qs)) (sum_list (map mq_count (others i qs))) s' mq'"
    "tx s' = tx s" "pending s' mq' = drop n (pending s (qs ! i))" by blast
  have "mq_prio mq' = []" using delete_prio [OF d(1) np] .
  from sys_update [OF i inv d(2) _ this] d show ?thesis by auto
qed

lemma sys_add:
  assumes inv: "sys_inv env H {} (s, qs)" and env: "malloc_ok env" and p: "p \<in># H" and i: "i < length qs"
  shows "\<exists>s' mq'. msgq_add env p prio (s, qs ! i) = Some (s', mq') \<and> sys_inv env H {} (s', qs[i := mq']) \<and>
    (\<forall>x\<in>live s. tx s' x = tx s x) \<and> pending s' mq' = pending s (qs ! i) @ tx s p \<and>
    (\<forall>j<length qs. j \<noteq> i \<longrightarrow> pending s' (qs ! j) = pending s (qs ! j))"
proof -
  have l: "local_inv env H (all_refs (others i qs)) (sum_list (map mq_count (others i qs))) s (qs ! i)"
    and np: "mq_prio (qs ! i) = []"
    using inv sys_local [OF i] by auto
  from msgq_add_ok [OF l env p np, of prio] obtain s' mq' where d:
    "msgq_add env p prio (s, qs ! i) = Some (s', mq')"
    "local_inv env H (all_refs (others i qs)) (sum_list (map mq_count (others i qs))) s' mq'"
    "\<forall>x\<in>live s. tx s' x = tx s x" "pending s' mq' = pending s (qs ! i) @ tx s p" "mq_prio mq' = []" by blast
  from sys_update [OF i inv d(2,3,5)] d show ?thesis by auto
qed

text \<open>Operations that change no queue.\<close>

lemma sys_store:
  assumes inv: "sys_inv env H P (s, qs)" and si: "store_inv s' H' (all_refs qs) P'"
    and tx: "\<And>x. x \<in># all_refs qs \<Longrightarrow> tx s' x = tx s x"
    and rest: "same_rest s s'" "pool_bound env s'"
  shows "sys_inv env H' P' (s', qs)" "\<forall>j<length qs. pending s' (qs ! j) = pending s (qs ! j)"
proof -
  have cong: "pending s' mq = pending s mq" "queue_ok s' mq = queue_ok s mq" if "mq \<in> set qs" for mq
  proof -
    have "set_mset (qrefs mq) \<subseteq> set_mset (all_refs qs)"
      using that by (auto simp: all_refs_def in_set_conv_decomp)
    then have "tx s' x = tx s x" if "x \<in># qrefs mq" for x using tx that by auto
    then show "pending s' mq = pending s mq" "queue_ok s' mq = queue_ok s mq"
      using queue_cong [of mq s' s] by auto
  qed
  then show "sys_inv env H' P' (s', qs)"
    using inv si rest by (auto simp: sys_inv_def same_rest_def)
  show "\<forall>j<length qs. pending s' (qs ! j) = pending s (qs ! j)" using cong by auto
qed

lemma sys_clean:
  assumes inv: "sys_inv env (add_mset p H) {} (s, qs)"
  shows "\<exists>s'. msgq_clean p s = Some s' \<and> sys_inv env H {} (s', qs) \<and> tx s' = tx s \<and>
    (\<forall>j<length qs. pending s' (qs ! j) = pending s (qs ! j))"
proof -
  have si: "store_inv s (add_mset p H) (all_refs qs) {}" using inv by (simp add: sys_inv_def)
  have "drops p (add_mset p H) (all_refs qs) H (all_refs qs)" by (simp add: drops_def)
  from msgq_clean_ok [OF si this] obtain s' where c: "msgq_clean p s = Some s'"
    "store_inv s' H (all_refs qs) {}" "tx s' = tx s" "same_rest s s'" "tot_bufsize s' = tot_bufsize s" by blast
  moreover have "pool_bound env s'" using inv c(5) by (simp add: sys_inv_def pool_bound_def)
  ultimately show ?thesis using sys_store [OF inv c(2) _ c(4)] by auto
qed

lemma sys_append:
  assumes inv: "sys_inv env H {} (s, qs)" and p: "p \<in># H" "rl s p = None" "length (tx s p) > 2"
  shows "\<exists>s' k. msgq_append w p s = Some s' \<and> sys_inv env H {} (s', qs) \<and> pw s p = Some k \<and>
    tx s' = (tx s)(p := take (2 ^ k - 2) (take (length (tx s p) - 2) (tx s p) @ w) @ crlf) \<and>
    (\<forall>j<length qs. pending s' (qs ! j) = pending s (qs ! j))"
proof -
  have si: "store_inv s H (all_refs qs) {}" using inv by (simp add: sys_inv_def)
  from append_ok [OF si p, of w env] obtain s' k where c: "msgq_append w p s = Some s'"
    "store_inv s' H (all_refs qs) {}" "same_rest s s'" "pool_bound env s' = pool_bound env s" "pw s p = Some k"
    "p \<notin># all_refs qs" "tx s' = (tx s)(p := take (2 ^ k - 2) (take (length (tx s p) - 2) (tx s p) @ w) @ crlf)"
    by blast
  have "pool_bound env s'" using inv c(4) by (simp add: sys_inv_def)
  moreover have "\<And>x. x \<in># all_refs qs \<Longrightarrow> tx s' x = tx s x" using c(6,7) by auto
  ultimately show ?thesis using sys_store [OF inv c(2) _ c(3)] c by auto
qed

section \<open>Making a message\<close>

text \<open>
  What \<^verbatim>\<open>flush_connections\<close> and \<^verbatim>\<open>kill_highest_sendq\<close> are relied on for: they use the queues through
  the operations above only, so the invariant and the messages held by others stay.
\<close>

definition keeps_sys :: "mq_env \<Rightarrow> (msys \<Rightarrow> msys) \<Rightarrow> bool" where
  "keeps_sys env f \<longleftrightarrow> (\<forall>H sys. sys_inv env H {} sys \<longrightarrow> sys_inv env H {} (f sys) \<and>
     length (snd (f sys)) = length (snd sys) \<and> (\<forall>p\<in>#H. tx (fst (f sys)) p = tx (fst sys) p))"

definition env_ok :: "mq_env \<Rightarrow> bool" where
  "env_ok env \<longleftrightarrow> malloc_ok env \<and> keeps_sys env (mq_flush_connections env) \<and>
     (\<forall>b. keeps_sys env (mq_kill_highest_sendq env b))"

lemma keeps_sysD:
  assumes "keeps_sys env f" "sys_inv env H {} sys"
  shows "sys_inv env H {} (f sys)" "length (snd (f sys)) = length (snd sys)"
    "\<forall>p\<in>#H. tx (fst (f sys)) p = tx (fst sys) p"
  using assms unfolding keeps_sys_def by blast+

lemma keeps_clear: "keeps_sys env clear_sys"
  unfolding keeps_sys_def
proof (intro allI impI)
  fix H sys assume inv: "sys_inv env H {} sys"
  obtain s qs where sys: "sys = (s, qs)" by (cases sys)
  have si: "store_inv s H (all_refs qs) {}" using inv by (simp add: sys_inv_def sys)
  note c = clear_freembs_inv [OF si]
  have live: "x \<in># H + all_refs qs \<Longrightarrow> tx (msgq_clear_freembs s) x = tx s x" for x
    using c store_inv_live [OF si, of x] by (auto simp: shrinks_def)
  have "pool_bound env (msgq_clear_freembs s)"
    using inv c by (auto simp: sys sys_inv_def pool_bound_def shrinks_def)
  then have "sys_inv env H {} (msgq_clear_freembs s, qs)"
    using sys_store(1) [OF inv [unfolded sys], of "msgq_clear_freembs s"] c live by (auto simp: shrinks_def)
  then show "sys_inv env H {} (clear_sys sys) \<and> length (snd (clear_sys sys)) = length (snd sys) \<and>
      (\<forall>p\<in>#H. tx (fst (clear_sys sys)) p = tx (fst sys) p)"
    using live by (simp add: sys clear_sys_def)
qed

lemma keeps_comp: "keeps_sys env f \<Longrightarrow> keeps_sys env g \<Longrightarrow> keeps_sys env (\<lambda>x. f (g x))"
  unfolding keeps_sys_def by (metis (no_types, lifting))

lemma keeps_id: "keeps_sys env (\<lambda>x. x)"
  by (simp add: keeps_sys_def)

definition alloc_state :: "mq_env \<Rightarrow> mptr multiset \<Rightarrow> msys \<Rightarrow> mptr option \<times> msys \<Rightarrow> bool" where
  "alloc_state env H sys0 = (\<lambda>(mb, s, qs). length qs = length (snd sys0) \<and>
     (case mb of
        None \<Rightarrow> sys_inv env H {} (s, qs) \<and> (\<forall>p\<in>#H. tx s p = tx (fst sys0) p)
      | Some t \<Rightarrow> \<exists>s1 b. s = s1\<lparr>mb_store := (mb_store s1)(t \<mapsto> b\<lparr>real := None, ref := 1\<rparr>)\<rparr> \<and>
          sys_inv env H {t} (s1, qs) \<and> mb_store s1 t = Some b \<and> power b = MB_MAX_SHIFT \<and>
          (\<forall>p\<in>#H. tx s1 p = tx (fst sys0) p)))"

lemma alloc_try:
  assumes inv: "sys_inv env H {} (s, qs)" and env: "malloc_ok env"
  shows "\<exists>mb s'. msgq_alloc env None (int BUFSIZE) s = Some (mb, s') \<and> alloc_state env H (s, qs) (mb, s', qs) \<and>
    (buf_free s MB_MAX_SHIFT \<noteq> [] \<or> tot_bufsize s < BUFFERPOOL env \<longrightarrow> mb \<noteq> None)"
proof -
  have si: "store_inv s H (all_refs qs) {}" using inv by (simp add: sys_inv_def)
  from alloc_fresh [OF si env] show ?thesis
  proof (elim disjE conjE exE, goal_cases)
    case 1
    then show ?thesis using inv by (auto simp: alloc_state_def)
  next
    case (2 t s1 b)
    have nt: "t \<notin># H + all_refs qs" using limbo_unowned [OF 2(2)] by simp
    have tx: "tx s1 x = tx s x" if "x \<noteq> t" for x using 2(6) that by (simp add: tx_def)
    have "pool_bound env s" using inv by (simp add: sys_inv_def)
    moreover have all: "tx s1 x = tx s x" if "x \<in># H + all_refs qs" for x using tx [of x] nt that by auto
    ultimately have "sys_inv env H {t} (s1, qs)"
      using sys_store(1) [OF inv 2(2) _ 2(5)] 2(8) by simp
    moreover have "\<forall>p\<in>#H. tx s1 p = tx s p" using all by simp
    ultimately show ?thesis using 2(1,3,4) nt by (auto simp: alloc_state_def)
  qed
qed

lemma retry_step:
  assumes st: "alloc_state env H sys0 x" and env: "malloc_ok env" and f: "keeps_sys env f"
  shows "\<exists>y. retry_alloc env cond f x = Some y \<and> alloc_state env H sys0 y \<and> (fst x \<noteq> None \<longrightarrow> y = x)"
proof -
  obtain mb s qs where x: "x = (mb, s, qs)" by (cases x) auto
  show ?thesis
  proof (cases "mb \<noteq> None \<or> \<not> cond")
    case True
    then show ?thesis using st by (auto simp: retry_alloc_def x)
  next
    case False
    then have inv: "sys_inv env H {} (s, qs)" and h: "length qs = length (snd sys0)" "\<forall>p\<in>#H. tx s p = tx (fst sys0) p"
      using st by (auto simp: alloc_state_def x)
    obtain s1 qs1 where f1: "f (s, qs) = (s1, qs1)" by (cases "f (s, qs)")
    note k = keeps_sysD [OF f inv, unfolded f1]
    from alloc_try [OF k(1) env] obtain mb' s' where
      a: "msgq_alloc env None (int BUFSIZE) s1 = Some (mb', s')" "alloc_state env H (s1, qs1) (mb', s', qs1)" by blast
    have "alloc_state env H sys0 (mb', s', qs1)"
      using a(2) h k by (auto simp: alloc_state_def split: option.splits)
    then show ?thesis using False a(1) f1 by (auto simp: retry_alloc_def x)
  qed
qed

lemma vmake_alloc_ok:
  assumes inv: "sys_inv env H {} (s, qs)" and env: "env_ok env"
  shows "\<exists>y. vmake_alloc env (s, qs) = Some y \<and> alloc_state env H (s, qs) y \<and>
    (buf_free s MB_MAX_SHIFT \<noteq> [] \<or> tot_bufsize s < BUFFERPOOL env \<longrightarrow>
       (\<exists>t s'. y = (Some t, s', qs) \<and> t \<notin># all_refs qs \<and> (\<forall>x. x \<noteq> t \<longrightarrow> tx s' x = tx s x)))"
proof -
  have e: "malloc_ok env" "keeps_sys env (mq_flush_connections env)" "keeps_sys env (mq_kill_highest_sendq env b)" for b
    using env by (auto simp: env_ok_def)
  from alloc_try [OF inv e(1)] obtain mb s1 where
    a: "msgq_alloc env None (int BUFSIZE) s = Some (mb, s1)" "alloc_state env H (s, qs) (mb, s1, qs)"
      "buf_free s MB_MAX_SHIFT \<noteq> [] \<or> tot_bufsize s < BUFFERPOOL env \<longrightarrow> mb \<noteq> None" by blast
  have y1: "retry_alloc env True (\<lambda>x. x) (None, s, qs) = Some (mb, s1, qs)"
    using a(1) by (simp add: retry_alloc_def)
  obtain y2 where y2: "retry_alloc env (HAS_FERGUSON_FLUSHER env) (mq_flush_connections env) (mb, s1, qs) = Some y2"
    "alloc_state env H (s, qs) y2" "mb \<noteq> None \<longrightarrow> y2 = (mb, s1, qs)"
    using retry_step [OF a(2) e(1,2), where cond = "HAS_FERGUSON_FLUSHER env"] by auto
  obtain y3 where y3: "retry_alloc env True clear_sys y2 = Some y3"
    "alloc_state env H (s, qs) y3" "fst y2 \<noteq> None \<longrightarrow> y3 = y2"
    using retry_step [OF y2(2) e(1) keeps_clear, where cond = True] by blast
  obtain y4 where y4: "retry_alloc env True (\<lambda>x. clear_sys (mq_kill_highest_sendq env False x)) y3 = Some y4"
    "alloc_state env H (s, qs) y4" "fst y3 \<noteq> None \<longrightarrow> y4 = y3"
    using retry_step [OF y3(2) e(1) keeps_comp [OF keeps_clear e(3)], where cond = True] by blast
  obtain y5 where y5: "retry_alloc env True (\<lambda>x. clear_sys (mq_kill_highest_sendq env True x)) y4 = Some y5"
    "alloc_state env H (s, qs) y5" "fst y4 \<noteq> None \<longrightarrow> y5 = y4"
    using retry_step [OF y4(2) e(1) keeps_comp [OF keeps_clear e(3)], where cond = True] by blast
  have "vmake_alloc env (s, qs) = Some y5"
    using y1 y2(1) y3(1) y4(1) y5(1) by (simp add: vmake_alloc_def)
  moreover have "\<exists>t s'. y5 = (Some t, s', qs) \<and> t \<notin># all_refs qs \<and> (\<forall>x. x \<noteq> t \<longrightarrow> tx s' x = tx s x)"
    if room: "buf_free s MB_MAX_SHIFT \<noteq> [] \<or> tot_bufsize s < BUFFERPOOL env"
  proof -
    have "mb \<noteq> None" using a(3) room by blast
    then have y: "y5 = (mb, s1, qs)" using y2(3) y3(3) y4(3) y5(3) by auto
    have si: "store_inv s H (all_refs qs) {}" using inv by (simp add: sys_inv_def)
    from alloc_fresh [OF si e(1)] room a(1) y show ?thesis
      by (elim disjE conjE exE) (auto simp: tx_def dest: limbo_unowned(5))
  qed
  ultimately show ?thesis using y5(2) by blast
qed

lemma sys_make:
  assumes inv: "sys_inv env H {} (s, qs)" and env: "env_ok env"
  shows "(\<exists>m. msgq_vmake env w (s, qs) = Some (Inl m)) \<and>
      buf_free s MB_MAX_SHIFT = [] \<and> BUFFERPOOL env \<le> tot_bufsize s \<or>
    (\<exists>p s' qs'. msgq_vmake env w (s, qs) = Some (Inr (p, s', qs')) \<and> sys_inv env (add_mset p H) {} (s', qs') \<and>
       length qs' = length qs \<and> tx s' p = take (BUFSIZE - 2) w @ crlf \<and> rl s' p = None \<and> p \<notin># H \<and>
       (\<forall>x\<in>#H. tx s' x = tx s x) \<and>
       (buf_free s MB_MAX_SHIFT \<noteq> [] \<or> tot_bufsize s < BUFFERPOOL env \<longrightarrow>
          qs' = qs \<and> (\<forall>j<length qs. pending s' (qs ! j) = pending s (qs ! j))))"
proof -
  let ?room = "buf_free s MB_MAX_SHIFT \<noteq> [] \<or> tot_bufsize s < BUFFERPOOL env"
  obtain mb s2 qs' where al: "vmake_alloc env (s, qs) = Some (mb, s2, qs')"
    "alloc_state env H (s, qs) (mb, s2, qs')"
    "?room \<longrightarrow> mb \<noteq> None \<and> qs' = qs \<and> (\<forall>x. Some x \<noteq> mb \<longrightarrow> tx s2 x = tx s x)"
    using vmake_alloc_ok [OF inv env] by (metis (no_types, lifting) Pair_inject option.distinct(1) prod.exhaust)
  show ?thesis
  proof (cases mb)
    case None
    then show ?thesis using al by (auto simp: msgq_vmake_def)
  next
    case (Some t)
    then obtain s1 b where s1: "s2 = s1\<lparr>mb_store := (mb_store s1)(t \<mapsto> b\<lparr>real := None, ref := 1\<rparr>)\<rparr>"
      "sys_inv env H {t} (s1, qs')" "mb_store s1 t = Some b" "power b = MB_MAX_SHIFT"
      "\<forall>p\<in>#H. tx s1 p = tx s p" "length qs' = length qs"
      using al(2) by (auto simp: alloc_state_def)
    define w' where "w' = take (BUFSIZE - 2) w @ crlf"
    define s' where "s' = s1\<lparr>mb_store := (mb_store s1)(t \<mapsto> b\<lparr>real := None, ref := 1, msg_text := w'\<rparr>), msglist := t # msglist s1\<rparr>"
    have bs: "bufsize b = BUFSIZE" using s1(4) by (simp add: bufsize_def push_bit_eq_mult MB_MAX_SHIFT_def BUFSIZE_def)
    have "2 \<le> length w'" "length w' \<le> bufsize b" by (simp_all add: w'_def crlf_def bs) (simp add: BUFSIZE_def)
    then have si: "store_inv s' (add_mset t H) (all_refs qs') {}"
      using s1(2,3) by (intro alive_held [OF _ s1(3) _ _ s'_def]) (auto simp: sys_inv_def)
    have lim: "t \<notin># H" "t \<notin># all_refs qs'"
      using s1(2) limbo_unowned(4,5) [of s1 H "all_refs qs'" t] by (auto simp: sys_inv_def)
    have tx': "tx s' x = tx s1 x" if "x \<noteq> t" for x using that by (simp add: tx_def s'_def)
    have rest: "same_rest s1 s'" "pool_bound env s'"
      using s1(2) by (auto simp: same_rest_def s'_def sys_inv_def pool_bound_def)
    have "\<And>x. x \<in># all_refs qs' \<Longrightarrow> tx s' x = tx s1 x" using tx' lim by metis
    note ss = sys_store [OF s1(2) si this rest]
    have ev: "msgq_vmake env w (s, qs) = Some (Inr (t, s', qs'))"
      using al(1) Some s1(1) bs by (simp add: msgq_vmake_def fill_text_def s'_def w'_def bufsize_def)
    have pt: "pending s' mq = pending s mq" if room: ?room and mq: "mq \<in> set qs" for mq
    proof (rule queue_cong(1))
      fix x assume x: "x \<in># qrefs mq"
      then have "x \<in># all_refs qs" using mq by (auto simp: all_refs_def in_set_conv_decomp)
      then have "x \<noteq> t" using lim al(3) room by auto
      moreover from this have "tx s1 x = tx s2 x" by (simp add: s1(1) tx_def)
      ultimately show "tx s' x = tx s x" using tx' al(3) room Some by simp
    qed
    have tt: "tx s' t = take (BUFSIZE - 2) w @ crlf" "rl s' t = None" by (simp_all add: view_defs s'_def w'_def)
    have hx: "\<forall>x\<in>#H. tx s' x = tx s x" using s1(5) tx' lim by metis
    show ?thesis
      by (intro disjI2 exI [of _ t] exI [of _ s'] exI [of _ qs'] conjI ev ss(1) s1(6) tt lim(1) hx impI)
        (use al(3) pt in auto)
  qed
qed

section \<open>Reachable states\<close>

definition MQ_start :: MQData where
  "MQ_start = \<lparr>mb_store = (\<lambda>_. None), msglist = [], msgs_alloc = 0, msgs_used = 0, msgs_free = 0, tot_bufsize = 0,
     buf_alloc = (\<lambda>_. 0), buf_used = (\<lambda>_. 0), buf_free = (\<lambda>_. []), mq_sizes = \<lparr>msgs = 0, sizes = (\<lambda>_. 0)\<rparr>\<rparr>"

text \<open>
  \<open>H\<close> is the multiset of messages that callers hold: \<^verbatim>\<open>msgq_make\<close> gives one to its caller,
  \<^verbatim>\<open>msgq_clean\<close> takes it back. A caller appends only before it queues the message.
\<close>

inductive mq_step :: "mq_env \<Rightarrow> mptr multiset \<times> msys \<Rightarrow> mptr multiset \<times> msys \<Rightarrow> bool" for env where
  make: "msgq_vmake env w sys = Some (Inr (p, sys')) \<Longrightarrow> mq_step env (H, sys) (add_mset p H, sys')"
| append: "p \<in># H \<Longrightarrow> rl s p = None \<Longrightarrow> length (tx s p) > 2 \<Longrightarrow> msgq_append w p s = Some s' \<Longrightarrow>
    mq_step env (H, s, qs) (H, s', qs)"
| add: "p \<in># H \<Longrightarrow> i < length qs \<Longrightarrow> msgq_add env p prio (s, qs ! i) = Some (s', mq') \<Longrightarrow>
    mq_step env (H, s, qs) (H, s', qs[i := mq'])"
| clean: "msgq_clean p s = Some s' \<Longrightarrow> mq_step env (add_mset p H, s, qs) (H, s', qs)"
| delete: "i < length qs \<Longrightarrow> msgq_delete n (s, qs ! i) = Some (s', mq') \<Longrightarrow>
    mq_step env (H, s, qs) (H, s', qs[i := mq'])"
| clear_freembs: "mq_step env (H, s, qs) (H, msgq_clear_freembs s, qs)"

inductive mq_reach :: "mq_env \<Rightarrow> mptr multiset \<times> msys \<Rightarrow> bool" for env where
  start: "mq_reach env ({#}, MQ_start, replicate n msgq_init)"
| step: "mq_reach env x \<Longrightarrow> mq_step env x y \<Longrightarrow> mq_reach env y"

inductive_cases mq_stepE: "mq_step env (H, s, qs) y"

lemma sys_start:
  assumes "BUFFERPOOL env + BUFSIZE > 0"
  shows "sys_inv env {#} {} (MQ_start, replicate n msgq_init)"
proof -
  have v: "rf MQ_start = (\<lambda>_. 0)" "rl MQ_start = (\<lambda>_. None)" "pw MQ_start = (\<lambda>_. None)"
    by (simp_all add: view_defs MQ_start_def fun_eq_iff)
  then have e: "live MQ_start = {}" "owners MQ_start p = {}" "of_power MQ_start k = {}" for p k
    by (auto simp: live_def owners_def of_power_def)
  have "all_refs (replicate n msgq_init) = {#}"
    by (induction n) (simp_all add: all_refs_def qrefs_def msgq_init_def)
  moreover have "store_inv MQ_start {#} {#} {}"
    unfolding inv_defs v e by (simp add: MQ_start_def)
  moreover have "queue_ok MQ_start msgq_init" "mq_prio msgq_init = []" "mq_count msgq_init = 0"
    by (simp_all add: queue_ok_def msgs_ok_def pending_def msgq_init_def)
  ultimately show ?thesis
    by (simp add: sys_inv_def MQ_start_def pool_bound_def BUFSIZE_def sum_list_replicate)
qed

lemma mq_step_inv:
  assumes "mq_step env x y" and "sys_inv env (fst x) {} (snd x)" and env: "env_ok env"
  shows "sys_inv env (fst y) {} (snd y)"
  using assms(1,2)
proof cases
  case (make w sys p sys' H)
  obtain s qs where "sys = (s, qs)" by (cases sys)
  then show ?thesis using sys_make [OF _ env, of H s qs w] make assms(2) by auto
next
  case (append p H s w s' qs)
  then show ?thesis using sys_append [of env H s qs p w] assms(2) by auto
next
  case (add p H i qs prio s s' mq')
  then show ?thesis using sys_add [of env H s qs p i prio] assms(2) env by (auto simp: env_ok_def)
next
  case (clean p s s' H qs)
  then show ?thesis using sys_clean [of env p H s qs] assms(2) by auto
next
  case (delete i qs n s s' mq' H)
  then show ?thesis using sys_delete [of env H s qs i n] assms(2) by auto
next
  case (clear_freembs H s qs)
  then show ?thesis using keeps_sysD(1) [OF keeps_clear, of env H "(s, qs)"] assms(2)
    by (simp add: clear_sys_def)
qed

lemma mq_reach_inv:
  assumes "mq_reach env x" and "env_ok env"
  shows "sys_inv env (fst x) {} (snd x)"
  using assms
proof induction
  case (start n)
  then show ?case using sys_start [of env n] by (simp add: BUFSIZE_def)
next
  case (step x y)
  then show ?case using mq_step_inv by blast
qed

definition streams :: "MQData \<Rightarrow> MsgQ list \<Rightarrow> string list" where
  "streams s qs = map (pending s) qs"

lemma streams_update:
  assumes "\<forall>j<length qs. j \<noteq> i \<longrightarrow> pending s' (qs ! j) = pending s (qs ! j)" and "i < length qs"
  shows "streams s' (qs[i := mq']) = (streams s qs)[i := pending s' mq']"
  using assms by (intro nth_equalityI) (auto simp: streams_def nth_list_update)

lemma streams_same:
  "\<forall>j<length qs. pending s' (qs ! j) = pending s (qs ! j) \<Longrightarrow> streams s' qs = streams s qs"
  by (intro nth_equalityI) (auto simp: streams_def)

text \<open>When nothing is held or queued every buffer is on a free list.\<close>

lemma no_refs_no_live:
  assumes "store_inv s {#} {#} {}"
  shows "live s = {}"
proof (rule ccontr)
  have own: "rf s p = card (owners s p)" for p using assms by (simp add: store_inv_def refs_inv_def)
  have cp: "copy_inv s {#} {#}" using assms by (simp add: store_inv_def)
  assume "live s \<noteq> {}"
  then obtain p where "p \<in> live s" by auto
  then have "owners s p \<noteq> {}" using own [of p] by (auto simp: live_def)
  then obtain q where q: "q \<in> live s" "q \<noteq> p" "rl s q = Some p" by (auto simp: owners_def)
  have "owners s q = {}"
    using copy_invD(4) [OF cp] q(3) by (fastforce simp: owners_def)
  then show False using own [of q] q(1) by (simp add: live_def)
qed

lemma take_plist:
  assumes "queue_ok s mq" and "0 < cnt"
  defines "iov \<equiv> take cnt (plist s mq)"
  shows "prefix (concat iov) (pending s mq)" "length iov \<le> cnt"
    "length iov < cnt \<Longrightarrow> concat iov = pending s mq" "concat iov = [] \<longleftrightarrow> pending s mq = []"
proof -
  have "concat (plist s mq) = concat iov @ concat (drop cnt (plist s mq))"
    by (metis append_take_drop_id concat_append iov_def)
  then show "prefix (concat iov) (pending s mq)" by (simp add: concat_plist [symmetric] prefix_def)
  show "length iov \<le> cnt" by (simp add: iov_def)
  show "length iov < cnt \<Longrightarrow> concat iov = pending s mq"
    by (simp add: iov_def min_def concat_plist split: if_splits)
  show "concat iov = [] \<longleftrightarrow> pending s mq = []"
    using plist_nonempty [OF assms(1)] assms(2)
    by (cases "plist s mq"; cases cnt) (auto simp: iov_def concat_plist [symmetric])
qed

section \<open>Properties\<close>

text \<open>C5. The queues of all clients together implement one byte stream per client. In every state
  that is reached by the operations, queueing a held message appends its text to the stream of
  that client, deleting takes bytes off the front of one stream, and the I/O vector shows a prefix
  of the stream, all of it when it has room, and something unless the stream is empty. Releasing a
  message changes no stream. None of the operations fails an assertion or uses a released
  buffer, and no client's stream is changed by an operation on another one although they share
  the buffers.\<close>

theorem msgq_streams:
  assumes "mq_reach env (H, s, qs)" and "env_ok env" and "i < length qs" and "p \<in># H" and "0 < cnt"
  shows "mq_length (qs ! i) = length (streams s qs ! i) \<and>
    (\<exists>s' mq'. msgq_add env p prio (s, qs ! i) = Some (s', mq') \<and>
       streams s' (qs[i := mq']) = (streams s qs)[i := streams s qs ! i @ tx s p]) \<and>
    (\<exists>s' mq'. msgq_delete n (s, qs ! i) = Some (s', mq') \<and>
       streams s' (qs[i := mq']) = (streams s qs)[i := drop n (streams s qs ! i)]) \<and>
    (\<exists>iov. msgq_mapiov s (qs ! i) cnt = Some (iov, length (concat iov)) \<and> length iov \<le> cnt \<and>
       prefix (concat iov) (streams s qs ! i) \<and> (length iov < cnt \<longrightarrow> concat iov = streams s qs ! i) \<and>
       (concat iov = [] \<longleftrightarrow> streams s qs ! i = [])) \<and>
    (\<exists>s'. msgq_clean p s = Some s' \<and> streams s' qs = streams s qs)"
proof -
  have inv: "sys_inv env H {} (s, qs)" using mq_reach_inv [OF assms(1,2)] by simp
  have env: "malloc_ok env" using assms(2) by (simp add: env_ok_def)
  have si: "streams s qs ! i = pending s (qs ! i)" using assms(3) by (simp add: streams_def)
  have q: "queue_ok s (qs ! i)" and l: "local_inv env H (all_refs (others i qs)) (sum_list (map mq_count (others i qs))) s (qs ! i)"
    using inv assms(3) sys_local [OF assms(3)] by (auto simp: sys_inv_def)
  obtain s1 mq1 where a: "msgq_add env p prio (s, qs ! i) = Some (s1, mq1)"
    "pending s1 mq1 = pending s (qs ! i) @ tx s p" "\<forall>j<length qs. j \<noteq> i \<longrightarrow> pending s1 (qs ! j) = pending s (qs ! j)"
    using sys_add [OF inv env assms(4,3)] by blast
  obtain s2 mq2 where d: "msgq_delete n (s, qs ! i) = Some (s2, mq2)"
    "pending s2 mq2 = drop n (pending s (qs ! i))" "\<forall>j<length qs. j \<noteq> i \<longrightarrow> pending s2 (qs ! j) = pending s (qs ! j)"
    using sys_delete [OF inv assms(3)] by blast
  obtain H' where "H = add_mset p H'" using assms(4) by (metis insert_DiffM)
  then obtain s3 where c: "msgq_clean p s = Some s3" "\<forall>j<length qs. pending s3 (qs ! j) = pending s (qs ! j)"
    using sys_clean inv by blast
  show ?thesis
    using q streams_update [OF a(3) assms(3)] streams_update [OF d(3) assms(3)] streams_same [OF c(2)]
      a(1,2) d(1,2) c(1) msgq_mapiov_ok [OF l assms(5)] take_plist [OF q assms(5)]
    unfolding si by (auto simp: queue_ok_def)
qed

definition demo_mq_env :: mq_env where
  "demo_mq_env = \<lparr>MyMalloc = (\<lambda>st. if st 0 = None then 0 else if st 1 = None then 1 else LEAST p. st p = None), BUFFERPOOL = 1000,
     HAS_FERGUSON_FLUSHER = False, mq_flush_connections = (\<lambda>x. x), mq_kill_highest_sendq = (\<lambda>_ x. x)\<rparr>"

definition demo_made :: MQData where
  "demo_made = MQ_start\<lparr>mb_store := [0 \<mapsto> \<lparr>real = None, ref = 1, power = 9, msg_text = ''PING'' @ crlf\<rparr>],
     msglist := [0], tot_bufsize := 512, buf_alloc := (\<lambda>_. 0)(9 := 1), buf_used := (\<lambda>_. 0)(9 := 1)\<rparr>"

lemma demo_mq_env_ok: "env_ok demo_mq_env"
proof -
  have "MyMalloc demo_mq_env st \<notin> dom st" if "finite (dom st)" for st
  proof -
    have "dom st \<noteq> UNIV" using that infinite_UNIV_nat by metis
    then have "\<exists>p. st p = None" by auto
    then have "st (LEAST p. st p = None) = None" by (rule LeastI_ex)
    then show ?thesis by (auto simp: demo_mq_env_def)
  qed
  then show ?thesis by (simp add: env_ok_def malloc_ok_def) (simp add: demo_mq_env_def keeps_id)
qed

lemma demo_make: "msgq_vmake demo_mq_env ''PING'' (MQ_start, qs) = Some (Inr (0, demo_made, qs))"
proof -
  have pw: "find_power (int BUFSIZE) [MB_BASE_SHIFT..<MB_MAX_SHIFT + 1] = 9"
    by code_simp
  have "msgq_alloc demo_mq_env None (int BUFSIZE) MQ_start =
      Some (Some 0, demo_made\<lparr>mb_store := [0 \<mapsto> \<lparr>real = None, ref = 1, power = 9, msg_text = []\<rparr>], msglist := []\<rparr>)"
    unfolding msgq_alloc_def pw
    by (simp add: Let_def alloc_new_def alloc_init_def MQ_start_def demo_mq_env_def demo_made_def new_msgbuf_def
        BUFSIZE_def push_bit_eq_mult mb_upd_def)
  then show ?thesis
    by (simp add: msgq_vmake_def vmake_alloc_def retry_alloc_def fill_text_def bufsize_def crlf_def
        push_bit_eq_mult demo_made_def)
qed

lemma demo_made_reach_n: "mq_reach demo_mq_env ({#0#}, demo_made, replicate n msgq_init)"
  using mq_reach.step [OF mq_reach.start mq_step.make] demo_make by blast

lemma demo_made_reach: "mq_reach demo_mq_env ({#0#}, demo_made, [msgq_init])"
  using demo_made_reach_n [of 1] by simp

lemma demo_made_views:
  "streams demo_made [msgq_init] = [[]]" "tx demo_made 0 = ''PING'' @ crlf"
  by (simp_all add: streams_def pending_def msgq_init_def tx_def demo_made_def)

theorem msgq_streams_witness:
  "(\<exists>s' mq'. msgq_add demo_mq_env 0 False (demo_made, msgq_init) = Some (s', mq') \<and>
     streams s' [mq'] = [''PING'' @ crlf]) \<and>
   (\<exists>iov. msgq_mapiov demo_made msgq_init 1 = Some (iov, length (concat iov)) \<and> concat iov = [])"
  using msgq_streams [OF demo_made_reach demo_mq_env_ok, of 0 0 1 False 0]
  by (auto simp: demo_made_views)

text \<open>C6. The books of the store. In every state that is reached, the reference count of a buffer is
  the number of callers that hold it, of queue entries for it and of buffers it is the copy of.
  The counters of each size class give the buffers in use and allocated, and \<^verbatim>\<open>tot_bufsize\<close> their
  memory, which exceeds the limit BUFFERPOOL by less than one buffer. Once nothing is held and the queues
  are empty, every buffer and every queue entry has been returned: nothing leaks.\<close>

theorem msgq_accounts:
  assumes "mq_reach env (H, s, qs)" and "env_ok env"
  shows "(\<forall>p b. mb_store s p = Some b \<longrightarrow> ref b = count H p + count (all_refs qs) p + card (owners s p)) \<and>
    (\<forall>k. buf_used s k = card (of_power s k \<inter> live s) \<and> buf_alloc s k = buf_used s k + length (buf_free s k)) \<and>
    tot_bufsize s = (\<Sum>k = MB_BASE_SHIFT..MB_MAX_SHIFT. buf_alloc s k * 2 ^ k) \<and>
    tot_bufsize s < BUFFERPOOL env + BUFSIZE \<and>
    msgs_used s = sum_list (map mq_count qs) \<and> msgs_alloc s = msgs_used s + msgs_free s \<and>
    (H = {#} \<and> (\<forall>mq\<in>set qs. mq_length mq = 0) \<longrightarrow> msgs_used s = 0 \<and> msglist s = [] \<and> (\<forall>k. buf_used s k = 0))"
proof -
  have inv: "sys_inv env H {} (s, qs)" using mq_reach_inv [OF assms] by simp
  then have si: "store_inv s H (all_refs qs) {}" and fi: "free_inv s {}" by (auto simp: sys_inv_def store_inv_def)
  note f = free_invD [OF fi]
  have al: "buf_alloc s k = buf_used s k + length (buf_free s k)" for k
  proof -
    have "card (of_power s k) = card (of_power s k \<inter> live s) + card (of_power s k - live s)"
      using card_Int_Diff [OF finite_of_power [OF si]] by simp
    then show ?thesis using f(2-5) [of k] distinct_card [of "buf_free s k"] by simp
  qed
  have empty: "msgs_used s = 0 \<and> msglist s = [] \<and> (\<forall>k. buf_used s k = 0)"
    if "H = {#}" "\<forall>mq\<in>set qs. mq_length mq = 0"
  proof -
    have "mq_queue mq = [] \<and> mq_prio mq = [] \<and> mq_count mq = 0" if "mq \<in> set qs" for mq
    proof -
      have q: "queue_ok s mq" "mq_prio mq = []" "mq_length mq = 0"
        using inv that \<open>\<forall>mq\<in>set qs. mq_length mq = 0\<close> by (auto simp: sys_inv_def)
      then have "plist s mq = []"
        using plist_nonempty [OF q(1)] concat_plist [of s mq] by (cases "plist s mq") (auto simp: queue_ok_def)
      then show ?thesis using q by (auto simp: plist_def queue_ok_def split: list.splits if_splits)
    qed
    then have "all_refs qs = {#}" "sum_list (map mq_count qs) = 0"
      by (induction qs) (auto simp: all_refs_def qrefs_def)
    moreover from this have "live s = {}" using no_refs_no_live si that by simp
    ultimately show ?thesis using inv f(4) by (auto simp: sys_inv_def store_inv_def msglist_inv_def)
  qed
  have "ref b = count H p + count (all_refs qs) p + card (owners s p)" if "mb_store s p = Some b" for p b
    using si views_at(1) [OF that] by (simp add: store_inv_def refs_inv_def)
  then show ?thesis using al empty f(4,6) inv by (auto simp: sys_inv_def pool_bound_def)
qed

theorem msgq_accounts_witness:
  "tot_bufsize demo_made < 1000 + BUFSIZE \<and> buf_used demo_made 9 = card (of_power demo_made 9 \<inter> live demo_made) \<and>
   msgs_used demo_made = 0"
proof -
  have "tot_bufsize demo_made < BUFFERPOOL demo_mq_env + BUFSIZE"
    "\<forall>k. buf_used demo_made k = card (of_power demo_made k \<inter> live demo_made)"
    "msgs_used demo_made = sum_list (map mq_count [msgq_init])"
    using msgq_accounts [OF demo_made_reach demo_mq_env_ok] by blast+
  then show ?thesis by (simp add: demo_mq_env_def msgq_init_def)
qed

text \<open>C30. Making a message never faults. With room in the pool or a free buffer the message is made, its text is the formatted text cut
  to 510 bytes and CR LF, and no stream changes. Otherwise the program ends by \<^verbatim>\<open>server_panic\<close> or
  the message is made after the other queues have been flushed or dropped; the messages others hold
  stay as they are.\<close>

theorem msgq_vmake_text:
  assumes "mq_reach env (H, s, qs)" and "env_ok env"
  shows "((\<exists>m. msgq_vmake env w (s, qs) = Some (Inl m)) \<longrightarrow>
      buf_free s MB_MAX_SHIFT = [] \<and> BUFFERPOOL env \<le> tot_bufsize s) \<and>
    (\<exists>r. msgq_vmake env w (s, qs) = Some r \<and>
      (\<forall>p s' qs'. r = Inr (p, s', qs') \<longrightarrow> tx s' p = take 510 w @ crlf \<and> p \<notin># H \<and>
        length (streams s' qs') = length qs \<and> (\<forall>x\<in>#H. tx s' x = tx s x) \<and>
        (buf_free s MB_MAX_SHIFT \<noteq> [] \<or> tot_bufsize s < BUFFERPOOL env \<longrightarrow> qs' = qs \<and> streams s' qs = streams s qs)))"
proof -
  have "sys_inv env H {} (s, qs)" using mq_reach_inv [OF assms] by simp
  from sys_make [OF this assms(2), of w] show ?thesis
    by (elim disjE exE conjE) (auto simp: streams_def BUFSIZE_def dest: streams_same [unfolded streams_def])
qed

theorem msgq_vmake_text_witness:
  "\<exists>r. msgq_vmake demo_mq_env ''PONG'' (demo_made, [msgq_init]) = Some r \<and>
    (\<forall>p s' qs'. r = Inr (p, s', qs') \<longrightarrow> tx s' p = ''PONG'' @ crlf \<and> p \<noteq> 0 \<and> tx s' 0 = ''PING'' @ crlf)"
  using msgq_vmake_text [OF demo_made_reach demo_mq_env_ok, of "''PONG''"] demo_made_views(2) by auto

end
