(* ===== verification/Send.thy ===== *)
theory Send
  imports DBuf Ircd_String Msgq_Sys
begin

text \<open>
  Sending queued data: \<^verbatim>\<open>deliver_it\<close> of \<^verbatim>\<open>ircd/s_bsd.c\<close> with the two transports below it
  (\<^verbatim>\<open>os_sendv_nonb\<close> and \<^verbatim>\<open>ssl_sendv\<close>), and the part of \<^verbatim>\<open>ircd/send.c\<close> that queues and flushes:
  \<^verbatim>\<open>send_buffer\<close>, \<^verbatim>\<open>send_queued\<close>, \<^verbatim>\<open>flush_connections\<close>, \<^verbatim>\<open>kill_highest_sendq\<close>.

  Local connections are numbered; connection \<open>i\<close> has the send queue \<open>sendQs ! i\<close> over the shared
  store of message buffers. The list \<^verbatim>\<open>send_queues\<close> linked through \<^verbatim>\<open>con_next\<close> is a list of
  numbers, so \<^verbatim>\<open>con_next\<close> is the successor on it and NULL for a connection that is not on it.
  Notices to operators are recorded in the state and not delivered. The kernel and the TLS library
  are parameters with a state of their own.
\<close>

section \<open>State\<close>

datatype IOResult = IO_FAILURE | IO_BLOCKED | IO_SUCCESS

datatype ssl_error =
  SSL_ERROR_NONE nat | SSL_ERROR_WANT_WRITE | SSL_ERROR_WANT_READ | SSL_ERROR_WANT_X509_LOOKUP
| SSL_ERROR_SSL | SSL_ERROR_SYSCALL bool  \<comment> \<open>whether \<^verbatim>\<open>errno\<close> asks to try again\<close>
| SSL_ERROR_ZERO_RETURN | SSL_ERROR_OTHER

record 'k net =
  writev :: "'k \<Rightarrow> int \<Rightarrow> string list \<Rightarrow> 'k \<times> int \<times> bool"  \<comment> \<open>result and \<^verbatim>\<open>is_blocked(errno)\<close>\<close>
  SSL_write :: "'k \<Rightarrow> int \<Rightarrow> string \<Rightarrow> 'k \<times> ssl_error"
  IOV_MAX :: nat
  error_text :: "'k \<Rightarrow> int \<Rightarrow> string"

record conn =
  con_fd :: int
  con_ssl :: bool
  IsDead :: bool
  IsBlocked :: bool
  IsMe :: bool
  IsServer :: bool
  IsUser :: bool
  IsUnknown :: bool
  Closing :: bool
  cli_serv :: bool  \<comment> \<open>whether it is not NULL\<close>
  cli_from :: "nat option"
  cli_name :: string
  cli_info :: string
  cli_lastsq :: nat
  cli_sendM :: nat
  cli_sendB :: nat
  cli_listing :: bool
  want_write :: bool
  cli_recvQ :: dbuf
  get_sendq :: nat

record 'k send_state =
  mqd :: MQData
  sendQs :: "MsgQ list"
  conns :: "conn option list"  \<comment> \<open>\<^verbatim>\<open>LocalClientArray\<close>\<close>
  send_queues :: "nat list"
  dpool :: dbuf_pool
  me_sendM :: nat
  me_sendB :: nat
  notices :: "string list"
  kern :: 'k

definition REALLEN :: nat where "REALLEN = 50"

definition conn_at :: "nat \<Rightarrow> 'k send_state \<Rightarrow> conn option" where
  "conn_at i st = (if i < length (conns st) \<and> i < length (sendQs st) then conns st ! i else None)"

definition upd_conn :: "nat \<Rightarrow> (conn \<Rightarrow> conn) \<Rightarrow> 'k send_state \<Rightarrow> 'k send_state" where
  "upd_conn i f st = st\<lparr>conns := (conns st)[i := map_option f (conns st ! i)]\<rparr>"

section \<open>The list of connections with queued data\<close>

definition client_drop_sendq :: "nat \<Rightarrow> 'k send_state \<Rightarrow> 'k send_state" where
  "client_drop_sendq i st = st\<lparr>send_queues := remove1 i (send_queues st)\<rparr>"

definition client_add_sendq :: "nat \<Rightarrow> 'k send_state \<Rightarrow> 'k send_state" where
  "client_add_sendq i st =
     (if i \<in> set (send_queues st) then st else st\<lparr>send_queues := i # send_queues st\<rparr>)"

fun con_next :: "nat \<Rightarrow> nat list \<Rightarrow> nat option" where
  "con_next i [] = None"
| "con_next i (j # l) = (if i = j then (case l of [] \<Rightarrow> None | k # _ \<Rightarrow> Some k) else con_next i l)"

definition update_write :: "nat \<Rightarrow> 'k send_state \<Rightarrow> 'k send_state" where
  "update_write i st =
     upd_conn i (\<lambda>c. c\<lparr>want_write := (mq_length (sendQs st ! i) \<noteq> 0 \<or> cli_listing c)\<rparr>) st"

section \<open>Delivering\<close>

definition os_sendv_nonb :: "'k net \<Rightarrow> int \<Rightarrow> MsgQ \<Rightarrow> MQData \<Rightarrow> 'k \<Rightarrow> (IOResult \<times> nat \<times> nat \<times> 'k) option" where
  "os_sendv_nonb net fd buf s k =
     do { (iov, count_in) \<leftarrow> msgq_mapiov s buf (IOV_MAX net);
          case writev net k fd iov of (k, res, blocked) \<Rightarrow>
            if -1 < res then Some (IO_SUCCESS, count_in, nat res, k)
            else Some (if blocked then IO_BLOCKED else IO_FAILURE, count_in, 0, k) }"

fun ssl_loop :: "'k net \<Rightarrow> int \<Rightarrow> string list \<Rightarrow> IOResult \<Rightarrow> nat \<Rightarrow> 'k \<Rightarrow> IOResult \<times> nat \<times> 'k" where
  "ssl_loop net fd [] retval count_out k = (retval, count_out, k)"
| "ssl_loop net fd (v # iov) retval count_out k =
     (case SSL_write net k fd v of (k, r) \<Rightarrow>
        (case r of
           SSL_ERROR_NONE n \<Rightarrow> ssl_loop net fd iov IO_SUCCESS (count_out + n) k
         | SSL_ERROR_SSL \<Rightarrow> (IO_FAILURE, count_out, k)
         | SSL_ERROR_SYSCALL again \<Rightarrow> (if again then retval else IO_FAILURE, count_out, k)
         | SSL_ERROR_ZERO_RETURN \<Rightarrow> (IO_FAILURE, count_out, k)
         | _ \<Rightarrow> (retval, count_out, k)))"

definition ssl_sendv :: "'k net \<Rightarrow> int \<Rightarrow> MsgQ \<Rightarrow> MQData \<Rightarrow> 'k \<Rightarrow> (IOResult \<times> nat \<times> nat \<times> 'k) option" where
  "ssl_sendv net fd buf s k =
     do { (iov, count_in) \<leftarrow> msgq_mapiov s buf (IOV_MAX net);
          case ssl_loop net fd iov IO_BLOCKED 0 k of
            (r, count_out, k) \<Rightarrow> Some (r, count_in, count_out, k) }"

definition client_sendv :: "'k net \<Rightarrow> conn \<Rightarrow> MsgQ \<Rightarrow> MQData \<Rightarrow> 'k \<Rightarrow> (IOResult \<times> nat \<times> nat \<times> 'k) option" where
  "client_sendv net c = (if con_ssl c then ssl_sendv net (con_fd c) else os_sendv_nonb net (con_fd c))"

definition deliver_it :: "'k net \<Rightarrow> nat \<Rightarrow> 'k send_state \<Rightarrow> (nat \<times> 'k send_state) option" where
  "deliver_it net i st =
     do { c \<leftarrow> conn_at i st;
          (r, bytes_count, bytes_written, k) \<leftarrow> client_sendv net c (sendQs st ! i) (mqd st) (kern st);
          st \<leftarrow> Some (st\<lparr>kern := k\<rparr>);
          Some (bytes_written,
            (case r of
               IO_SUCCESS \<Rightarrow>
                 upd_conn i (\<lambda>c. c\<lparr>IsBlocked := (bytes_written < bytes_count),
                                  cli_sendB := cli_sendB c + bytes_written\<rparr>)
                   (st\<lparr>me_sendB := me_sendB st + bytes_written\<rparr>)
             | IO_BLOCKED \<Rightarrow> upd_conn i (\<lambda>c. c\<lparr>IsBlocked := True\<rparr>) st
             | IO_FAILURE \<Rightarrow> upd_conn i (\<lambda>c. c\<lparr>IsDead := True\<rparr>) st)) }"

section \<open>Closing a link\<close>

definition set_queue :: "nat \<Rightarrow> MQData \<times> MsgQ \<Rightarrow> 'k send_state \<Rightarrow> 'k send_state" where
  "set_queue i = (\<lambda>(s, mq) st. st\<lparr>mqd := s, sendQs := (sendQs st)[i := mq]\<rparr>)"

definition dead_link :: "nat \<Rightarrow> string \<Rightarrow> 'k send_state \<Rightarrow> 'k send_state option" where
  "dead_link i notice st =
     do { c \<leftarrow> conn_at i st;
          (p, rq) \<leftarrow> Some (DBufClear (dpool st) (cli_recvQ c));
          q \<leftarrow> MsgQClear (mqd st, sendQs st ! i);
          st \<leftarrow> Some (client_drop_sendq i (set_queue i q (st\<lparr>dpool := p\<rparr>)));
          st \<leftarrow> Some (upd_conn i (\<lambda>c. c\<lparr>IsDead := True, cli_recvQ := rq, cli_info := ircd_strncpy (cli_info c) notice (REALLEN + 1)\<rparr>) st);
          Some (if \<not> IsUser c \<and> \<not> IsUnknown c \<and> \<not> Closing c
                then st\<lparr>notices := notices st @ [ircd_strncpy (cli_info c) notice (REALLEN + 1) @ '' for '' @ cli_name c]\<rparr> else st) }"

definition can_send :: "conn \<Rightarrow> bool" where
  "can_send c \<longleftrightarrow> \<not> (IsDead c \<or> IsMe c \<or> con_fd c = -1)"

fun highest_loop :: "bool \<Rightarrow> 'k send_state \<Rightarrow> nat list \<Rightarrow> nat \<Rightarrow> nat option \<Rightarrow> nat option" where
  "highest_loop servers_too st [] highest_sendq highest_client = highest_client"
| "highest_loop servers_too st (i # is) highest_sendq highest_client =
     (case conn_at i st of
        None \<Rightarrow> highest_loop servers_too st is highest_sendq highest_client
      | Some c \<Rightarrow>
          if \<not> servers_too \<and> cli_serv c then highest_loop servers_too st is highest_sendq highest_client
          else if mq_length (sendQs st ! i) > highest_sendq
          then highest_loop servers_too st is (mq_length (sendQs st ! i)) (Some i)
          else highest_loop servers_too st is highest_sendq highest_client)"

definition kill_highest_sendq :: "bool \<Rightarrow> 'k send_state \<Rightarrow> 'k send_state option" where
  "kill_highest_sendq servers_too st =
     (case highest_loop servers_too st (rev [0..<length (conns st)]) 0 None of
        None \<Rightarrow> Some st
      | Some i \<Rightarrow> dead_link i ''Buffer allocation error'' st)"

section \<open>Flushing and queueing\<close>

partial_function (option) send_loop :: "'k net \<Rightarrow> nat \<Rightarrow> 'k send_state \<Rightarrow> 'k send_state option" where
  "send_loop net i st =
     (if mq_length (sendQs st ! i) = 0 then Some (update_write i (client_drop_sendq i st))
      else do { (len, st) \<leftarrow> deliver_it net i st;
                c \<leftarrow> conn_at i st;
                if len \<noteq> 0
                then do { q \<leftarrow> msgq_delete len (mqd st, sendQs st ! i);
                          st \<leftarrow> Some (set_queue i q st);
                          st \<leftarrow> Some (upd_conn i (\<lambda>c. c\<lparr>cli_lastsq := mq_length (sendQs st ! i) div 1024\<rparr>) st);
                          if IsBlocked c then Some (update_write i st) else send_loop net i st }
                else if IsDead c then dead_link i (''Write error: '' @ error_text net (kern st) (con_fd c)) st
                else Some st })"

definition send_queued :: "'k net \<Rightarrow> nat \<Rightarrow> 'k send_state \<Rightarrow> 'k send_state option" where
  "send_queued net i st =
     do { c \<leftarrow> conn_at i st;
          if IsBlocked c \<or> \<not> can_send c then Some st else send_loop net i st }"

text \<open>The loop of \<^verbatim>\<open>flush_connections\<close> reads the successor after the connection has been flushed.\<close>

fun flush_loop :: "nat \<Rightarrow> 'k net \<Rightarrow> nat option \<Rightarrow> 'k send_state \<Rightarrow> 'k send_state option" where
  "flush_loop 0 net con st = None"
| "flush_loop (Suc n) net None st = Some st"
| "flush_loop (Suc n) net (Some i) st =
     (if mq_length (sendQs st ! i) = 0 then None
      else do { st \<leftarrow> send_queued net i st; flush_loop n net (con_next i (send_queues st)) st })"

definition flush_connections :: "'k net \<Rightarrow> nat option \<Rightarrow> 'k send_state \<Rightarrow> 'k send_state option" where
  "flush_connections net cptr st =
     (case cptr of
        Some i \<Rightarrow> send_queued net i st
      | None \<Rightarrow> flush_loop (length (send_queues st) + 1) net
          (case send_queues st of [] \<Rightarrow> None | i # _ \<Rightarrow> Some i) st)"

definition send_buffer :: "mq_env \<Rightarrow> 'k net \<Rightarrow> nat \<Rightarrow> mptr \<Rightarrow> bool \<Rightarrow> 'k send_state \<Rightarrow> 'k send_state option" where
  "send_buffer env net dst buf prio st =
     do { c \<leftarrow> conn_at dst st;
          i \<leftarrow> Some (case cli_from c of None \<Rightarrow> dst | Some j \<Rightarrow> j);
          c \<leftarrow> conn_at i st;
          if \<not> can_send c then Some st
          else if mq_length (sendQs st ! i) > get_sendq c
          then do { st \<leftarrow> Some (if IsServer c then st\<lparr>notices := notices st @ [''Max SendQ limit exceeded'']\<rparr> else st);
                    dead_link i ''Max sendQ exceeded'' st }
          else do { q \<leftarrow> msgq_add env buf prio (mqd st, sendQs st ! i);
                    st \<leftarrow> Some (update_write i (client_add_sendq i (set_queue i q st)));
                    st \<leftarrow> Some (upd_conn i (\<lambda>c. c\<lparr>cli_sendM := cli_sendM c + 1\<rparr>)
                                 (st\<lparr>me_sendM := me_sendM st + 1\<rparr>));
                    if mq_length (sendQs st ! i) div 1024 > cli_lastsq c then send_queued net i st
                    else Some st } }"

section \<open>Bytes on the wire\<close>

text \<open>
  \<open>wire k fd\<close> is what has been accepted for the descriptor. A write accepts a prefix of what it is
  given; a TLS write that succeeds accepts all of it, which is what the library documents when
  partial writes are not enabled.
\<close>

definition appends :: "('k \<Rightarrow> int \<Rightarrow> string) \<Rightarrow> int \<Rightarrow> 'k \<Rightarrow> 'k \<Rightarrow> string \<Rightarrow> bool" where
  "appends wire fd k k' w \<longleftrightarrow> wire k' fd = wire k fd @ w \<and> (\<forall>fd'. fd' \<noteq> fd \<longrightarrow> wire k' fd' = wire k fd')"

lemma appends_Nil [simp]: "appends wire fd k k []"
  by (simp add: appends_def)

lemma appends_trans: "appends wire fd k k1 v \<Longrightarrow> appends wire fd k1 k2 w \<Longrightarrow> appends wire fd k k2 (v @ w)"
  by (simp add: appends_def)

definition net_ok :: "'k net \<Rightarrow> ('k \<Rightarrow> int \<Rightarrow> string) \<Rightarrow> bool" where
  "net_ok net wire \<longleftrightarrow> IOV_MAX net > 0 \<and>
     (\<forall>k fd iov k' res bl. writev net k fd iov = (k', res, bl) \<longrightarrow>
        res \<le> int (length (concat iov)) \<and> appends wire fd k k' (take (nat res) (concat iov))) \<and>
     (\<forall>k fd v k' r. SSL_write net k fd v = (k', r) \<longrightarrow>
        (case r of SSL_ERROR_NONE n \<Rightarrow> n = length v \<and> appends wire fd k k' v | _ \<Rightarrow> appends wire fd k k' []))"

definition accepts :: "'k net \<Rightarrow> bool" where
  "accepts net \<longleftrightarrow> (\<forall>k fd iov. \<exists>k' bl. writev net k fd iov = (k', int (length (concat iov)), bl)) \<and>
     (\<forall>k fd v. \<exists>k'. SSL_write net k fd v = (k', SSL_ERROR_NONE (length v)))"

lemma ssl_loop_wire:
  assumes ok: "net_ok net wire" and "ssl_loop net fd iov rv n k = (r, m, k')"
  shows "\<exists>j. m = n + j \<and> j \<le> length (concat iov) \<and> appends wire fd k k' (take j (concat iov))"
  using assms(2)
proof (induction iov arbitrary: rv n k)
  case Nil
  then show ?case by simp
next
  case (Cons v iov)
  obtain k1 e where w: "SSL_write net k fd v = (k1, e)" by fastforce
  have law: "case e of SSL_ERROR_NONE n \<Rightarrow> n = length v \<and> appends wire fd k k1 v | _ \<Rightarrow> appends wire fd k k1 []"
    using ok w unfolding net_ok_def by blast
  show ?case
  proof (cases "\<exists>x. e = SSL_ERROR_NONE x")
    case True
    then obtain x where e: "e = SSL_ERROR_NONE x" by auto
    then have "ssl_loop net fd iov IO_SUCCESS (n + x) k1 = (r, m, k')" using Cons.prems w by simp
    from Cons.IH [OF this] obtain j where j: "m = n + x + j" "j \<le> length (concat iov)"
      "appends wire fd k1 k' (take j (concat iov))" by auto
    then show ?thesis using law e appends_trans [of wire fd k k1 v k'] by (intro exI [of _ "length v + j"]) simp
  next
    case False
    then have "m = n \<and> k' = k1 \<and> appends wire fd k k1 []"
      using Cons.prems w law by (cases e) (auto split: if_splits)
    then show ?thesis by auto
  qed
qed

lemma ssl_loop_all:
  assumes ok: "accepts net" and "ssl_loop net fd iov rv n k = (r, m, k')"
  shows "m = n + length (concat iov) \<and> (iov \<noteq> [] \<longrightarrow> r = IO_SUCCESS)"
  using assms(2)
proof (induction iov arbitrary: rv n k)
  case (Cons v iov)
  obtain k1 where "SSL_write net k fd v = (k1, SSL_ERROR_NONE (length v))"
    using ok unfolding accepts_def by blast
  then have "ssl_loop net fd iov IO_SUCCESS (n + length v) k1 = (r, m, k')" using Cons.prems by simp
  from Cons.IH [OF this] this show ?case by (cases iov) auto
qed simp

lemma client_sendv_wire:
  assumes net: "net_ok net wire" and inv: "local_inv env H R U s mq"
  shows "\<exists>r ci co k'. client_sendv net c mq s k = Some (r, ci, co, k') \<and> co \<le> ci \<and> ci \<le> length (pending s mq) \<and>
    (ci = 0 \<longleftrightarrow> pending s mq = []) \<and> appends wire (con_fd c) k k' (take co (pending s mq)) \<and>
    (accepts net \<and> pending s mq \<noteq> [] \<longrightarrow> r = IO_SUCCESS \<and> co = ci)"
proof -
  have io: "IOV_MAX net > 0" using net by (simp add: net_ok_def)
  have q: "queue_ok s mq" using inv by (simp add: local_inv_def)
  define iov where "iov = take (IOV_MAX net) (plist s mq)"
  note m = msgq_mapiov_ok [OF inv io, folded iov_def] and t = take_plist [OF q io, folded iov_def]
  have tk: "take j (pending s mq) = take j (concat iov)" if "j \<le> length (concat iov)" for j
    using t(1) that by (auto simp: prefix_def)
  have ci: "length (concat iov) \<le> length (pending s mq)" using t(1) by (auto simp: prefix_def)
  have c0: "length (concat iov) = 0 \<longleftrightarrow> pending s mq = []" and ne: "pending s mq \<noteq> [] \<Longrightarrow> iov \<noteq> []"
    using t(4) by (simp_all only: length_0_conv) auto
  show ?thesis
  proof (cases "con_ssl c")
    case True
    obtain r co k' where l: "ssl_loop net (con_fd c) iov IO_BLOCKED 0 k = (r, co, k')"
      by (metis prod_cases3)
    have "client_sendv net c mq s k = Some (r, length (concat iov), co, k')"
      using True m l by (simp add: client_sendv_def ssl_sendv_def)
    moreover have "co \<le> length (concat iov)" "appends wire (con_fd c) k k' (take co (concat iov))"
      using ssl_loop_wire [OF net l] by auto
    moreover have "accepts net \<and> pending s mq \<noteq> [] \<longrightarrow> r = IO_SUCCESS \<and> co = length (concat iov)"
    proof (intro impI, elim conjE)
      assume "accepts net" and "pending s mq \<noteq> []"
      then show "r = IO_SUCCESS \<and> co = length (concat iov)" using ssl_loop_all [OF _ l] ne by simp
    qed
    ultimately show ?thesis using tk [of co] ci c0 by (metis (no_types, lifting))
  next
    case False
    obtain k' res bl where w: "writev net k (con_fd c) iov = (k', res, bl)" by (metis prod_cases3)
    have law: "res \<le> int (length (concat iov))" "appends wire (con_fd c) k k' (take (nat res) (concat iov))"
      using net w unfolding net_ok_def by blast+
    have all: "accepts net \<longrightarrow> res = int (length (concat iov))"
      using w unfolding accepts_def by (metis Pair_inject)
    define r where "r = (if -1 < res then IO_SUCCESS else if bl then IO_BLOCKED else IO_FAILURE)"
    have "client_sendv net c mq s k = Some (r, length (concat iov), nat res, k')"
      using False m w by (simp add: client_sendv_def os_sendv_nonb_def r_def)
    moreover have "nat res \<le> length (concat iov)" using law(1) by simp
    moreover have "accepts net \<longrightarrow> r = IO_SUCCESS \<and> nat res = length (concat iov)" using all by (simp add: r_def)
    ultimately show ?thesis using law(2) tk [of "nat res"] ci c0 by (metis (no_types, lifting))
  qed
qed

section \<open>Flushing one connection\<close>

definition con_id :: "conn \<Rightarrow> int \<times> nat option" where
  [simp]: "con_id c = (con_fd c, cli_from c)"

definition send_inv :: "mq_env \<Rightarrow> mptr multiset \<Rightarrow> 'k send_state \<Rightarrow> bool" where
  "send_inv env H st \<longleftrightarrow> sys_inv env H {} (mqd st, sendQs st) \<and> length (conns st) = length (sendQs st)"

abbreviation "out st i \<equiv> pending (mqd st) (sendQs st ! i)"

text \<open>What changes the state of connection \<open>i\<close> only, and no message that is held.\<close>

definition only :: "mptr multiset \<Rightarrow> nat \<Rightarrow> 'k send_state \<Rightarrow> 'k send_state \<Rightarrow> bool" where
  "only H i st st' \<longleftrightarrow> length (sendQs st') = length (sendQs st) \<and> length (conns st') = length (conns st) \<and>
     (\<forall>j<length (sendQs st). j \<noteq> i \<longrightarrow> out st' j = out st j \<and> conns st' ! j = conns st ! j) \<and>
     (\<forall>x. x \<noteq> i \<longrightarrow> (x \<in> set (send_queues st') \<longleftrightarrow> x \<in> set (send_queues st))) \<and>
     (\<forall>x\<in>#H. tx (mqd st') x = tx (mqd st) x)"

lemma only_trans: "only H i st st' \<Longrightarrow> only H i st' st'' \<Longrightarrow> only H i st st''"
  unfolding only_def by auto

lemma conn_at_cong:
  "conns st' = conns st \<Longrightarrow> length (sendQs st') = length (sendQs st) \<Longrightarrow> conn_at i st' = conn_at i st"
  by (simp add: conn_at_def)

lemma drop_sendq_simps [simp]:
  "mqd (client_drop_sendq i st) = mqd st" "sendQs (client_drop_sendq i st) = sendQs st"
  "kern (client_drop_sendq i st) = kern st" "conns (client_drop_sendq i st) = conns st"
  "send_queues (client_drop_sendq i st) = remove1 i (send_queues st)"
  "conn_at j (client_drop_sendq i st) = conn_at j st"
  by (simp_all add: client_drop_sendq_def conn_at_def)

lemma conn_at_upd [simp]:
  "conn_at i st = Some c \<Longrightarrow> conn_at i (upd_conn i f st) = Some (f c)"
  by (auto simp: conn_at_def upd_conn_def split: if_splits)

lemma upd_conn_simps [simp]:
  "mqd (upd_conn i f st) = mqd st" "sendQs (upd_conn i f st) = sendQs st" "kern (upd_conn i f st) = kern st"
  "send_queues (upd_conn i f st) = send_queues st" "length (conns (upd_conn i f st)) = length (conns st)"
  by (simp_all add: upd_conn_def)

lemma only_upd: "only H i st (upd_conn i f st)"
  by (simp add: only_def upd_conn_def)

lemma only_drop: "only H i st (client_drop_sendq i st)"
  by (auto simp: only_def client_drop_sendq_def)

lemma send_inv_cong:
  "mqd st' = mqd st \<Longrightarrow> sendQs st' = sendQs st \<Longrightarrow> length (conns st') = length (conns st) \<Longrightarrow>
    send_inv env H st' = send_inv env H st"
  by (simp add: send_inv_def)

lemma conn_at_less: "conn_at i st = Some c \<Longrightarrow> i < length (sendQs st) \<and> i < length (conns st)"
  by (simp add: conn_at_def split: if_splits)

lemma send_local:
  assumes "send_inv env H st" and "i < length (sendQs st)"
  shows "local_inv env H (all_refs (Msgq_Sys.others i (sendQs st))) (sum_list (map mq_count (Msgq_Sys.others i (sendQs st)))) (mqd st) (sendQs st ! i)"
    "mq_length (sendQs st ! i) = length (out st i)"
  using assms sys_local [OF assms(2), of env H "mqd st"]
  by (auto simp: send_inv_def local_inv_def queue_ok_def)

lemma deliver_ok:
  assumes net: "net_ok net wire" and inv: "send_inv env H st" and c: "conn_at i st = Some c"
  shows "\<exists>len st' c'. deliver_it net i st = Some (len, st') \<and> send_inv env H st' \<and> only H i st st' \<and>
    mqd st' = mqd st \<and> sendQs st' = sendQs st \<and> send_queues st' = send_queues st \<and>
    conn_at i st' = Some c' \<and> con_id c' = con_id c \<and> len \<le> length (out st i) \<and>
    appends wire (con_fd c) (kern st) (kern st') (take len (out st i)) \<and>
    (accepts net \<and> out st i \<noteq> [] \<longrightarrow> len \<noteq> 0 \<and> \<not> IsBlocked c' \<and> IsDead c' = IsDead c)"
proof -
  note i = conn_at_less [OF c]
  obtain r ci co k' where d: "client_sendv net c (sendQs st ! i) (mqd st) (kern st) = Some (r, ci, co, k')"
    "co \<le> ci" "ci \<le> length (out st i)" "ci = 0 \<longleftrightarrow> out st i = []"
    "appends wire (con_fd c) (kern st) k' (take co (out st i))"
    "accepts net \<and> out st i \<noteq> [] \<longrightarrow> r = IO_SUCCESS \<and> co = ci"
    using client_sendv_wire [OF net send_local(1) [OF inv conjunct1 [OF i]], of c "kern st"] by blast
  define st1 where "st1 = st\<lparr>kern := k', me_sendB := (if r = IO_SUCCESS then me_sendB st + co else me_sendB st)\<rparr>"
  define f where "f = (\<lambda>c :: conn. case r of IO_SUCCESS \<Rightarrow> c\<lparr>IsBlocked := (co < ci), cli_sendB := cli_sendB c + co\<rparr>
     | IO_BLOCKED \<Rightarrow> c\<lparr>IsBlocked := True\<rparr> | IO_FAILURE \<Rightarrow> c\<lparr>IsDead := True\<rparr>)"
  have "deliver_it net i st = Some (co, upd_conn i f st1)"
    using c d(1) by (cases r) (simp_all add: deliver_it_def st1_def f_def)
  moreover have "conn_at i st1 = conn_at i st" by (simp add: conn_at_def st1_def)
  then have c1: "conn_at i st1 = Some c" using c by simp
  moreover have "only H i st (upd_conn i f st1)"
    by (rule only_trans [OF _ only_upd]) (simp add: only_def st1_def)
  moreover have "con_id (f c) = con_id c" by (cases r) (simp_all add: f_def)
  moreover have "accepts net \<and> out st i \<noteq> [] \<longrightarrow> co \<noteq> 0 \<and> \<not> IsBlocked (f c) \<and> IsDead (f c) = IsDead c"
    using d(4,6) by (auto simp: f_def)
  moreover have "send_inv env H (upd_conn i f st1)" using inv by (simp add: send_inv_def st1_def)
  moreover have "mqd st1 = mqd st" "sendQs st1 = sendQs st" "kern st1 = k'" "send_queues st1 = send_queues st"
    by (simp_all add: st1_def)
  ultimately show ?thesis using d(2,3,5) by auto
qed

lemma set_queue_ok:
  assumes inv: "send_inv env H st" and i: "i < length (sendQs st)"
    and s: "sys_inv env H' {} (s', (sendQs st)[i := mq'])"
    and o: "\<forall>j<length (sendQs st). j \<noteq> i \<longrightarrow> pending s' (sendQs st ! j) = out st j"
    and tx: "\<forall>x\<in>#H. tx s' x = tx (mqd st) x"
  shows "send_inv env H' (set_queue i (s', mq') st)" "only H i st (set_queue i (s', mq') st)"
    "out (set_queue i (s', mq') st) i = pending s' mq'" "conn_at j (set_queue i (s', mq') st) = conn_at j st"
    "kern (set_queue i (s', mq') st) = kern st" "send_queues (set_queue i (s', mq') st) = send_queues st"
  using assms by (auto simp: set_queue_def send_inv_def only_def conn_at_def)

lemma queue_delete_ok:
  assumes inv: "send_inv env H st" and i: "i < length (sendQs st)"
  shows "\<exists>q. msgq_delete n (mqd st, sendQs st ! i) = Some q \<and> send_inv env H (set_queue i q st) \<and>
    only H i st (set_queue i q st) \<and> out (set_queue i q st) i = drop n (out st i) \<and>
    (\<forall>j. conn_at j (set_queue i q st) = conn_at j st) \<and> kern (set_queue i q st) = kern st \<and>
    send_queues (set_queue i q st) = send_queues st"
proof -
  have "sys_inv env H {} (mqd st, sendQs st)" using inv by (simp add: send_inv_def)
  from sys_delete [OF this i, of n] obtain s' mq' where
    d: "msgq_delete n (mqd st, sendQs st ! i) = Some (s', mq')" "sys_inv env H {} (s', (sendQs st)[i := mq'])"
      "pending s' mq' = drop n (out st i)" "\<forall>j<length (sendQs st). j \<noteq> i \<longrightarrow> pending s' (sendQs st ! j) = out st j"
      "tx s' = tx (mqd st)" by blast
  have "\<forall>x\<in>#H. tx s' x = tx (mqd st) x" using d(5) by simp
  note q = set_queue_ok [OF inv i d(2,4) this]
  show ?thesis using d(1,3) q by (intro exI [of _ "(s', mq')"]) simp
qed

lemma dead_link_ok:
  assumes inv: "send_inv env H st" and c: "conn_at i st = Some c"
  shows "\<exists>st' c'. dead_link i n st = Some st' \<and> send_inv env H st' \<and> only H i st st' \<and> out st' i = [] \<and>
    conn_at i st' = Some c' \<and> IsDead c' \<and> con_id c' = con_id c \<and> kern st' = kern st \<and>
    send_queues st' = remove1 i (send_queues st)"
proof -
  note i = conjunct1 [OF conn_at_less [OF c]]
  obtain p rq where db: "DBufClear (dpool st) (cli_recvQ c) = (p, rq)" by fastforce
  have inv0: "send_inv env H (st\<lparr>dpool := p\<rparr>)" using inv by (simp add: send_inv_def)
  from queue_delete_ok [OF inv0, of i "mq_length (sendQs st ! i)"] i obtain q where
    q: "MsgQClear (mqd st, sendQs st ! i) = Some q" "send_inv env H (set_queue i q (st\<lparr>dpool := p\<rparr>))"
      "only H i (st\<lparr>dpool := p\<rparr>) (set_queue i q (st\<lparr>dpool := p\<rparr>))" "out (set_queue i q (st\<lparr>dpool := p\<rparr>)) i = []"
      "conn_at i (set_queue i q (st\<lparr>dpool := p\<rparr>)) = conn_at i (st\<lparr>dpool := p\<rparr>)"
      "kern (set_queue i q (st\<lparr>dpool := p\<rparr>)) = kern st"
      "send_queues (set_queue i q (st\<lparr>dpool := p\<rparr>)) = send_queues st"
    using send_local(2) [OF inv i] by (auto simp: MsgQClear_def)
  define st1 where "st1 = set_queue i q (st\<lparr>dpool := p\<rparr>)"
  define f where "f = (\<lambda>d :: conn. d\<lparr>IsDead := True, cli_recvQ := rq, cli_info := ircd_strncpy (cli_info d) n (REALLEN + 1)\<rparr>)"
  define st2 where "st2 = upd_conn i f (client_drop_sendq i st1)"
  define st' where "st' = (if \<not> IsUser c \<and> \<not> IsUnknown c \<and> \<not> Closing c
     then st2\<lparr>notices := notices st2 @ [ircd_strncpy (cli_info c) n (REALLEN + 1) @ '' for '' @ cli_name c]\<rparr> else st2)"
  have dl: "dead_link i n st = Some st'"
    using c db q(1) by (simp add: dead_link_def st'_def st2_def st1_def f_def)
  have same: "mqd st' = mqd st1" "sendQs st' = sendQs st1" "kern st' = kern st1" "conns st' = conns st2"
    "send_queues st' = remove1 i (send_queues st1)"
    by (simp_all add: st'_def st2_def client_drop_sendq_def)
  have st1c: "conn_at i (client_drop_sendq i st1) = Some c"
  proof -
    have "conn_at i (client_drop_sendq i st1) = conn_at i st1" by simp
    also have "\<dots> = conn_at i st" using q(5) by (simp add: st1_def conn_at_def)
    finally show ?thesis using c by simp
  qed
  then have "conn_at i st' = Some (f c)"
    using conn_at_upd [OF st1c, of f] same conn_at_cong [of st' st2] by (simp add: st2_def)
  moreover have "only H i st st'"
  proof -
    have "only H i st st1" using q(3) by (simp add: only_def st1_def)
    then have "only H i st st2" unfolding st2_def by (rule only_trans [OF only_trans [OF _ only_drop] only_upd])
    then show ?thesis by (simp add: only_def st'_def)
  qed
  moreover have "send_inv env H st'"
    using q(2) same send_inv_cong [of st' st1] by (simp add: st1_def st2_def client_drop_sendq_def)
  ultimately show ?thesis using dl same q(4,6,7) by (auto simp: st1_def f_def)
qed

text \<open>
  What a run of \<open>send_loop\<close> does: some prefix of the stream goes to the wire, the rest stays queued
  unless the link is closed for an error.
\<close>

definition sent_ok :: "('k \<Rightarrow> int \<Rightarrow> string) \<Rightarrow> mq_env \<Rightarrow> mptr multiset \<Rightarrow> nat \<Rightarrow> conn \<Rightarrow> nat \<Rightarrow> 'k send_state \<Rightarrow> 'k send_state \<Rightarrow> bool" where
  "sent_ok wire env H i c n st st' \<longleftrightarrow> send_inv env H st' \<and> only H i st st' \<and> n \<le> length (out st i) \<and>
     appends wire (con_fd c) (kern st) (kern st') (take n (out st i)) \<and>
     (\<exists>c'. conn_at i st' = Some c' \<and> con_id c' = con_id c \<and> (out st' i = drop n (out st i) \<or> IsDead c' \<and> out st' i = []))"

lemma sent_ok_trans:
  assumes a: "sent_ok wire env H i c n st st1" "out st1 i = drop n (out st i)" "con_id c1 = con_id c"
    and b: "sent_ok wire env H i c1 m st1 st2"
  shows "sent_ok wire env H i c (n + m) st st2"
proof -
  have "take (n + m) (out st i) = take n (out st i) @ take m (drop n (out st i))" by (simp add: take_add)
  then show ?thesis using assms only_trans appends_trans [of wire "con_fd c" "kern st" "kern st1"]
    unfolding sent_ok_def by (auto simp: add.commute)
qed

lemma update_write_ok:
  "conn_at i st = Some c \<Longrightarrow> \<exists>c'. conn_at i (update_write i st) = Some c' \<and> con_id c' = con_id c \<and> IsDead c' = IsDead c"
  "mqd (update_write i st) = mqd st" "sendQs (update_write i st) = sendQs st" "kern (update_write i st) = kern st"
  "length (conns (update_write i st)) = length (conns st)" "send_queues (update_write i st) = send_queues st"
  "only H i st (update_write i st)"
  by (auto simp: update_write_def only_upd)

lemma sent_ok_here:
  assumes "send_inv env H st'" "only H i st st'" "out st' i = out st i" "kern st' = kern st"
    "conn_at i st' = Some c'" "con_id c' = con_id c"
  shows "sent_ok wire env H i c 0 st st'"
  using assms by (simp add: sent_ok_def)

lemma send_loop_end:
  assumes "mq_length (sendQs st ! i) = 0" and inv: "send_inv env H st" and c: "conn_at i st = Some c"
  shows "send_loop net i st = Some (update_write i (client_drop_sendq i st)) \<and>
    sent_ok wire env H i c 0 st (update_write i (client_drop_sendq i st))"
proof -
  let ?d = "client_drop_sendq i st"
  have d: "mqd ?d = mqd st" "sendQs ?d = sendQs st" "kern ?d = kern st" "conns ?d = conns st" by simp_all
  have c1: "conn_at i ?d = Some c" using c by simp
  then obtain c' where c': "conn_at i (update_write i ?d) = Some c'" "con_id c' = con_id c"
    using update_write_ok(1) [OF c1] by blast
  have "send_inv env H (update_write i ?d)"
    using inv d send_inv_cong [of "update_write i ?d" st] update_write_ok(2-5) by metis
  moreover have "only H i st (update_write i ?d)" by (rule only_trans [OF only_drop update_write_ok(7)])
  ultimately have "sent_ok wire env H i c 0 st (update_write i ?d)"
    using d update_write_ok(2-4) [of i ?d] by (intro sent_ok_here [OF _ _ _ _ c']) simp_all
  then show ?thesis using assms(1) by (simp add: send_loop.simps [of net i st])
qed

lemma send_step:
  assumes net: "net_ok net wire" and inv: "send_inv env H st" and c: "conn_at i st = Some c"
    and ne: "mq_length (sendQs st ! i) \<noteq> 0"
  shows "(\<exists>st'. \<not> accepts net \<and> send_loop net i st = Some st' \<and> (\<exists>n. sent_ok wire env H i c n st st')) \<or>
    (\<exists>st' c' n. send_loop net i st = send_loop net i st' \<and> sent_ok wire env H i c n st st' \<and> n > 0 \<and>
       out st' i = drop n (out st i) \<and> conn_at i st' = Some c' \<and> con_id c' = con_id c \<and>
       send_queues st' = send_queues st \<and> (accepts net \<longrightarrow> IsDead c' = IsDead c))"
proof -
  note i = conjunct1 [OF conn_at_less [OF c]]
  have nonempty: "out st i \<noteq> []" using ne send_local(2) [OF inv i] by auto
  obtain len st1 c1 where d: "deliver_it net i st = Some (len, st1)" "send_inv env H st1" "only H i st st1"
    "mqd st1 = mqd st" "sendQs st1 = sendQs st" "send_queues st1 = send_queues st" "conn_at i st1 = Some c1"
    "con_id c1 = con_id c" "len \<le> length (out st i)"
    "appends wire (con_fd c) (kern st) (kern st1) (take len (out st i))"
    "accepts net \<and> out st i \<noteq> [] \<longrightarrow> len \<noteq> 0 \<and> \<not> IsBlocked c1 \<and> IsDead c1 = IsDead c"
    using deliver_ok [OF net inv c] by blast
  have i1: "i < length (sendQs st1)" using i d(5) by simp
  show ?thesis
  proof (cases "len = 0")
    case True
    then have na: "\<not> accepts net" using d(11) nonempty by auto
    show ?thesis
    proof (cases "IsDead c1")
      case dead: True
      from dead_link_ok [OF d(2,7), of "''Write error: '' @ error_text net (kern st1) (con_fd c1)"] obtain st2 c2 where
        l: "dead_link i (''Write error: '' @ error_text net (kern st1) (con_fd c1)) st1 = Some st2"
          "send_inv env H st2" "only H i st1 st2" "out st2 i = []" "conn_at i st2 = Some c2" "IsDead c2"
          "con_id c2 = con_id c1" "kern st2 = kern st1" by blast
      have "send_loop net i st = Some st2"
        using ne d(1,7) True dead l(1) by (simp add: send_loop.simps [of net i st])
      moreover have "sent_ok wire env H i c 0 st st2"
        using l d(8,10) True only_trans [OF d(3) l(3)] by (auto simp: sent_ok_def)
      ultimately show ?thesis using na by blast
    next
      case alive: False
      have "send_loop net i st = Some st1"
        using ne d(1,7) True alive by (simp add: send_loop.simps [of net i st])
      moreover have "sent_ok wire env H i c 0 st st1"
        using d True by (simp add: sent_ok_def)
      ultimately show ?thesis using na by blast
    qed
  next
    case False
    from queue_delete_ok [OF d(2) i1, of len] obtain q where
      q: "msgq_delete len (mqd st1, sendQs st1 ! i) = Some q" "send_inv env H (set_queue i q st1)"
        "only H i st1 (set_queue i q st1)" "out (set_queue i q st1) i = drop len (out st1 i)"
        "conn_at i (set_queue i q st1) = conn_at i st1" "kern (set_queue i q st1) = kern st1"
        "send_queues (set_queue i q st1) = send_queues st1" by blast
    define st2 where "st2 = upd_conn i (\<lambda>c. c\<lparr>cli_lastsq := mq_length (sendQs (set_queue i q st1) ! i) div 1024\<rparr>) (set_queue i q st1)"
    define c2 where "c2 = c1\<lparr>cli_lastsq := mq_length (sendQs (set_queue i q st1) ! i) div 1024\<rparr>"
    have c2: "conn_at i st2 = Some c2" "con_id c2 = con_id c" "IsDead c2 = IsDead c1"
      using q(5) d(7,8) by (simp_all add: st2_def c2_def)
    have ok: "sent_ok wire env H i c len st st2"
    proof -
      have "only H i st st2" unfolding st2_def by (rule only_trans [OF only_trans [OF d(3) q(3)] only_upd])
      moreover have "send_inv env H st2" using q(2) send_inv_cong [of st2 "set_queue i q st1"] by (simp add: st2_def)
      ultimately show ?thesis using q(4,6) d(4,5,9,10) c2 by (simp add: sent_ok_def st2_def)
    qed
    have out2: "out st2 i = drop len (out st i)" using q(4) d(4,5) by (simp add: st2_def)
    have loop: "send_loop net i st = (if IsBlocked c1 then Some (update_write i st2) else send_loop net i st2)"
      using ne d(1,7) False q(1) by (simp add: send_loop.simps [of net i st] st2_def)
    show ?thesis
    proof (cases "IsBlocked c1")
      case True
      then have na: "\<not> accepts net" using d(11) nonempty by auto
      obtain c3 where c3: "conn_at i (update_write i st2) = Some c3" "con_id c3 = con_id c2"
        using update_write_ok(1) [OF c2(1)] by blast
      have "sent_ok wire env H i c2 0 st2 (update_write i st2)"
        using ok update_write_ok(2-5) [of i st2] send_inv_cong [of "update_write i st2" st2]
        by (intro sent_ok_here [OF _ update_write_ok(7) _ _ c3]) (simp_all add: sent_ok_def)
      from sent_ok_trans [OF ok out2 c2(2) this] show ?thesis using na True loop by auto
    next
      case nb: False
      have "send_queues st2 = send_queues st" using q(7) d(6) by (simp add: st2_def)
      then show ?thesis using loop nb ok False out2 c2 d(11) nonempty by auto
    qed
  qed
qed

lemma send_loop_ok:
  assumes net: "net_ok net wire" and inv: "send_inv env H st" and c: "conn_at i st = Some c"
  shows "\<exists>st' n. send_loop net i st = Some st' \<and> sent_ok wire env H i c n st st' \<and>
    (accepts net \<longrightarrow> out st' i = [] \<and> n = length (out st i) \<and> send_queues st' = remove1 i (send_queues st) \<and>
      (\<exists>c'. conn_at i st' = Some c' \<and> IsDead c' = IsDead c))"
  using inv c
proof (induction "length (out st i)" arbitrary: st c rule: less_induct)
  case less
  note i = conjunct1 [OF conn_at_less [OF less.prems(2)]]
  show ?case
  proof (cases "mq_length (sendQs st ! i) = 0")
    case True
    then have e: "out st i = []" using send_local(2) [OF less.prems(1) i] by simp
    let ?d = "client_drop_sendq i st"
    have "conn_at i ?d = Some c" using less.prems(2) by simp
    then show ?thesis using send_loop_end [OF True less.prems, of net wire] e update_write_ok(1) [of i ?d c]
      by (auto simp: update_write_ok(2-6))
  next
    case False
    from send_step [OF net less.prems False] show ?thesis
    proof (elim disjE exE conjE, goal_cases)
      case (1 st' n)
      then show ?thesis by blast
    next
      case (2 st1 c1 n)
      have ne: "out st i \<noteq> []" using False send_local(2) [OF less.prems(1) i] by auto
      have n: "n \<le> length (out st i)" using 2(2) by (simp add: sent_ok_def)
      have "length (out st1 i) < length (out st i)" using 2(3,4) ne by simp
      moreover have "send_inv env H st1" using 2(2) by (simp add: sent_ok_def)
      ultimately obtain st' m where
        r: "send_loop net i st1 = Some st'" "sent_ok wire env H i c1 m st1 st'"
          "accepts net \<longrightarrow> out st' i = [] \<and> m = length (out st1 i) \<and> send_queues st' = remove1 i (send_queues st1) \<and>
            (\<exists>c'. conn_at i st' = Some c' \<and> IsDead c' = IsDead c1)"
        using less.hyps 2(5) by blast
      show ?thesis
        using sent_ok_trans [OF 2(2,4,6) r(2)] 2(1,4,7,8) r(1,3) n by (intro exI [of _ st'] exI [of _ "n + m"]) auto
    qed
  qed
qed

section \<open>Queueing a message\<close>

lemma queue_add_ok:
  assumes inv: "send_inv env H st" and env: "malloc_ok env" and p: "p \<in># H" and i: "i < length (sendQs st)"
  shows "\<exists>q. msgq_add env p prio (mqd st, sendQs st ! i) = Some q \<and> send_inv env H (set_queue i q st) \<and>
    only H i st (set_queue i q st) \<and> out (set_queue i q st) i = out st i @ tx (mqd st) p \<and>
    (\<forall>j. conn_at j (set_queue i q st) = conn_at j st) \<and> kern (set_queue i q st) = kern st \<and>
    length (tx (mqd st) p) \<le> BUFSIZE"
proof -
  have si: "sys_inv env H {} (mqd st, sendQs st)" using inv by (simp add: send_inv_def)
  from sys_add [OF this env p i, of prio] obtain s' mq' where
    d: "msgq_add env p prio (mqd st, sendQs st ! i) = Some (s', mq')" "sys_inv env H {} (s', (sendQs st)[i := mq'])"
      "pending s' mq' = out st i @ tx (mqd st) p"
      "\<forall>j<length (sendQs st). j \<noteq> i \<longrightarrow> pending s' (sendQs st ! j) = out st j"
      "\<forall>x\<in>live (mqd st). tx s' x = tx (mqd st) x" by blast
  have store: "store_inv (mqd st) H (all_refs (sendQs st)) {}" using si by (simp add: sys_inv_def)
  have tx: "\<forall>x\<in>#H. tx s' x = tx (mqd st) x" using d(5) store_inv_live [OF store] by simp
  have "p \<in> live (mqd st)" using store_inv_live [OF store, of p] p by simp
  moreover from this obtain b where "mb_store (mqd st) p = Some b" by (rule live_storeE)
  ultimately have "length (tx (mqd st) p) \<le> BUFSIZE"
    using live_text_bounds(3) [OF store] views_at(3) by metis
  then show ?thesis using d(1,3) set_queue_ok [OF inv i d(2,4) tx] by (intro exI [of _ "(s', mq')"]) simp
qed

lemma add_sendq_simps [simp]:
  "mqd (client_add_sendq i st) = mqd st" "sendQs (client_add_sendq i st) = sendQs st"
  "kern (client_add_sendq i st) = kern st" "conns (client_add_sendq i st) = conns st"
  "conn_at j (client_add_sendq i st) = conn_at j st"
  by (auto simp: client_add_sendq_def conn_at_def)

lemma only_add: "only H i st (client_add_sendq i st)"
  by (auto simp: only_def client_add_sendq_def)

text \<open>The state in which \<^verbatim>\<open>send_buffer\<close> has queued the message and updated the statistics.\<close>

definition queued :: "nat \<Rightarrow> MQData \<times> MsgQ \<Rightarrow> 'k send_state \<Rightarrow> 'k send_state" where
  "queued i q st =
     (let st1 = update_write i (client_add_sendq i (set_queue i q st))
      in upd_conn i (\<lambda>c. c\<lparr>cli_sendM := cli_sendM c + 1\<rparr>) (st1\<lparr>me_sendM := me_sendM st1 + 1\<rparr>))"

lemma queued_ok:
  assumes inv: "send_inv env H (set_queue i q st)" and o: "only H i st (set_queue i q st)"
    and c: "conn_at i (set_queue i q st) = Some c"
  shows "send_inv env H (queued i q st)" "only H i st (queued i q st)" "out (queued i q st) i = out (set_queue i q st) i"
    "kern (queued i q st) = kern (set_queue i q st)" "sendQs (queued i q st) = sendQs (set_queue i q st)"
    "\<exists>c'. conn_at i (queued i q st) = Some c' \<and> con_id c' = con_id c \<and> IsDead c' = IsDead c \<and>
       IsBlocked c' = IsBlocked c \<and> can_send c' = can_send c"
proof -
  define a where "a = client_add_sendq i (set_queue i q st)"
  define w where "w = update_write i a"
  define m where "m = w\<lparr>me_sendM := me_sendM w + 1\<rparr>"
  have qd: "queued i q st = upd_conn i (\<lambda>c. c\<lparr>cli_sendM := cli_sendM c + 1\<rparr>) m"
    by (simp add: queued_def Let_def a_def w_def m_def)
  have same: "mqd m = mqd (set_queue i q st)" "sendQs m = sendQs (set_queue i q st)"
    "kern m = kern (set_queue i q st)" "length (conns m) = length (conns (set_queue i q st))"
    using update_write_ok(2-5) [of i a] by (simp_all add: m_def w_def a_def)
  then show "send_inv env H (queued i q st)" "out (queued i q st) i = out (set_queue i q st) i"
    "kern (queued i q st) = kern (set_queue i q st)" "sendQs (queued i q st) = sendQs (set_queue i q st)"
    using inv by (simp_all add: qd send_inv_def)
  have "only H i st m"
  proof -
    have "only H i st w" unfolding w_def a_def
      by (rule only_trans [OF only_trans [OF o only_add] update_write_ok(7)])
    then show ?thesis by (simp add: only_def m_def)
  qed
  then show "only H i st (queued i q st)" unfolding qd by (rule only_trans [OF _ only_upd])
  have ca: "conn_at i a = Some c" using c by (simp add: a_def)
  have "conn_at i w = Some (c\<lparr>want_write := (mq_length (sendQs a ! i) \<noteq> 0 \<or> cli_listing c)\<rparr>)"
    unfolding w_def update_write_def by (rule conn_at_upd [OF ca])
  then have "conn_at i m = Some (c\<lparr>want_write := (mq_length (sendQs a ! i) \<noteq> 0 \<or> cli_listing c)\<rparr>)"
    using conn_at_cong [of m w i] by (simp add: m_def)
  from conn_at_upd [OF this] show "\<exists>c'. conn_at i (queued i q st) = Some c' \<and> con_id c' = con_id c \<and>
      IsDead c' = IsDead c \<and> IsBlocked c' = IsBlocked c \<and> can_send c' = can_send c"
    unfolding qd by (auto simp: can_send_def)
qed

lemma send_queued_ok:
  assumes net: "net_ok net wire" and inv: "send_inv env H st" and c: "conn_at i st = Some c"
  shows "\<exists>st' n. send_queued net i st = Some st' \<and> sent_ok wire env H i c n st st'"
proof (cases "IsBlocked c \<or> \<not> can_send c")
  case True
  have "sent_ok wire env H i c 0 st st"
    using inv c by (intro sent_ok_here) (auto simp: only_def)
  then show ?thesis using True c by (auto simp: send_queued_def)
next
  case False
  then show ?thesis using send_loop_ok [OF net inv c] c by (auto simp: send_queued_def)
qed

lemma send_buffer_ok:
  assumes net: "net_ok net wire" and inv: "send_inv env H st" and env: "malloc_ok env" and p: "p \<in># H"
    and d: "conn_at dst st = Some d" and i: "i = (case cli_from d of None \<Rightarrow> dst | Some j \<Rightarrow> j)"
    and c: "conn_at i st = Some c" and cs: "can_send c" and room: "mq_length (sendQs st ! i) \<le> get_sendq c"
  shows "\<exists>st' c' n. send_buffer env net dst p prio st = Some st' \<and> send_inv env H st' \<and> only H i st st' \<and>
    appends wire (con_fd c) (kern st) (kern st') (take n (out st i @ tx (mqd st) p)) \<and>
    conn_at i st' = Some c' \<and> con_id c' = con_id c \<and>
    (out st' i = drop n (out st i @ tx (mqd st) p) \<or> IsDead c' \<and> out st' i = []) \<and>
    mq_length (sendQs st' ! i) \<le> get_sendq c + BUFSIZE"
proof -
  note il = conjunct1 [OF conn_at_less [OF c]]
  obtain q where q: "msgq_add env p prio (mqd st, sendQs st ! i) = Some q" "send_inv env H (set_queue i q st)"
    "only H i st (set_queue i q st)" "out (set_queue i q st) i = out st i @ tx (mqd st) p"
    "conn_at i (set_queue i q st) = conn_at i st" "kern (set_queue i q st) = kern st" "length (tx (mqd st) p) \<le> BUFSIZE"
    using queue_add_ok [OF inv env p il] by blast
  have cq: "conn_at i (set_queue i q st) = Some c" using q(5) c by simp
  note k = queued_ok [OF q(2,3) cq]
  obtain c1 where c1: "conn_at i (queued i q st) = Some c1" "con_id c1 = con_id c" using k(6) by blast
  have len: "length (out (queued i q st) i) \<le> get_sendq c + BUFSIZE"
    using k(3) q(4,7) room send_local(2) [OF inv il] by simp
  have ev: "send_buffer env net dst p prio st =
      (if mq_length (sendQs (queued i q st) ! i) div 1024 > cli_lastsq c then send_queued net i (queued i q st)
       else Some (queued i q st))"
    using d i c cs room q(1) by (simp add: send_buffer_def queued_def Let_def split: option.splits)
  obtain st' n where s: "send_buffer env net dst p prio st = Some st'" "sent_ok wire env H i c1 n (queued i q st) st'"
  proof (cases "mq_length (sendQs (queued i q st) ! i) div 1024 > cli_lastsq c")
    case True
    then show ?thesis using send_queued_ok [OF net k(1) c1(1)] ev that by auto
  next
    case False
    have "sent_ok wire env H i c1 0 (queued i q st) (queued i q st)"
      using k(1) c1(1) by (intro sent_ok_here) (auto simp: only_def)
    then show ?thesis using ev False that by auto
  qed
  then obtain c' where c': "conn_at i st' = Some c'"
      "out st' i = drop n (out (queued i q st) i) \<or> IsDead c' \<and> out st' i = []" "con_id c' = con_id c1"
    and inv': "send_inv env H st'" and o': "only H i (queued i q st) st'"
    and w: "appends wire (con_fd c1) (kern (queued i q st)) (kern st') (take n (out (queued i q st) i))"
    unfolding sent_ok_def by blast
  have "i < length (sendQs st')" using conn_at_less [OF c'(1)] by simp
  then have "mq_length (sendQs st' ! i) \<le> get_sendq c + BUFSIZE"
    using send_local(2) [OF inv'] c'(2) len by auto
  then show ?thesis using s(1) inv' only_trans [OF k(2) o'] w c' c1(2) k(3,4) q(4,6) by auto
qed

section \<open>Properties\<close>

definition demo_net :: "(int \<Rightarrow> string) net" where
  "demo_net = \<lparr>writev = (\<lambda>k fd iov. (k(fd := k fd @ concat iov), int (length (concat iov)), False)),
     SSL_write = (\<lambda>k fd v. (k(fd := k fd @ v), SSL_ERROR_NONE (length v))), IOV_MAX = 16, error_text = (\<lambda>_ _. [])\<rparr>"

definition demo_conn :: conn where
  "demo_conn = \<lparr>con_fd = 4, con_ssl = False, IsDead = False, IsBlocked = False, IsMe = False, IsServer = False,
     IsUser = True, IsUnknown = False, Closing = False, cli_serv = False, cli_from = None, cli_name = ''ann'',
     cli_info = [], cli_lastsq = 0, cli_sendM = 0, cli_sendB = 0, cli_listing = False, want_write = False,
     cli_recvQ = empty_dbuf, get_sendq = 40000\<rparr>"

definition demo_send :: "(int \<Rightarrow> string) send_state" where
  "demo_send = \<lparr>mqd = demo_made, sendQs = [msgq_init], conns = [Some demo_conn], send_queues = [],
     dpool = demo_pool, me_sendM = 0, me_sendB = 0, notices = [], kern = (\<lambda>_. [])\<rparr>"

lemma demo_net_ok: "net_ok demo_net (\<lambda>k fd. k fd)" "accepts demo_net"
  by (auto simp: net_ok_def accepts_def demo_net_def appends_def)

lemma demo_send_parts:
  "mq_reach demo_mq_env ({#0#}, mqd demo_send, sendQs demo_send)" "length (conns demo_send) = length (sendQs demo_send)"
  "conn_at 0 demo_send = Some demo_conn" "\<not> IsBlocked demo_conn" "can_send demo_conn"
  "out demo_send 0 = []" "tx (mqd demo_send) 0 = ''PING'' @ crlf" "kern demo_send 4 = []" "con_fd demo_conn = 4"
  using demo_made_reach demo_made_views
  by (simp_all add: demo_send_def conn_at_def demo_conn_def can_send_def streams_def)

text \<open>C7. Flushing a connection that is open and not blocked always ends. Whatever the kernel or
  the TLS library answers, the bytes that went to the wire are a prefix of the stream, in order and
  without loss or repetition, and the rest is still queued unless the link was closed for a write
  error. When the peer accepts what is written, everything is sent: the queue is empty and the connection leaves the list of those with
  queued data. No other connection is affected.\<close>

theorem send_queued_drains:
  assumes "mq_reach env (H, mqd st, sendQs st)" and "env_ok env" and "length (conns st) = length (sendQs st)"
    and "net_ok net wire" and "conn_at i st = Some c" and "\<not> IsBlocked c" and "can_send c"
  shows "\<exists>st' c' n. send_queued net i st = Some st' \<and> only H i st st' \<and> conn_at i st' = Some c' \<and>
    appends wire (con_fd c) (kern st) (kern st') (take n (out st i)) \<and>
    (out st' i = drop n (out st i) \<or> IsDead c' \<and> out st' i = []) \<and>
    (accepts net \<longrightarrow> out st' i = [] \<and> n = length (out st i) \<and> \<not> IsDead c' \<and>
       send_queues st' = remove1 i (send_queues st))"
proof -
  have inv: "send_inv env H st" using mq_reach_inv [OF assms(1,2)] assms(3) by (simp add: send_inv_def)
  from send_loop_ok [OF assms(4) inv assms(5)] obtain st' n where s: "send_loop net i st = Some st'"
    "sent_ok wire env H i c n st st'"
    "accepts net \<longrightarrow> out st' i = [] \<and> n = length (out st i) \<and> send_queues st' = remove1 i (send_queues st) \<and>
      (\<exists>c'. conn_at i st' = Some c' \<and> IsDead c' = IsDead c)" by blast
  obtain c' where c': "conn_at i st' = Some c'" "out st' i = drop n (out st i) \<or> IsDead c' \<and> out st' i = []"
      "only H i st st'" "appends wire (con_fd c) (kern st) (kern st') (take n (out st i))"
    using s(2) unfolding sent_ok_def by blast
  have "send_queued net i st = Some st'" using s(1) assms(5-7) by (simp add: send_queued_def)
  then show ?thesis using c' s(3) assms(7) by (intro exI [of _ st'] exI [of _ c'] exI [of _ n]) (auto simp: can_send_def)
qed

theorem send_queued_drains_witness:
  "\<exists>st'. send_queued demo_net 0 demo_send = Some st' \<and> out st' 0 = [] \<and> kern st' 4 = []"
  using send_queued_drains [OF demo_send_parts(1) demo_mq_env_ok demo_send_parts(2) demo_net_ok(1) demo_send_parts(3-5)]
    demo_net_ok(2) demo_send_parts(6,8,9) by (auto simp: appends_def)

text \<open>C31. Sending a message to a connection that can take data and whose queue is within its limit
  appends the text to the stream, flushes at most a prefix of it to the wire, and leaves the queue
  at most one message over the limit. Connections other than the destination are not affected.\<close>

theorem send_buffer_stream:
  assumes "mq_reach env (H, mqd st, sendQs st)" and "env_ok env" and "length (conns st) = length (sendQs st)"
    and "net_ok net wire" and "p \<in># H" and "conn_at dst st = Some d" and "conn_at i st = Some c"
    and "i = (case cli_from d of None \<Rightarrow> dst | Some j \<Rightarrow> j)"
    and "can_send c" and "mq_length (sendQs st ! i) \<le> get_sendq c"
  shows "\<exists>st' c' n. send_buffer env net dst p prio st = Some st' \<and> only H i st st' \<and> conn_at i st' = Some c' \<and>
    appends wire (con_fd c) (kern st) (kern st') (take n (out st i @ tx (mqd st) p)) \<and>
    (out st' i = drop n (out st i @ tx (mqd st) p) \<or> IsDead c' \<and> out st' i = []) \<and>
    mq_length (sendQs st' ! i) \<le> get_sendq c + 512"
proof -
  have inv: "send_inv env H st" using mq_reach_inv [OF assms(1,2)] assms(3) by (simp add: send_inv_def)
  have "malloc_ok env" using assms(2) by (simp add: env_ok_def)
  from send_buffer_ok [OF assms(4) inv this assms(5,6,8,7,9,10)] show ?thesis
    unfolding BUFSIZE_def by blast
qed

theorem send_buffer_stream_witness:
  "\<exists>st' n. send_buffer demo_mq_env demo_net 0 0 False demo_send = Some st' \<and>
    kern st' 4 = take n (''PING'' @ crlf) \<and> mq_length (sendQs st' ! 0) \<le> 40512"
proof -
  have p: "0 \<in># {#0#}" and f: "0 = (case cli_from demo_conn of None \<Rightarrow> 0 | Some j \<Rightarrow> j)"
    and r: "mq_length (sendQs demo_send ! 0) \<le> get_sendq demo_conn" "get_sendq demo_conn = 40000"
    by (simp_all add: demo_conn_def demo_send_def msgq_init_def)
  show ?thesis
    using send_buffer_stream [OF demo_send_parts(1) demo_mq_env_ok demo_send_parts(2) demo_net_ok(1) p
        demo_send_parts(3,3) f demo_send_parts(5) r(1), of False] demo_send_parts(6-9) r(2)
    by (auto simp: appends_def)
qed

text \<open>\<^verbatim>\<open>flush_connections\<close> for all connections stops after the first one that it empties, because
  emptying it takes the connection off the list and clears the link the loop follows: the
  connections behind it keep their data although the peers would accept it.\<close>

lemma flush_stops_early:
  assumes "mq_reach env (H, mqd st, sendQs st)" and "env_ok env" and "length (conns st) = length (sendQs st)"
    and "net_ok net wire" and "accepts net" and "send_queues st = i # rest" and "distinct (i # rest)"
    and "conn_at i st = Some c" and "\<not> IsBlocked c" and "can_send c" and "mq_length (sendQs st ! i) \<noteq> 0"
  shows "\<exists>st'. flush_connections net None st = Some st' \<and> out st' i = [] \<and> send_queues st' = rest \<and>
    (\<forall>j<length (sendQs st). j \<noteq> i \<longrightarrow> out st' j = out st j)"
proof -
  have inv: "send_inv env H st" using mq_reach_inv [OF assms(1,2)] assms(3) by (simp add: send_inv_def)
  from send_loop_ok [OF assms(4) inv assms(8)] obtain st' n where s: "send_loop net i st = Some st'"
    "sent_ok wire env H i c n st st'" "out st' i = []" "send_queues st' = remove1 i (send_queues st)"
    using assms(5) by blast
  have sq: "send_queued net i st = Some st'" using s(1) assms(8-10) by (simp add: send_queued_def)
  have r: "send_queues st' = rest" using s(4) assms(6) by simp
  have "con_next i l = None" if "i \<notin> set l" for l using that by (induction l) auto
  then have "con_next i rest = None" using assms(7) by simp
  then have "flush_connections net None st = Some st'"
    using sq r assms(6,11) by (simp add: flush_connections_def)
  then show ?thesis using s(2,3) r by (auto simp: sent_ok_def only_def)
qed

text \<open>Two connections with the same message queued; the second one keeps it.\<close>

lemma flush_stops_early_witness:
  "\<exists>(st :: (int \<Rightarrow> string) send_state) st'. out st 0 = ''PING'' @ crlf \<and> out st 1 = ''PING'' @ crlf \<and> send_queues st = [0, 1] \<and>
    flush_connections demo_net None st = Some st' \<and> out st' 0 = [] \<and> out st' 1 = ''PING'' @ crlf"
proof -
  have m: "malloc_ok demo_mq_env" using demo_mq_env_ok by (simp add: env_ok_def)
  have r0: "mq_reach demo_mq_env ({#0#}, demo_made, [msgq_init, msgq_init])"
    using demo_made_reach_n [of 2] by (simp add: numeral_2_eq_2)
  have p: "0 \<in># {#0#}" by simp
  have e: "pending s msgq_init = []" for s by (simp add: pending_def msgq_init_def)
  have i0: "sys_inv demo_mq_env {#0#} {} (demo_made, [msgq_init, msgq_init])"
    using mq_reach_inv [OF r0 demo_mq_env_ok] by simp
  have live0: "0 \<in> live demo_made" by (simp add: live_def rf_def demo_made_def)
  obtain s1 q1 where a1: "msgq_add demo_mq_env 0 False (demo_made, msgq_init) = Some (s1, q1)"
    "sys_inv demo_mq_env {#0#} {} (s1, [q1, msgq_init])" "\<forall>x\<in>live demo_made. tx s1 x = tx demo_made x"
    "pending s1 q1 = ''PING'' @ crlf"
    using sys_add [OF i0 m p, of 0 False] e demo_made_views(2) by auto
  have r1: "mq_reach demo_mq_env ({#0#}, s1, [q1, msgq_init])"
    using mq_reach.step [OF r0 mq_step.add [OF p, of 0 _ demo_mq_env False demo_made s1 q1]] a1(1) by simp
  obtain s2 q2 where a2: "msgq_add demo_mq_env 0 False (s1, msgq_init) = Some (s2, q2)"
    "sys_inv demo_mq_env {#0#} {} (s2, [q1, q2])" "pending s2 q2 = ''PING'' @ crlf" "pending s2 q1 = ''PING'' @ crlf"
    using sys_add [OF a1(2) m p, of 1 False] e a1(3,4) demo_made_views(2) live0 by (fastforce simp: less_2_cases_iff)
  have r2: "mq_reach demo_mq_env ({#0#}, s2, [q1, q2])"
    using mq_reach.step [OF r1 mq_step.add [OF p, of 1 _ demo_mq_env False s1 s2 q2]] a2(1) by simp
  define st where "st = demo_send\<lparr>mqd := s2, sendQs := [q1, q2], conns := [Some demo_conn, Some demo_conn], send_queues := [0, 1]\<rparr>"
  have "queue_ok s2 q1" using a2(2) by (simp add: sys_inv_def)
  then have "mq_length (sendQs st ! 0) \<noteq> 0" using a2(4) by (simp add: st_def queue_ok_def crlf_def)
  moreover have "conn_at 0 st = Some demo_conn" by (simp add: conn_at_def st_def)
  moreover have "mq_reach demo_mq_env ({#0#}, mqd st, sendQs st)" using r2 by (simp add: st_def)
  ultimately obtain st' where "flush_connections demo_net None st = Some st'" "out st' 0 = []"
      "\<forall>j<length (sendQs st). j \<noteq> 0 \<longrightarrow> out st' j = out st j"
    using flush_stops_early [of demo_mq_env "{#0#}" st demo_net "\<lambda>k fd. k fd" 0 "[1]" demo_conn]
      demo_mq_env_ok demo_net_ok demo_send_parts(4,5) by (auto simp: st_def)
  then show ?thesis using a2(3,4) by (intro exI [of _ st] exI [of _ st']) (simp add: st_def)
qed

section \<open>Sending to all servers\<close>

text \<open>
  The loops of \<^verbatim>\<open>sendcmdto_flag_serv_butone\<close> and \<^verbatim>\<open>sendcmdto_serv_butone\<close> over the downlinks, for
  a message that has been made. \<open>one\<close> is \<^verbatim>\<open>cli_from(one)\<close>, or \<open>None\<close> when \<^verbatim>\<open>one\<close> is NULL;
  \<open>last_flag\<close> is FLAG_LAST_FLAG and \<open>has_flag\<close> the test of a flag of a client.
\<close>

fun flag_downlinks :: "mq_env \<Rightarrow> 'k net \<Rightarrow> nat \<Rightarrow> (nat \<Rightarrow> nat \<Rightarrow> bool) \<Rightarrow> nat option \<Rightarrow> nat \<Rightarrow> nat \<Rightarrow> mptr \<Rightarrow>
    nat list \<Rightarrow> 'k send_state \<Rightarrow> 'k send_state option" where
  "flag_downlinks env net last_flag has_flag one require forbid mb [] st = Some st"
| "flag_downlinks env net last_flag has_flag one require forbid mb (lp # lps) st =
     (if one = Some lp then flag_downlinks env net last_flag has_flag one require forbid mb lps st
      else if require < last_flag \<and> \<not> has_flag lp require
      then flag_downlinks env net last_flag has_flag one require forbid mb lps st
      else if forbid < last_flag \<and> has_flag lp forbid
      then flag_downlinks env net last_flag has_flag one require forbid mb lps st
      else do { st \<leftarrow> send_buffer env net lp mb False st;
                flag_downlinks env net last_flag has_flag one require forbid mb lps st })"

fun serv_downlinks :: "mq_env \<Rightarrow> 'k net \<Rightarrow> nat option \<Rightarrow> mptr \<Rightarrow> nat list \<Rightarrow> 'k send_state \<Rightarrow> 'k send_state option" where
  "serv_downlinks env net one mb [] st = Some st"
| "serv_downlinks env net one mb (lp # lps) st =
     (if one = Some lp then serv_downlinks env net one mb lps st
      else do { st \<leftarrow> send_buffer env net lp mb False st; serv_downlinks env net one mb lps st })"

fun send_each :: "(nat \<Rightarrow> 's \<Rightarrow> 's option) \<Rightarrow> nat list \<Rightarrow> 's \<Rightarrow> 's option" where
  "send_each send [] s = Some s"
| "send_each send (i # is) s = do { s \<leftarrow> send i s; send_each send is s }"

lemma flag_downlinks_each:
  "flag_downlinks env net last_flag has_flag one require forbid mb lps st =
    send_each (\<lambda>i. send_buffer env net i mb False)
      (filter (\<lambda>i. one \<noteq> Some i \<and> (require < last_flag \<longrightarrow> has_flag i require) \<and> (forbid < last_flag \<longrightarrow> \<not> has_flag i forbid)) lps) st"
  by (induction lps arbitrary: st) (auto cong: Option.bind_cong)

lemma serv_downlinks_each:
  "serv_downlinks env net one mb lps st =
    send_each (\<lambda>i. send_buffer env net i mb False) (filter (\<lambda>i. one \<noteq> Some i) lps) st"
  by (induction lps arbitrary: st) (auto cong: Option.bind_cong)

text \<open>
  What sending one message to one link has to promise for it to be sent to many: while a link is up,
  what has been sent and queued on it grows by the message, and the other links do not change.
\<close>

locale link_layer =
  fixes send :: "nat \<Rightarrow> 's \<Rightarrow> 's option" and good :: "'s \<Rightarrow> bool" and link :: "'s \<Rightarrow> nat \<Rightarrow> bool"
    and up :: "'s \<Rightarrow> nat \<Rightarrow> bool" and total :: "'s \<Rightarrow> nat \<Rightarrow> string" and m :: string
  assumes send_link: "good s \<Longrightarrow> link s i \<Longrightarrow>
    \<exists>s'. send i s = Some s' \<and> good s' \<and> (\<forall>j. link s' j = link s j) \<and>
      (up s' i \<longrightarrow> up s i \<and> total s' i = total s i @ m) \<and>
      (\<forall>j. j \<noteq> i \<longrightarrow> link s j \<longrightarrow> up s' j = up s j \<and> total s' j = total s j)"
begin

lemma send_all:
  assumes "good s" and "\<forall>i\<in>set is. link s i" and "distinct is"
  shows "\<exists>s'. send_each send is s = Some s' \<and> good s' \<and> (\<forall>j. link s' j = link s j) \<and>
    (\<forall>j. link s j \<longrightarrow> up s' j \<longrightarrow> up s j \<and> total s' j = total s j @ (if j \<in> set is then m else []))"
  using assms
proof (induction "is" arbitrary: s)
  case Nil
  then show ?case by auto
next
  case (Cons i "is")
  then obtain s1 where s1: "send i s = Some s1" "good s1" "\<forall>j. link s1 j = link s j"
      "up s1 i \<longrightarrow> up s i \<and> total s1 i = total s i @ m"
      "\<forall>j. j \<noteq> i \<longrightarrow> link s j \<longrightarrow> up s1 j = up s j \<and> total s1 j = total s j"
    using send_link [of s i] by auto
  then obtain s' where s': "send_each send is s1 = Some s'" "good s'" "\<forall>j. link s' j = link s1 j"
      "\<forall>j. link s1 j \<longrightarrow> up s' j \<longrightarrow> up s1 j \<and> total s' j = total s1 j @ (if j \<in> set is then m else [])"
    using Cons.IH [of s1] Cons.prems by auto
  have "up s j \<and> total s' j = total s j @ (if j \<in> set (i # is) then m else [])" if "link s j" "up s' j" for j
    using s1(3-5) s'(3,4) that Cons.prems(3) by (cases "j = i") auto
  then show ?case using s1 s' by auto
qed

end

section \<open>The links of the model\<close>

definition own_fds :: "'k send_state \<Rightarrow> bool" where
  "own_fds st \<longleftrightarrow> (\<forall>i j c d. conn_at i st = Some c \<longrightarrow> conn_at j st = Some d \<longrightarrow> i \<noteq> j \<longrightarrow>
     con_fd c = con_fd d \<longrightarrow> con_fd c = -1)"

definition direct :: "'k send_state \<Rightarrow> nat \<Rightarrow> bool" where
  "direct st i \<longleftrightarrow> (\<exists>c. conn_at i st = Some c \<and> (cli_from c = None \<or> cli_from c = Some i))"

definition link_up :: "'k send_state \<Rightarrow> nat \<Rightarrow> bool" where
  "link_up st i \<longleftrightarrow> (\<exists>c. conn_at i st = Some c \<and> can_send c)"

text \<open>All that has been sent on a link or is queued for it.\<close>

definition link_total :: "('k \<Rightarrow> int \<Rightarrow> string) \<Rightarrow> 'k send_state \<Rightarrow> nat \<Rightarrow> string" where
  "link_total wire st i = (case conn_at i st of None \<Rightarrow> [] | Some c \<Rightarrow> wire (kern st) (con_fd c) @ out st i)"

definition link_good :: "mq_env \<Rightarrow> 'k net \<Rightarrow> ('k \<Rightarrow> int \<Rightarrow> string) \<Rightarrow> mptr multiset \<Rightarrow> mptr \<Rightarrow> string \<Rightarrow> 'k send_state \<Rightarrow> bool" where
  "link_good env net wire H p m st \<longleftrightarrow> net_ok net wire \<and> malloc_ok env \<and> send_inv env H st \<and> p \<in># H \<and>
     tx (mqd st) p = m \<and> own_fds st"

lemma only_conn:
  assumes "only H i st st'" "send_inv env H st" "j \<noteq> i"
  shows "conn_at j st' = conn_at j st"
  using assms by (auto simp: only_def conn_at_def send_inv_def)

lemma only_links:
  assumes o: "only H i st st'" and inv: "send_inv env H st" and c: "conn_at i st = Some c"
    and c': "conn_at i st' = Some c'" "con_id c' = con_id c"
  shows "own_fds st' = own_fds st" "direct st' j = direct st j"
proof -
  have "map_option con_id (conn_at k st') = map_option con_id (conn_at k st)" for k
    using only_conn [OF o inv, of k] c c' by (cases "k = i") auto
  note e = this
  have d: "(\<exists>d. conn_at k st' = Some d \<and> con_id d = x) \<longleftrightarrow> (\<exists>d. conn_at k st = Some d \<and> con_id d = x)" for k x
    using e [of k] by (cases "conn_at k st'"; cases "conn_at k st") auto
  have "own_fds s = (\<forall>i j x y. (\<exists>d. conn_at i s = Some d \<and> con_id d = x) \<longrightarrow> (\<exists>d. conn_at j s = Some d \<and> con_id d = y) \<longrightarrow>
      i \<noteq> j \<longrightarrow> fst x = fst y \<longrightarrow> fst x = -1)" for s :: "'a send_state"
    unfolding own_fds_def by (auto; metis fst_conv)
  then show "own_fds st' = own_fds st" by (simp only: d)
  have "direct s j = (\<exists>x. (\<exists>d. conn_at j s = Some d \<and> con_id d = x) \<and> (snd x = None \<or> snd x = Some j))" for s :: "'a send_state"
    unfolding direct_def by auto
  then show "direct st' j = direct st j" by (simp only: d)
qed

lemma only_link:
  assumes good: "link_good env net wire H p m st" and o: "only H i st st'" and inv': "send_inv env H st'"
    and c: "conn_at i st = Some c" "con_fd c \<noteq> -1" and c': "conn_at i st' = Some c'" "con_id c' = con_id c"
    and w: "appends wire (con_fd c) (kern st) (kern st') v"
  shows "link_good env net wire H p m st'" "\<forall>j. direct st' j = direct st j"
    "\<forall>j. j \<noteq> i \<longrightarrow> link_up st' j = link_up st j \<and> (direct st j \<longrightarrow> link_total wire st' j = link_total wire st j)"
    "link_total wire st' i = wire (kern st) (con_fd c) @ v @ out st' i"
proof -
  have inv: "send_inv env H st" and fds: "own_fds st" using good by (simp_all add: link_good_def)
  note l = only_links [OF o inv c(1) c']
  show "link_good env net wire H p m st'"
    using good inv' l(1) o by (auto simp: link_good_def only_def)
  show "\<forall>j. direct st' j = direct st j" using l(2) by blast
  show "link_total wire st' i = wire (kern st) (con_fd c) @ v @ out st' i"
    using c' w by (simp add: link_total_def appends_def)
  show "\<forall>j. j \<noteq> i \<longrightarrow> link_up st' j = link_up st j \<and> (direct st j \<longrightarrow> link_total wire st' j = link_total wire st j)"
  proof (intro allI impI conjI)
    fix j assume ji: "j \<noteq> i"
    note cj = only_conn [OF o inv ji]
    then show "link_up st' j = link_up st j" by (simp add: link_up_def)
    assume "direct st j"
    then obtain d where d: "conn_at j st = Some d" by (auto simp: direct_def)
    then have "con_fd d \<noteq> con_fd c" using fds c ji unfolding own_fds_def by metis
    then have "wire (kern st') (con_fd d) = wire (kern st) (con_fd d)" using w by (simp add: appends_def)
    moreover have "out st' j = out st j" using o conn_at_less [OF d] ji by (simp add: only_def)
    ultimately show "link_total wire st' j = link_total wire st j" using d cj by (simp add: link_total_def)
  qed
qed

lemma send_buffer_link:
  assumes good: "link_good env net wire H p m st" and dir: "direct st i"
  shows "\<exists>st'. send_buffer env net i p False st = Some st' \<and> link_good env net wire H p m st' \<and>
    (\<forall>j. direct st' j = direct st j) \<and>
    (link_up st' i \<longrightarrow> link_up st i \<and> link_total wire st' i = link_total wire st i @ m) \<and>
    (\<forall>j. j \<noteq> i \<longrightarrow> direct st j \<longrightarrow> link_up st' j = link_up st j \<and> link_total wire st' j = link_total wire st j)"
proof -
  have g: "net_ok net wire" "malloc_ok env" "send_inv env H st" "p \<in># H" "tx (mqd st) p = m"
    using good by (simp_all add: link_good_def)
  obtain c where c: "conn_at i st = Some c" "cli_from c = None \<or> cli_from c = Some i" using dir by (auto simp: direct_def)
  have i: "i = (case cli_from c of None \<Rightarrow> i | Some j \<Rightarrow> j)" using c(2) by auto
  consider "\<not> can_send c" | "can_send c" "mq_length (sendQs st ! i) > get_sendq c"
    | "can_send c" "mq_length (sendQs st ! i) \<le> get_sendq c" by fastforce
  then show ?thesis
  proof cases
    case 1
    then have "send_buffer env net i p False st = Some st"
      using c by (auto simp: send_buffer_def)
    moreover have "\<not> link_up st i" using 1 c by (simp add: link_up_def)
    ultimately show ?thesis using good by auto
  next
    case 2
    define st0 where "st0 = (if IsServer c then st\<lparr>notices := notices st @ [''Max SendQ limit exceeded'']\<rparr> else st)"
    have inv0: "send_inv env H st0" using g(3) by (simp add: send_inv_def st0_def)
    have c0: "conn_at i st0 = Some c" using c(1) conn_at_cong [of st0 st i] by (simp add: st0_def)
    have o0: "only H i st st0" by (simp add: only_def st0_def)
    obtain st' c' where d: "dead_link i ''Max sendQ exceeded'' st0 = Some st'" "send_inv env H st'" "only H i st0 st'"
      "conn_at i st' = Some c'" "IsDead c'" "con_id c' = con_id c" "kern st' = kern st0"
      using dead_link_ok [OF inv0 c0] by blast
    have "send_buffer env net i p False st = Some st'"
      using c 2 d(1) by (auto simp: send_buffer_def st0_def)
    moreover have "con_fd c \<noteq> -1" using 2(1) by (simp add: can_send_def)
    moreover have "kern st0 = kern st" by (simp add: st0_def)
    then have "appends wire (con_fd c) (kern st) (kern st') []" using d(7) by simp
    ultimately show ?thesis
      using only_link [OF good only_trans [OF o0 d(3)] d(2) c(1) _ d(4,6)] d(4,5) by (auto simp: link_up_def can_send_def)
  next
    case 3
    obtain st' c' n where s: "send_buffer env net i p False st = Some st'" "send_inv env H st'" "only H i st st'"
      "appends wire (con_fd c) (kern st) (kern st') (take n (out st i @ tx (mqd st) p))"
      "conn_at i st' = Some c'" "con_id c' = con_id c"
      "out st' i = drop n (out st i @ tx (mqd st) p) \<or> IsDead c' \<and> out st' i = []"
      using send_buffer_ok [OF g(1,3,2,4) c(1) i c(1) 3] by blast
    have "con_fd c \<noteq> -1" using 3(1) by (simp add: can_send_def)
    note l = only_link [OF good s(3,2) c(1) this s(5,6,4)]
    have "link_up st i" using 3(1) c(1) by (simp add: link_up_def)
    moreover have "link_total wire st' i = link_total wire st i @ m" if "link_up st' i"
    proof -
      have "out st' i = drop n (out st i @ tx (mqd st) p)" using s(5,7) that by (auto simp: link_up_def can_send_def)
      then have "link_total wire st' i = wire (kern st) (con_fd c) @ out st i @ tx (mqd st) p"
        using l(4) append_take_drop_id [of n "out st i @ tx (mqd st) p"] by simp
      then show ?thesis using c(1) g(5) by (simp add: link_total_def)
    qed
    ultimately show ?thesis using s(1) l(1-3) by auto
  qed
qed

interpretation servers: link_layer "\<lambda>i. send_buffer env net i p False" "link_good env net wire H p m"
    direct link_up "link_total wire" m
  by unfold_locales (rule send_buffer_link)

section \<open>Broadcasts\<close>

text \<open>C23. A message that is sent to the downlinks reaches each of them exactly once and no other link.
  What has been sent on a link or is queued for it grows by the text of the message if the link is a
  downlink, is not the one to skip and passes the test of the flags, as long as the link stays up;
  otherwise it stays the same. The loops always end.\<close>

theorem downlinks_broadcast:
  assumes "mq_reach env (H, mqd st, sendQs st)" and "env_ok env" and "length (conns st) = length (sendQs st)"
    and "net_ok net wire" and "own_fds st" and "p \<in># H" and "distinct down" and "\<forall>i\<in>set down. direct st i"
  shows "(\<exists>st'. flag_downlinks env net last_flag has_flag one require forbid p down st = Some st' \<and>
      (\<forall>j. direct st j \<longrightarrow> link_up st' j \<longrightarrow> link_total wire st' j = link_total wire st j @
        (if j \<in> set down \<and> one \<noteq> Some j \<and> (require < last_flag \<longrightarrow> has_flag j require) \<and>
            (forbid < last_flag \<longrightarrow> \<not> has_flag j forbid) then tx (mqd st) p else []))) \<and>
    (\<exists>st'. serv_downlinks env net one p down st = Some st' \<and>
      (\<forall>j. direct st j \<longrightarrow> link_up st' j \<longrightarrow> link_total wire st' j = link_total wire st j @
        (if j \<in> set down \<and> one \<noteq> Some j then tx (mqd st) p else [])))"
proof -
  have good: "link_good env net wire H p (tx (mqd st) p) st"
    using mq_reach_inv [OF assms(1,2)] assms(2-6) by (simp add: link_good_def send_inv_def env_ok_def)
  show ?thesis
    using servers.send_all [OF good, of "filter Q down" for Q] assms(7,8)
    unfolding flag_downlinks_each serv_downlinks_each by fastforce
qed

theorem downlinks_broadcast_witness:
  "\<exists>st'. serv_downlinks demo_mq_env demo_net None 0 [0] demo_send = Some st' \<and>
    (link_up st' 0 \<longrightarrow> link_total (\<lambda>k fd. k fd) st' 0 = ''PING'' @ crlf)"
proof -
  have "own_fds demo_send" "direct demo_send 0" "link_total (\<lambda>k fd. k fd) demo_send 0 = []"
    by (auto simp: own_fds_def direct_def demo_send_def conn_at_def demo_conn_def link_total_def pending_def msgq_init_def
        split: if_splits)
  then show ?thesis
    using downlinks_broadcast [OF demo_send_parts(1) demo_mq_env_ok demo_send_parts(2) demo_net_ok(1), of 0 "[0]" 0 "\<lambda>_ _. False" None 0 0]
      demo_send_parts(7) by (auto simp del: serv_downlinks.simps flag_downlinks.simps)
qed

end
