(* ===== verification/MsgTree.thy ===== *)
theory MsgTree
  imports Chattr
begin

text \<open>
  The command trie of \<^verbatim>\<open>ircd/parse.c\<close>: \<^verbatim>\<open>add_msg_element\<close>, \<^verbatim>\<open>del_msg_element\<close> and
  \<^verbatim>\<open>msg_tree_parse\<close>. A node has 32 children, indexed by the low five bits of a character. The locale
  \<open>command_index\<close> is what the users of the trie rely on; the trie is an interpretation of it, with the list of the
  low five bits of a command as its key. A message is the type parameter \<open>'m\<close>.
\<close>

section \<open>The trie\<close>

definition MAXPTRLEN :: nat where "MAXPTRLEN = 32"

datatype 'm mtree = MessageTree (msg: "'m option") (pointers: "'m mtree option list")

definition new_node :: "'m mtree" where "new_node = MessageTree None (replicate MAXPTRLEN None)"

definition slot :: "char \<Rightarrow> nat" where "slot c = code c mod MAXPTRLEN"

fun add_msg_element :: "'m mtree \<Rightarrow> 'm \<Rightarrow> string \<Rightarrow> 'm mtree" where
  "add_msg_element (MessageTree x ps) m [] = MessageTree (Some m) ps"
| "add_msg_element (MessageTree x ps) m (c # cmd) =
     MessageTree x (ps[slot c := Some (add_msg_element (case ps ! slot c of Some t \<Rightarrow> t | None \<Rightarrow> new_node) m cmd)])"

text \<open>The return value of \<^verbatim>\<open>del_msg_element\<close>: the node, or NULL when nothing is left in it.\<close>

definition kept :: "'m mtree \<Rightarrow> 'm mtree option" where
  "kept t = (if msg t \<noteq> None \<or> list_ex (\<lambda>p. p \<noteq> None) (pointers t) then Some t else None)"

text \<open>The node after \<^verbatim>\<open>del_msg_element\<close>; \<open>None\<close> when the code follows a null pointer.\<close>

fun del_msg_element :: "'m mtree \<Rightarrow> string \<Rightarrow> 'm mtree option" where
  "del_msg_element (MessageTree x ps) [] = Some (MessageTree None ps)"
| "del_msg_element (MessageTree x ps) (c # cmd) =
     (case ps ! slot c of
        None \<Rightarrow> None
      | Some t \<Rightarrow> map_option (\<lambda>u. MessageTree x (ps[slot c := kept u])) (del_msg_element t cmd))"

text \<open>The NUL at the end of the command is not a nickname character, so the walk ends there.\<close>

fun msg_tree_parse :: "string \<Rightarrow> 'm mtree \<Rightarrow> 'm option" where
  "msg_tree_parse [] t = msg t"
| "msg_tree_parse (c # cmd) t =
     (if \<not> IsNickChar c then None
      else case pointers t ! slot c of None \<Rightarrow> None | Some u \<Rightarrow> msg_tree_parse cmd u)"

section \<open>Content and invariant\<close>

fun tree_get :: "'m mtree \<Rightarrow> nat list \<Rightarrow> 'm option" where
  "tree_get t [] = msg t"
| "tree_get t (k # ks) = (case pointers t ! k of None \<Rightarrow> None | Some u \<Rightarrow> tree_get u ks)"

fun tree_ok :: "'m mtree \<Rightarrow> bool" where
  "tree_ok (MessageTree x ps) \<longleftrightarrow>
     length ps = MAXPTRLEN \<and> (\<forall>p\<in>set ps. case p of None \<Rightarrow> True | Some t \<Rightarrow> kept t \<noteq> None \<and> tree_ok t)"

abbreviation key :: "string \<Rightarrow> nat list" where "key \<equiv> map slot"

abbreviation slots :: "nat list \<Rightarrow> bool" where "slots ks \<equiv> \<forall>k\<in>set ks. k < MAXPTRLEN"

lemma slot_less [simp]: "slot c < MAXPTRLEN" by (simp add: slot_def MAXPTRLEN_def)

lemma tree_ok_child:
  "tree_ok (MessageTree x ps) \<Longrightarrow> k < MAXPTRLEN \<Longrightarrow> ps ! k = Some t \<Longrightarrow> tree_ok t \<and> kept t \<noteq> None"
  using nth_mem [of k ps] by auto

lemma tree_ok_update:
  assumes "tree_ok (MessageTree x ps)" and "k < MAXPTRLEN"
    and "\<And>t. p = Some t \<Longrightarrow> tree_ok t \<and> kept t \<noteq> None"
  shows "tree_ok (MessageTree y (ps[k := p]))"
  using assms by (auto dest!: set_update_subset_insert [THEN subsetD] split: option.splits)

lemma tree_ok_new_node [simp]: "tree_ok new_node"
  by (simp add: new_node_def)

lemma tree_get_new_node [simp]: "slots ks \<Longrightarrow> tree_get new_node ks = None"
  by (cases ks) (auto simp: new_node_def)

lemma kept_add: "length (pointers t) = MAXPTRLEN \<Longrightarrow> kept (add_msg_element t m cmd) \<noteq> None"
proof (cases t; cases cmd)
  fix x ps c s
  assume "length (pointers t) = MAXPTRLEN" and [simp]: "t = MessageTree x ps" "cmd = c # s"
  then have "slot c < length ps" by simp
  then show ?thesis by (auto simp: kept_def list_ex_iff intro!: set_update_memI)
qed (simp add: kept_def)

lemma tree_ok_length: "tree_ok t \<Longrightarrow> length (pointers t) = MAXPTRLEN" by (cases t) simp

section \<open>Insertion, deletion and search\<close>

lemma msg_tree_parse_get:
  "msg_tree_parse cmd t = (if list_all IsNickChar cmd then tree_get t (key cmd) else None)"
  by (induction cmd t rule: msg_tree_parse.induct) (auto split: option.split)

lemma tree_ok_add: "tree_ok t \<Longrightarrow> tree_ok (add_msg_element t m cmd)"
proof (induction t m cmd rule: add_msg_element.induct)
  case (2 x ps m c cmd)
  let ?u = "case ps ! slot c of Some t \<Rightarrow> t | None \<Rightarrow> new_node"
  have "tree_ok ?u" using tree_ok_child [OF 2(2), of "slot c"] by (auto split: option.split)
  then have "tree_ok (add_msg_element ?u m cmd)" "kept (add_msg_element ?u m cmd) \<noteq> None"
    by (rule 2(1), rule kept_add [OF tree_ok_length])
  then show ?case unfolding add_msg_element.simps by (intro tree_ok_update [OF 2(2)]) simp_all
qed simp

lemma tree_get_add:
  "tree_ok t \<Longrightarrow> slots ks \<Longrightarrow>
    tree_get (add_msg_element t m cmd) ks = (if ks = key cmd then Some m else tree_get t ks)"
proof (induction t m cmd arbitrary: ks rule: add_msg_element.induct)
  case (1 x ps m)
  then show ?case by (cases ks) auto
next
  case (2 x ps m c cmd)
  let ?u = "case ps ! slot c of Some t \<Rightarrow> t | None \<Rightarrow> new_node"
  have u: "tree_ok ?u" using tree_ok_child [OF 2(2), of "slot c"] by (auto split: option.split)
  have len: "slot c < length ps" using 2(2) by simp
  show ?case
  proof (cases ks)
    case (Cons k ks')
    then have "tree_get (add_msg_element ?u m cmd) ks' = (if ks' = key cmd then Some m else tree_get ?u ks')"
      using 2(3) by (intro 2(1) u) auto
    then show ?thesis using Cons len 2(3) by (auto simp: nth_list_update split: option.split)
  qed simp
qed

lemma tree_get_kept: "slots ks \<Longrightarrow> length (pointers t) = MAXPTRLEN \<Longrightarrow> kept t = None \<Longrightarrow> tree_get t ks = None"
  by (cases ks; cases t) (auto simp: kept_def list_ex_iff all_set_conv_all_nth split: if_splits option.split)

lemma del_msg_element_ok:
  assumes "tree_ok t" and "tree_get t (key cmd) \<noteq> None"
  obtains t' where "del_msg_element t cmd = Some t'" "tree_ok t'"
    "\<And>ks. slots ks \<Longrightarrow> tree_get t' ks = (if ks = key cmd then None else tree_get t ks)"
  using assms
proof (induction t cmd arbitrary: thesis rule: del_msg_element.induct)
  case (1 x ps)
  show ?case
  proof (rule 1(1))
    show "tree_get (MessageTree None ps) ks = (if ks = key [] then None else tree_get (MessageTree x ps) ks)"
      if "slots ks" for ks
      by (cases ks) auto
  qed (use 1(2) in auto)
next
  case (2 x ps c cmd)
  then obtain u where u: "ps ! slot c = Some u" by (auto split: option.splits)
  have ok: "tree_ok u" using tree_ok_child [OF 2(3) _ u] by simp
  have "tree_get u (key cmd) \<noteq> None" using 2(4) u by simp
  then obtain u' where u': "del_msg_element u cmd = Some u'" "tree_ok u'"
    "\<And>ks. slots ks \<Longrightarrow> tree_get u' ks = (if ks = key cmd then None else tree_get u ks)"
    using 2(1) [OF u _ ok] by blast
  let ?t = "MessageTree x (ps[slot c := kept u'])"
  have len: "slot c < length ps" using 2(3) by simp
  show ?case
  proof (rule 2(2))
    show "del_msg_element (MessageTree x ps) (c # cmd) = Some ?t" using u u' by simp
    show "tree_ok ?t" using u'(2) by (intro tree_ok_update [OF 2(3)]) (auto simp: kept_def split: if_splits)
    show "tree_get ?t ks = (if ks = key (c # cmd) then None else tree_get (MessageTree x ps) ks)" if "slots ks" for ks
    proof (cases ks)
      case (Cons k ks')
      have "(case kept u' of None \<Rightarrow> None | Some v \<Rightarrow> tree_get v ks') = tree_get u' ks'"
        using tree_get_kept [of ks' u'] tree_ok_length [OF u'(2)] that Cons by (auto simp: kept_def)
      then show ?thesis using Cons len u u'(3) [of ks'] that by (auto simp: nth_list_update)
    qed simp
  qed
qed

text \<open>The invariant leaves only one tree for a content.\<close>

lemma kept_get: "tree_ok t \<Longrightarrow> kept t \<noteq> None \<Longrightarrow> \<exists>ks. slots ks \<and> tree_get t ks \<noteq> None"
proof (induction t)
  case (MessageTree x ps)
  show ?case
  proof (cases x)
    case None
    then obtain k u where k: "k < MAXPTRLEN" "ps ! k = Some u"
      using MessageTree.prems by (auto simp: kept_def list_ex_iff in_set_conv_nth split: if_splits)
    moreover have "Some u \<in> set ps" using k MessageTree.prems(1) by (force intro: nth_mem simp flip: k(2))
    ultimately obtain ks where "slots ks \<and> tree_get u ks \<noteq> None"
      using MessageTree.IH [of "Some u" u] tree_ok_child [OF MessageTree.prems(1) k] by auto
    then have "slots (k # ks) \<and> tree_get (MessageTree x ps) (k # ks) \<noteq> None" using k by simp
    then show ?thesis by blast
  qed (auto intro: exI [of _ "[]"])
qed

lemma tree_eqI:
  "tree_ok t \<Longrightarrow> tree_ok u \<Longrightarrow> (\<And>ks. slots ks \<Longrightarrow> tree_get t ks = tree_get u ks) \<Longrightarrow> t = u"
proof (induction t arbitrary: u)
  case (MessageTree x ps)
  obtain y qs where u: "u = MessageTree y qs" by (cases u)
  have len: "length ps = MAXPTRLEN" "length qs = MAXPTRLEN" using MessageTree.prems u by auto
  have sub: "(case ps ! k of None \<Rightarrow> None | Some t \<Rightarrow> tree_get t ks) = (case qs ! k of None \<Rightarrow> None | Some t \<Rightarrow> tree_get t ks)"
    if "k < MAXPTRLEN" "slots ks" for k ks
    using MessageTree.prems(3) [of "k # ks"] that u by simp
  have "ps ! k = qs ! k" if k: "k < MAXPTRLEN" for k
  proof (cases "ps ! k"; cases "qs ! k")
    fix a b
    assume ab: "ps ! k = Some a" "qs ! k = Some b"
    have "Some a \<in> set ps" using ab(1) k len(1) by (metis nth_mem)
    then have "a = b"
      using MessageTree.IH [of "Some a" a b] sub [OF k] ab tree_ok_child [OF MessageTree.prems(1) k]
        tree_ok_child [OF MessageTree.prems(2) [unfolded u] k] by simp
    then show ?thesis using ab by simp
  next
    fix b
    assume ab: "ps ! k = None" "qs ! k = Some b"
    then show ?thesis using kept_get [of b] tree_ok_child [OF MessageTree.prems(2) [unfolded u] k] sub [OF k] by auto
  next
    fix a
    assume ab: "ps ! k = Some a" "qs ! k = None"
    then show ?thesis using kept_get [of a] tree_ok_child [OF MessageTree.prems(1) k] sub [OF k] by force
  qed simp
  then have "ps = qs" using len by (intro nth_equalityI) auto
  moreover have "x = y" using MessageTree.prems(3) [of "[]"] u by simp
  ultimately show ?case using u by simp
qed

section \<open>The interface\<close>

locale command_index =
  fixes ok :: "'t \<Rightarrow> bool" and get :: "string \<Rightarrow> 't \<Rightarrow> 'm option" and add :: "'t \<Rightarrow> 'm \<Rightarrow> string \<Rightarrow> 't"
    and del :: "'t \<Rightarrow> string \<Rightarrow> 't option" and key_of :: "string \<Rightarrow> 'k" and name :: "string \<Rightarrow> bool"
  assumes ok_add: "ok t \<Longrightarrow> ok (add t m c)"
    and get_add: "ok t \<Longrightarrow> get d (add t m c) = (if name d \<and> key_of d = key_of c then Some m else get d t)"
    and del_get: "ok t \<Longrightarrow> get c t \<noteq> None \<Longrightarrow>
      \<exists>t'. del t c = Some t' \<and> ok t' \<and> (\<forall>d. get d t' = (if key_of d = key_of c then None else get d t))"
    and canonical: "ok t \<Longrightarrow> ok u \<Longrightarrow> (\<And>d. get d t = get d u) \<Longrightarrow> t = u"
    and get_name: "get c t \<noteq> None \<Longrightarrow> name c"
    and get_key: "name c \<Longrightarrow> name d \<Longrightarrow> key_of c = key_of d \<Longrightarrow> get c t = get d t"
begin

lemma ok_add_all: "ok t \<Longrightarrow> ok (fold (\<lambda>(m, c) t. add t m c) xs t)"
  by (induction xs arbitrary: t) (auto simp: ok_add)

lemma get_add_other:
  "ok t \<Longrightarrow> key_of d \<notin> set (map (key_of \<circ> snd) xs) \<Longrightarrow> get d (fold (\<lambda>(m, c) t. add t m c) xs t) = get d t"
  by (induction xs arbitrary: t) (auto simp: ok_add get_add)

lemma get_add_all:
  "ok t \<Longrightarrow> distinct (map (key_of \<circ> snd) xs) \<Longrightarrow> (m, c) \<in> set xs \<Longrightarrow> name d \<Longrightarrow> key_of d = key_of c \<Longrightarrow>
    get d (fold (\<lambda>(m, c) t. add t m c) xs t) = Some m"
proof (induction xs arbitrary: t)
  case (Cons x xs)
  show ?case
  proof (cases "x = (m, c)")
    case True
    then have "get d (fold (\<lambda>(m, c) t. add t m c) xs (add t m c)) = get d (add t m c)"
      using Cons.prems by (intro get_add_other) (auto simp: ok_add)
    then show ?thesis using True Cons.prems by (simp add: get_add)
  qed (use Cons in \<open>auto simp: ok_add split: prod.splits\<close>)
qed simp

text \<open>Taking out a command that was put under an unused name gives back the index as it was.\<close>

lemma add_del:
  assumes "ok t" and "name c" and "get c t = None"
  shows "del (add t m c) c = Some t"
proof -
  have ok: "ok (add t m c)" and found: "get c (add t m c) \<noteq> None"
    using assms by (simp_all add: ok_add get_add)
  then obtain t' where t': "del (add t m c) c = Some t'" "ok t'"
    "\<And>d. get d t' = (if key_of d = key_of c then None else get d (add t m c))"
    using del_get by blast
  have "get d t' = get d t" for d
    using t'(3) [of d] assms get_key [of c d t] get_name [of d t] by (cases "get d t") (auto simp: get_add)
  then have "t' = t" using t'(2) assms(1) by (intro canonical)
  then show ?thesis using t'(1) by simp
qed

end

text \<open>Every slot is that of a nickname character.\<close>

definition slot_char :: "nat \<Rightarrow> char" where
  "slot_char k = (if k = 0 then CHR ''`'' else char_of (64 + k))"

lemma slot_char: "k < MAXPTRLEN \<Longrightarrow> IsNickChar (slot_char k) \<and> slot (slot_char k) = k"
proof -
  assume k: "k < MAXPTRLEN"
  have "(64 + k) mod 32 = k" using k mod_mult_self3 [of 2 32 k] by (simp add: MAXPTRLEN_def)
  then show ?thesis
    using k by (simp add: slot_char_def slot_def MAXPTRLEN_def IsNickChar_iff code_char_of) (simp add: code_def)
qed

lemma key_surj: "slots ks \<Longrightarrow> \<exists>d. list_all IsNickChar d \<and> key d = ks"
  by (rule exI [of _ "map slot_char ks"]) (induction ks; simp add: slot_char)

interpretation trie: command_index tree_ok msg_tree_parse add_msg_element del_msg_element key "list_all IsNickChar"
proof
  fix t u :: "'m mtree" and c d m
  show "tree_ok t \<Longrightarrow> tree_ok (add_msg_element t m c)" by (rule tree_ok_add)
  show "tree_ok t \<Longrightarrow> msg_tree_parse d (add_msg_element t m c) =
      (if list_all IsNickChar d \<and> key d = key c then Some m else msg_tree_parse d t)"
    by (simp add: msg_tree_parse_get tree_get_add)
  show "\<exists>t'. del_msg_element t c = Some t' \<and> tree_ok t' \<and>
      (\<forall>d. msg_tree_parse d t' = (if key d = key c then None else msg_tree_parse d t))"
    if "tree_ok t" "msg_tree_parse c t \<noteq> None"
  proof -
    have "tree_get t (key c) \<noteq> None" using that(2) by (simp add: msg_tree_parse_get split: if_splits)
    then show ?thesis by (rule del_msg_element_ok [OF that(1)]) (auto simp: msg_tree_parse_get)
  qed
  show "t = u" if "tree_ok t" "tree_ok u" "\<And>d. msg_tree_parse d t = msg_tree_parse d u"
  proof (rule tree_eqI [OF that(1,2)])
    fix ks
    assume "slots ks"
    then obtain d where "list_all IsNickChar d" "key d = ks" using key_surj by blast
    then show "tree_get t ks = tree_get u ks" using that(3) [of d] by (simp add: msg_tree_parse_get)
  qed
qed (simp_all add: msg_tree_parse_get split: if_splits)

end
