(* ===== verification/MsgTab.thy ===== *)
theory MsgTab
  imports MsgTree Ircd_String
begin

text \<open>
  The command table \<^verbatim>\<open>msgtab\<close> of \<^verbatim>\<open>ircd/parse.c\<close>, \<^verbatim>\<open>initmsgtree\<close>, the service mappings
  (\<^verbatim>\<open>register_mapping\<close>, \<^verbatim>\<open>unregister_mapping\<close>), \<^verbatim>\<open>close_mappings\<close> of \<^verbatim>\<open>ircd/s_conf.c\<close> and the
  configuration block that makes a mapping (\<^verbatim>\<open>ircd/ircd_parser.y\<close>).

  A message is an object in the store \<open>messages\<close>, and the tries hold addresses; the entries of the table
  have the addresses 0, 1, 2 and so on, and an allocated message gets its address as a parameter. A handler is the
  name of its C function. Of a service mapping the fields that these functions use are modelled. The help text of a command is not
  modelled.
\<close>

section \<open>Messages\<close>

definition MAXPARA :: nat where "MAXPARA = 15"

definition MFLG_SLOW :: u32 where "MFLG_SLOW = 0x01"
definition MFLG_UNREG :: u32 where "MFLG_UNREG = 0x02"
definition MFLG_IGNORE :: u32 where "MFLG_IGNORE = 0x04"
definition MFLG_EXTRA :: u32 where "MFLG_EXTRA = 0x08"
definition MFLG_NOSHUN :: u32 where "MFLG_NOSHUN = 0x10"

datatype handler_type = UNREGISTERED_HANDLER | CLIENT_HANDLER | SERVER_HANDLER | OPER_HANDLER | SERVICE_HANDLER

fun handler_index :: "handler_type \<Rightarrow> nat" where
  "handler_index UNREGISTERED_HANDLER = 0"
| "handler_index CLIENT_HANDLER = 1"
| "handler_index SERVER_HANDLER = 2"
| "handler_index OPER_HANDLER = 3"
| "handler_index SERVICE_HANDLER = 4"

record message =
  m_cmd :: string
  m_tok :: string
  m_count :: u32
  m_parameters :: nat
  m_flags :: u32
  m_bytes :: u32
  m_extra :: "nat option"
  m_handlers :: "string list"

definition command :: "string \<Rightarrow> string \<Rightarrow> nat \<Rightarrow> u32 \<Rightarrow> string list \<Rightarrow> message" where
  "command c t params fl hs = \<lparr>m_cmd = c, m_tok = t, m_count = 0, m_parameters = params, m_flags = fl, m_bytes = 0,
     m_extra = None, m_handlers = hs\<rparr>"

section \<open>The table\<close>

definition msgtab_1 :: "message list" where
  "msgtab_1 = [
     command ''PRIVMSG'' ''P'' MAXPARA MFLG_SLOW
       [''m_unregistered'', ''m_privmsg'', ''ms_privmsg'', ''mo_privmsg'', ''m_ignore''],
     command ''NICK'' ''N'' MAXPARA (MFLG_SLOW OR MFLG_UNREG OR MFLG_NOSHUN)
       [''m_nick'', ''m_nick'', ''ms_nick'', ''m_nick'', ''m_ignore''],
     command ''NOTICE'' ''O'' MAXPARA (MFLG_SLOW OR MFLG_UNREG OR MFLG_IGNORE)
       [''mr_notice'', ''m_notice'', ''ms_notice'', ''mo_notice'', ''m_ignore''],
     command ''WALLCHOPS'' ''WC'' MAXPARA MFLG_SLOW
       [''m_unregistered'', ''m_wallchops'', ''ms_wallchops'', ''m_wallchops'', ''m_ignore''],
     command ''WALLVOICES'' ''WV'' MAXPARA MFLG_SLOW
       [''m_unregistered'', ''m_wallvoices'', ''ms_wallvoices'', ''m_wallvoices'', ''m_ignore''],
     command ''CPRIVMSG'' ''CP'' MAXPARA MFLG_SLOW
       [''m_unregistered'', ''m_cprivmsg'', ''m_ignore'', ''m_cprivmsg'', ''m_ignore''],
     command ''CNOTICE'' ''CN'' MAXPARA MFLG_SLOW
       [''m_unregistered'', ''m_cnotice'', ''m_ignore'', ''m_cnotice'', ''m_ignore''],
     command ''JOIN'' ''J'' MAXPARA MFLG_SLOW
       [''m_unregistered'', ''m_join'', ''ms_join'', ''m_join'', ''m_ignore''],
     command ''MODE'' ''M'' MAXPARA MFLG_SLOW
       [''m_unregistered'', ''m_mode'', ''ms_mode'', ''m_mode'', ''m_ignore''],
     command ''BURST'' ''B'' MAXPARA MFLG_SLOW
       [''m_ignore'', ''m_ignore'', ''ms_burst'', ''m_ignore'', ''m_ignore''],
     command ''CREATE'' ''C'' MAXPARA MFLG_SLOW
       [''m_ignore'', ''m_ignore'', ''ms_create'', ''m_ignore'', ''m_ignore''],
     command ''DESTRUCT'' ''DE'' MAXPARA MFLG_SLOW
       [''m_ignore'', ''m_ignore'', ''ms_destruct'', ''m_ignore'', ''m_ignore''],
     command ''QUIT'' ''Q'' MAXPARA (MFLG_SLOW OR MFLG_UNREG OR MFLG_NOSHUN)
       [''m_quit'', ''m_quit'', ''ms_quit'', ''m_quit'', ''m_ignore''],
     command ''PART'' ''L'' MAXPARA (MFLG_SLOW OR MFLG_NOSHUN)
       [''m_unregistered'', ''m_part'', ''ms_part'', ''m_part'', ''m_ignore''],
     command ''TOPIC'' ''T'' MAXPARA MFLG_SLOW
       [''m_unregistered'', ''m_topic'', ''ms_topic'', ''m_topic'', ''m_ignore''],
     command ''INVITE'' ''I'' MAXPARA MFLG_SLOW
       [''m_unregistered'', ''m_invite'', ''ms_invite'', ''m_invite'', ''m_ignore''],
     command ''KICK'' ''K'' MAXPARA MFLG_SLOW
       [''m_unregistered'', ''m_kick'', ''ms_kick'', ''m_kick'', ''m_ignore''],
     command ''WALLOPS'' ''WA'' MAXPARA MFLG_SLOW
       [''m_unregistered'', ''m_not_oper'', ''ms_wallops'', ''mo_wallops'', ''m_ignore'']]"

definition msgtab_2 :: "message list" where
  "msgtab_2 = [
     command ''WALLUSERS'' ''WU'' MAXPARA MFLG_SLOW
       [''m_unregistered'', ''m_not_oper'', ''ms_wallusers'', ''mo_wallusers'', ''m_ignore''],
     command ''DESYNCH'' ''DS'' MAXPARA MFLG_SLOW
       [''m_ignore'', ''m_ignore'', ''ms_desynch'', ''m_ignore'', ''m_ignore''],
     command ''PING'' ''G'' MAXPARA (MFLG_SLOW OR MFLG_NOSHUN)
       [''m_unregistered'', ''m_ping'', ''ms_ping'', ''mo_ping'', ''m_ignore''],
     command ''PONG'' ''Z'' MAXPARA (MFLG_SLOW OR MFLG_UNREG OR MFLG_NOSHUN)
       [''mr_pong'', ''m_pong'', ''ms_pong'', ''m_pong'', ''m_ignore''],
     command ''ERROR'' ''Y'' MAXPARA (MFLG_SLOW OR MFLG_UNREG)
       [''mr_error'', ''m_ignore'', ''ms_error'', ''m_ignore'', ''m_ignore''],
     command ''KILL'' ''D'' MAXPARA MFLG_SLOW
       [''m_unregistered'', ''m_not_oper'', ''ms_kill'', ''mo_kill'', ''m_ignore''],
     command ''USER'' ''USER'' MAXPARA (MFLG_SLOW OR MFLG_NOSHUN)
       [''m_user'', ''m_registered'', ''m_ignore'', ''m_registered'', ''m_ignore''],
     command ''AWAY'' ''A'' MAXPARA MFLG_SLOW
       [''m_unregistered'', ''m_away'', ''ms_away'', ''m_away'', ''m_ignore''],
     command ''ISON'' ''ISON'' 1 MFLG_SLOW
       [''m_unregistered'', ''m_ison'', ''m_ignore'', ''m_ison'', ''m_ignore''],
     command ''SERVER'' ''S'' MAXPARA (MFLG_SLOW OR MFLG_UNREG OR MFLG_NOSHUN)
       [''mr_server'', ''m_registered'', ''ms_server'', ''m_registered'', ''m_ignore''],
     command ''SQUIT'' ''SQ'' MAXPARA MFLG_SLOW
       [''m_unregistered'', ''m_not_oper'', ''ms_squit'', ''mo_squit'', ''m_ignore''],
     command ''WHOIS'' ''W'' MAXPARA MFLG_SLOW
       [''m_unregistered'', ''m_whois'', ''ms_whois'', ''m_whois'', ''m_ignore''],
     command ''WHO'' ''H'' MAXPARA MFLG_SLOW
       [''m_unregistered'', ''m_who'', ''m_ignore'', ''m_who'', ''m_ignore''],
     command ''WHOWAS'' ''X'' MAXPARA MFLG_SLOW
       [''m_unregistered'', ''m_whowas'', ''m_whowas'', ''m_whowas'', ''m_ignore''],
     command ''LIST'' ''LIST'' MAXPARA MFLG_SLOW
       [''m_unregistered'', ''m_list'', ''m_ignore'', ''m_list'', ''m_ignore''],
     command ''NAMES'' ''E'' MAXPARA MFLG_SLOW
       [''m_unregistered'', ''m_names'', ''m_names'', ''m_names'', ''m_ignore''],
     command ''USERHOST'' ''USERHOST'' 1 MFLG_SLOW
       [''m_unregistered'', ''m_userhost'', ''m_ignore'', ''m_userhost'', ''m_ignore''],
     command ''USERIP'' ''USERIP'' 1 MFLG_SLOW
       [''m_unregistered'', ''m_userip'', ''m_ignore'', ''m_userip'', ''m_ignore'']]"

definition msgtab_3 :: "message list" where
  "msgtab_3 = [
     command ''TRACE'' ''TR'' MAXPARA MFLG_SLOW
       [''m_unregistered'', ''m_trace'', ''ms_trace'', ''mo_trace'', ''m_ignore''],
     command ''PASS'' ''PA'' MAXPARA (MFLG_SLOW OR MFLG_UNREG OR MFLG_NOSHUN)
       [''mr_pass'', ''m_registered'', ''m_ignore'', ''m_registered'', ''m_ignore''],
     command ''LUSERS'' ''LU'' MAXPARA MFLG_SLOW
       [''m_unregistered'', ''m_lusers'', ''ms_lusers'', ''m_lusers'', ''m_ignore''],
     command ''TIME'' ''TI'' MAXPARA MFLG_SLOW
       [''m_unregistered'', ''m_time'', ''m_time'', ''m_time'', ''m_ignore''],
     command ''SETTIME'' ''SE'' MAXPARA MFLG_SLOW
       [''m_unregistered'', ''m_not_oper'', ''ms_settime'', ''mo_settime'', ''m_ignore''],
     command ''RPING'' ''RI'' MAXPARA MFLG_SLOW
       [''m_unregistered'', ''m_not_oper'', ''ms_rping'', ''mo_rping'', ''m_ignore''],
     command ''RPONG'' ''RO'' MAXPARA MFLG_SLOW
       [''m_unregistered'', ''m_ignore'', ''ms_rpong'', ''m_ignore'', ''m_ignore''],
     command ''OPER'' ''OPER'' MAXPARA MFLG_SLOW
       [''m_unregistered'', ''m_oper'', ''ms_oper'', ''mo_oper'', ''m_ignore''],
     command ''CONNECT'' ''CO'' MAXPARA MFLG_SLOW
       [''m_unregistered'', ''m_not_oper'', ''ms_connect'', ''mo_connect'', ''m_ignore''],
     command ''MAP'' ''MAP'' MAXPARA MFLG_SLOW
       [''m_unregistered'', ''m_map'', ''m_ignore'', ''m_map'', ''m_ignore''],
     command ''VERSION'' ''V'' MAXPARA (MFLG_SLOW OR MFLG_UNREG)
       [''m_version'', ''m_version'', ''ms_version'', ''mo_version'', ''m_ignore''],
     command ''STATS'' ''R'' MAXPARA MFLG_SLOW
       [''m_unregistered'', ''m_stats'', ''m_stats'', ''m_stats'', ''m_ignore''],
     command ''LINKS'' ''LI'' MAXPARA MFLG_SLOW
       [''m_unregistered'', ''m_links'', ''ms_links'', ''m_links'', ''m_ignore''],
     command ''ADMIN'' ''AD'' MAXPARA (MFLG_SLOW OR MFLG_UNREG OR MFLG_NOSHUN)
       [''m_admin'', ''m_admin'', ''ms_admin'', ''mo_admin'', ''m_ignore''],
     command ''HELP'' ''HELP'' MAXPARA MFLG_SLOW
       [''m_unregistered'', ''m_help'', ''m_ignore'', ''m_help'', ''m_ignore''],
     command ''INFO'' ''F'' MAXPARA MFLG_SLOW
       [''m_unregistered'', ''m_info'', ''ms_info'', ''mo_info'', ''m_ignore''],
     command ''MOTD'' ''MO'' MAXPARA MFLG_SLOW
       [''m_unregistered'', ''m_motd'', ''m_motd'', ''m_motd'', ''m_ignore''],
     command ''CLOSE'' ''CLOSE'' MAXPARA MFLG_SLOW
       [''m_unregistered'', ''m_not_oper'', ''m_ignore'', ''mo_close'', ''m_ignore'']]"

definition msgtab_4 :: "message list" where
  "msgtab_4 = [
     command ''SILENCE'' ''U'' MAXPARA MFLG_SLOW
       [''m_unregistered'', ''m_silence'', ''ms_silence'', ''m_silence'', ''m_ignore''],
     command ''GLINE'' ''GL'' MAXPARA 0
       [''m_unregistered'', ''m_gline'', ''ms_gline'', ''mo_gline'', ''m_ignore''],
     command ''JUPE'' ''JU'' MAXPARA MFLG_SLOW
       [''m_unregistered'', ''m_not_oper'', ''ms_jupe'', ''mo_jupe'', ''m_ignore''],
     command ''OPMODE'' ''OM'' MAXPARA MFLG_SLOW
       [''m_unregistered'', ''m_not_oper'', ''ms_opmode'', ''mo_opmode'', ''m_ignore''],
     command ''CLEARMODE'' ''CM'' MAXPARA MFLG_SLOW
       [''m_unregistered'', ''m_not_oper'', ''ms_clearmode'', ''mo_clearmode'', ''m_ignore''],
     command ''UPING'' ''UP'' MAXPARA MFLG_SLOW
       [''m_unregistered'', ''m_not_oper'', ''ms_uping'', ''mo_uping'', ''m_ignore''],
     command ''END_OF_BURST'' ''EB'' MAXPARA MFLG_SLOW
       [''m_ignore'', ''m_ignore'', ''ms_end_of_burst'', ''m_ignore'', ''m_ignore''],
     command ''EOB_ACK'' ''EA'' MAXPARA MFLG_SLOW
       [''m_ignore'', ''m_ignore'', ''ms_end_of_burst_ack'', ''m_ignore'', ''m_ignore''],
     command ''HASH'' ''HASH'' MAXPARA MFLG_SLOW
       [''m_unregistered'', ''m_hash'', ''m_hash'', ''m_hash'', ''m_ignore''],
     command ''REHASH'' ''RH'' MAXPARA MFLG_SLOW
       [''m_unregistered'', ''m_not_oper'', ''ms_rehash'', ''mo_rehash'', ''m_ignore''],
     command ''RESTART'' ''RESTART'' MAXPARA MFLG_SLOW
       [''m_unregistered'', ''m_not_oper'', ''m_ignore'', ''mo_restart'', ''m_ignore''],
     command ''DIE'' ''DIE'' MAXPARA MFLG_SLOW
       [''m_unregistered'', ''m_not_oper'', ''m_ignore'', ''mo_die'', ''m_ignore''],
     command ''PROTO'' ''PROTO'' MAXPARA MFLG_SLOW
       [''m_proto'', ''m_proto'', ''m_proto'', ''m_proto'', ''m_ignore''],
     command ''SET'' ''SET'' MAXPARA MFLG_SLOW
       [''m_unregistered'', ''m_not_oper'', ''m_ignore'', ''mo_set'', ''m_ignore''],
     command ''RESET'' ''RESET'' MAXPARA MFLG_SLOW
       [''m_unregistered'', ''m_not_oper'', ''m_ignore'', ''mo_reset'', ''m_ignore''],
     command ''GET'' ''GET'' MAXPARA MFLG_SLOW
       [''m_unregistered'', ''m_not_oper'', ''m_ignore'', ''mo_get'', ''m_ignore''],
     command ''PRIVS'' ''PRIVS'' MAXPARA MFLG_SLOW
       [''m_unregistered'', ''m_not_oper'', ''ms_privs'', ''mo_privs'', ''m_ignore''],
     command ''ACCOUNT'' ''AC'' MAXPARA MFLG_SLOW
       [''m_ignore'', ''m_ignore'', ''ms_account'', ''m_ignore'', ''m_ignore'']]"

definition msgtab_5 :: "message list" where
  "msgtab_5 = [
     command ''ASLL'' ''LL'' MAXPARA MFLG_SLOW
       [''m_ignore'', ''m_not_oper'', ''ms_asll'', ''mo_asll'', ''m_ignore''],
     command ''XQUERY'' ''XQ'' MAXPARA MFLG_SLOW
       [''m_ignore'', ''m_ignore'', ''ms_xquery'', ''mo_xquery'', ''m_ignore''],
     command ''XREPLY'' ''XR'' MAXPARA MFLG_SLOW
       [''m_ignore'', ''m_ignore'', ''ms_xreply'', ''m_ignore'', ''m_ignore''],
     command ''CAP'' ''CAP'' MAXPARA 0
       [''m_cap'', ''m_cap'', ''m_ignore'', ''m_cap'', ''m_ignore''],
     command ''ISNEF'' ''ISNEF'' MAXPARA MFLG_SLOW
       [''m_unregistered'', ''m_isnef'', ''m_ignore'', ''m_isnef'', ''m_ignore''],
     command ''CHECK'' ''CC'' MAXPARA MFLG_SLOW
       [''m_unregistered'', ''m_not_oper'', ''mo_check'', ''mo_check'', ''m_ignore''],
     command ''PROTOCTL'' ''PROTOCTL'' MAXPARA MFLG_SLOW
       [''m_ignore'', ''m_protoctl'', ''m_ignore'', ''m_protoctl'', ''m_ignore''],
     command ''SVSIDENT'' ''SID'' MAXPARA MFLG_SLOW
       [''m_ignore'', ''m_ignore'', ''ms_svsident'', ''m_ignore'', ''m_ignore''],
     command ''SVSINFO'' ''SI'' MAXPARA MFLG_SLOW
       [''m_ignore'', ''m_ignore'', ''ms_svsinfo'', ''m_ignore'', ''m_ignore''],
     command ''SVSQUIT'' ''SX'' MAXPARA MFLG_SLOW
       [''m_ignore'', ''m_ignore'', ''ms_svsquit'', ''m_ignore'', ''m_ignore''],
     command ''SNO'' ''SNO'' MAXPARA MFLG_SLOW
       [''m_ignore'', ''m_ignore'', ''ms_sno'', ''m_ignore'', ''m_ignore''],
     command ''SMO'' ''SMO'' MAXPARA MFLG_SLOW
       [''m_ignore'', ''m_ignore'', ''ms_smo'', ''m_ignore'', ''m_ignore''],
     command ''WEBIRC'' ''WEBIRC'' MAXPARA (MFLG_SLOW OR MFLG_UNREG OR MFLG_NOSHUN)
       [''m_webirc'', ''m_registered'', ''m_ignore'', ''m_registered'', ''m_ignore''],
     command ''MARK'' ''MK'' MAXPARA MFLG_SLOW
       [''m_ignore'', ''m_ignore'', ''ms_mark'', ''m_ignore'', ''m_ignore''],
     command ''SVSNOOP'' ''SO'' MAXPARA MFLG_SLOW
       [''m_ignore'', ''m_ignore'', ''ms_svsnoop'', ''m_ignore'', ''m_ignore''],
     command ''SVSMODE'' ''SM'' MAXPARA MFLG_SLOW
       [''m_ignore'', ''m_ignore'', ''ms_svsmode'', ''m_ignore'', ''m_ignore''],
     command ''SVSNICK'' ''SN'' MAXPARA MFLG_SLOW
       [''m_ignore'', ''m_ignore'', ''ms_svsnick'', ''m_ignore'', ''m_ignore''],
     command ''SVSPART'' ''SP'' MAXPARA MFLG_SLOW
       [''m_ignore'', ''m_ignore'', ''ms_svspart'', ''m_ignore'', ''m_ignore'']]"

definition msgtab_6 :: "message list" where
  "msgtab_6 = [
     command ''SVSJOIN'' ''SJ'' MAXPARA MFLG_SLOW
       [''m_ignore'', ''m_ignore'', ''ms_svsjoin'', ''m_ignore'', ''m_ignore''],
     command ''SWHOIS'' ''SW'' MAXPARA MFLG_SLOW
       [''m_ignore'', ''m_ignore'', ''ms_swhois'', ''m_ignore'', ''m_ignore''],
     command ''FAKE'' ''FA'' MAXPARA MFLG_SLOW
       [''m_ignore'', ''m_ignore'', ''ms_fake'', ''m_ignore'', ''m_ignore''],
     command ''MKPASSWD'' ''MKPASSWD'' MAXPARA MFLG_SLOW
       [''m_unregistered'', ''m_mkpasswd'', ''m_ignore'', ''m_mkpasswd'', ''m_ignore''],
     command ''OPERMOTD'' ''OPM'' MAXPARA MFLG_SLOW
       [''m_unregistered'', ''m_not_oper'', ''ms_opermotd'', ''m_opermotd'', ''m_ignore''],
     command ''RULES'' ''RL'' MAXPARA MFLG_SLOW
       [''m_unregistered'', ''m_rules'', ''ms_rules'', ''m_rules'', ''m_ignore''],
     command ''SHUN'' ''SU'' MAXPARA 0
       [''m_unregistered'', ''m_shun'', ''ms_shun'', ''mo_shun'', ''m_ignore''],
     command ''SETHOST'' ''SETHOST'' MAXPARA 0
       [''m_unregistered'', ''m_sethost'', ''m_ignore'', ''mo_sethost'', ''m_ignore''],
     command ''FINGERPRINT'' ''FINGERPRINT'' MAXPARA 0
       [''m_unregistered'', ''m_fingerprint'', ''m_ignore'', ''m_fingerprint'', ''m_ignore''],
     command ''STARTTLS'' ''STARTTLS'' MAXPARA 0
       [''m_starttls'', ''m_registered'', ''m_ignore'', ''m_registered'', ''m_ignore''],
     command ''WALLHOPS'' ''WH'' MAXPARA 0
       [''m_unregistered'', ''m_wallhops'', ''ms_wallhops'', ''m_wallhops'', ''m_ignore''],
     command ''AUTHENTICATE'' ''AUTHENTICATE'' MAXPARA (MFLG_UNREG OR MFLG_NOSHUN)
       [''m_authenticate'', ''m_registered'', ''m_ignore'', ''m_registered'', ''m_ignore''],
     command ''SASL'' ''SASL'' MAXPARA 0
       [''m_ignore'', ''m_ignore'', ''ms_sasl'', ''m_ignore'', ''m_ignore''],
     command ''REMOVE'' ''RM'' MAXPARA MFLG_SLOW
       [''m_unregistered'', ''m_not_oper'', ''ms_remove'', ''mo_remove'', ''m_ignore''],
     command ''WATCH'' ''WATCH'' MAXPARA MFLG_SLOW
       [''m_unregistered'', ''m_watch'', ''m_ignore'', ''m_watch'', ''m_ignore''],
     command ''ZLINE'' ''ZL'' MAXPARA 0
       [''m_unregistered'', ''m_zline'', ''ms_zline'', ''mo_zline'', ''m_ignore''],
     command ''IRCOPS'' ''IRCOPS'' MAXPARA MFLG_SLOW
       [''m_unregistered'', ''m_ircops'', ''m_ignore'', ''m_ircops'', ''m_ignore''],
     command ''TEMPSHUN'' ''TS'' MAXPARA MFLG_SLOW
       [''m_unregistered'', ''m_not_oper'', ''ms_tempshun'', ''mo_tempshun'', ''m_ignore'']]"

definition msgtab_7 :: "message list" where
  "msgtab_7 = [
     command ''POST'' ''POST'' MAXPARA (MFLG_SLOW OR MFLG_NOSHUN)
       [''m_quit'', ''m_ignore'', ''m_ignore'', ''m_ignore'', ''m_ignore''],
     command ''DNS'' ''DNS'' MAXPARA (MFLG_SLOW OR MFLG_IGNORE)
       [''m_ignore'', ''m_ignore'', ''m_ignore'', ''m_ignore'', ''m_ignore''],
     command ''SERVLIST'' ''SERVLIST'' MAXPARA (MFLG_SLOW OR MFLG_IGNORE)
       [''m_ignore'', ''m_ignore'', ''m_ignore'', ''m_ignore'', ''m_ignore''],
     command ''SERVSET'' ''SERVSET'' MAXPARA (MFLG_SLOW OR MFLG_IGNORE)
       [''m_ignore'', ''m_ignore'', ''m_ignore'', ''m_ignore'', ''m_ignore''],
     command ''SQUERY'' ''SQUERY'' MAXPARA (MFLG_SLOW OR MFLG_IGNORE)
       [''m_ignore'', ''m_ignore'', ''m_ignore'', ''m_ignore'', ''m_ignore'']]"

definition msgtab :: "message list" where
  "msgtab = msgtab_1 @ msgtab_2 @ msgtab_3 @ msgtab_4 @ msgtab_5 @ msgtab_6 @ msgtab_7"

section \<open>The tries\<close>

record msgs =
  msg_tree :: "nat mtree"
  tok_tree :: "nat mtree"
  messages :: "nat \<rightharpoonup> message"

definition index_all :: "(nat \<times> string) list \<Rightarrow> nat mtree" where
  "index_all xs = fold (\<lambda>(m, c) t. add_msg_element t m c) xs new_node"

definition initmsgtree :: msgs where
  "initmsgtree =
     \<lparr>msg_tree = index_all (enumerate 0 (map m_cmd msgtab)), tok_tree = index_all (enumerate 0 (map m_tok msgtab)),
      messages = (\<lambda>i. if i < length msgtab then Some (msgtab ! i) else None)\<rparr>"

text \<open>How a server's command is resolved: as a token, else as a name.\<close>

definition find_command :: "msgs \<Rightarrow> string \<Rightarrow> nat option" where
  "find_command st ch =
     (case msg_tree_parse ch (tok_tree st) of Some m \<Rightarrow> Some m | None \<Rightarrow> msg_tree_parse ch (msg_tree st))"

section \<open>Service mappings\<close>

definition SMAP_FAST :: u32 where "SMAP_FAST = 1"

record s_map =
  map_name :: "string option"
  map_command :: string
  map_services :: "string list"
  map_flags :: u32
  map_msg :: "nat option"

definition pseudo_message :: "nat \<Rightarrow> s_map \<Rightarrow> message" where
  "pseudo_message mp m =
     \<lparr>m_cmd = map_command m, m_tok = map_command m, m_count = 0, m_parameters = 2,
      m_flags = (if map_flags m AND SMAP_FAST = 0 then MFLG_EXTRA OR MFLG_SLOW else MFLG_EXTRA), m_bytes = 0,
      m_extra = Some mp, m_handlers = [''m_ignore'', ''m_pseudo'', ''m_ignore'', ''m_pseudo'', ''m_ignore'']\<rparr>"

text \<open>\<open>a\<close> is the address of the new message and \<open>mp\<close> that of the mapping.\<close>

definition register_mapping :: "nat \<Rightarrow> nat \<Rightarrow> s_map \<Rightarrow> msgs \<Rightarrow> bool \<times> s_map \<times> msgs" where
  "register_mapping a mp m st =
     (if msg_tree_parse (map_command m) (msg_tree st) \<noteq> None then (False, m, st)
      else (True, m\<lparr>map_msg := Some a\<rparr>,
            st\<lparr>msg_tree := add_msg_element (msg_tree st) a (map_command m),
               messages := (messages st)(a \<mapsto> pseudo_message mp m)\<rparr>))"

text \<open>\<open>None\<close> is the failed assertion or the use of a null pointer or of a released message.\<close>

definition unregister_mapping :: "s_map \<Rightarrow> msgs \<Rightarrow> (s_map \<times> msgs) option" where
  "unregister_mapping m st =
     (if msg_tree_parse (map_command m) (msg_tree st) = None then None
      else map_msg m \<bind> (\<lambda>a. messages st a \<bind> (\<lambda>msg. del_msg_element (msg_tree st) (m_cmd msg) \<bind> (\<lambda>t.
             Some (m\<lparr>map_msg := None\<rparr>, st\<lparr>msg_tree := t, messages := (messages st)(a := None)\<rparr>)))))"

definition strIsIrcNk :: "string \<Rightarrow> bool" where "strIsIrcNk s \<longleftrightarrow> strChattr s AND NTL_IRCNK \<noteq> 0"

text \<open>The end of a pseudo block of the configuration: the first component is \<^verbatim>\<open>GlobalServiceMapList\<close>.\<close>

definition pseudoblock :: "nat \<times> nat \<times> s_map \<Rightarrow> s_map list \<times> msgs \<Rightarrow> s_map list \<times> msgs" where
  "pseudoblock = (\<lambda>(a, mp, m) (maps, st).
     if map_name m \<noteq> None \<and> map_services m \<noteq> [] \<and> strIsIrcNk (map_command m)
     then case register_mapping a mp m st of (True, m', st') \<Rightarrow> (m' # maps, st') | (False, m', st') \<Rightarrow> (maps, st')
     else (maps, st))"

fun close_mappings :: "s_map list \<Rightarrow> msgs \<Rightarrow> msgs option" where
  "close_mappings [] st = Some st"
| "close_mappings (m # ms) st = unregister_mapping m st \<bind> (\<lambda>(m', st'). close_mappings ms st')"

section \<open>The table is consistent\<close>

text \<open>All commands and tokens are made of capital letters and underscores, whose slots differ.\<close>

definition cmd_chars :: string where "cmd_chars = ''ABCDEFGHIJKLMNOPQRSTUVWXYZ_''"

lemma tab_chars: "list_all (\<lambda>m. list_all (\<lambda>c. c \<in> set cmd_chars) (m_cmd m) \<and> list_all (\<lambda>c. c \<in> set cmd_chars) (m_tok m)) msgtab"
  by code_simp

lemma slot_inj: "inj_on slot (set cmd_chars)"
proof -
  have "distinct (map slot cmd_chars)" by code_simp
  then show ?thesis by (simp add: distinct_map)
qed

lemma cmd_chars_nick: "c \<in> set cmd_chars \<Longrightarrow> IsNickChar c"
  by (auto simp: cmd_chars_def IsNickChar_iff code_def)

lemma key_eq_iff:
  assumes "list_all (\<lambda>c. c \<in> set cmd_chars) xs" and "list_all (\<lambda>c. c \<in> set cmd_chars) ys"
  shows "key xs = key ys \<longleftrightarrow> xs = ys"
  using inj_on_mapI [OF inj_on_subset [OF slot_inj, of "\<Union> (set ` {xs, ys})"]] assms
  by (auto simp: list_all_iff inj_on_def subset_iff)

lemma distinct_keys:
  assumes "distinct ws" and "\<And>w. w \<in> set ws \<Longrightarrow> list_all (\<lambda>c. c \<in> set cmd_chars) w"
  shows "distinct (map key ws)"
  using assms key_eq_iff by (auto simp: distinct_map inj_on_def)

lemma tab_distinct: "distinct (map m_cmd msgtab)" "distinct (map m_tok msgtab)"
  by code_simp+

lemma tab_short_toks: "list_all (\<lambda>m. m_tok m = m_cmd m \<or> length (m_tok m) \<le> 3) msgtab"
  by code_simp

lemma tab_short_cmds:
  "list_all (\<lambda>m. 3 < length (m_cmd m) \<or> list_all (\<lambda>n. m_tok n = m_cmd n \<or> m_tok n \<noteq> m_cmd m) msgtab) msgtab"
  by code_simp

lemma tab_entry_chars:
  assumes "i < length msgtab"
  shows "list_all (\<lambda>c. c \<in> set cmd_chars) (m_cmd (msgtab ! i))" "list_all (\<lambda>c. c \<in> set cmd_chars) (m_tok (msgtab ! i))"
  using tab_chars assms by (simp_all add: list_all_length)

lemma tab_keys: "distinct (map (key \<circ> m_cmd) msgtab)" "distinct (map (key \<circ> m_tok) msgtab)"
  using distinct_keys [OF tab_distinct(1)] distinct_keys [OF tab_distinct(2)] tab_chars
  by (auto simp: list_all_iff)

lemma tab_no_clash:
  assumes "i < length msgtab" "j < length msgtab" "key (m_cmd (msgtab ! i)) = key (m_tok (msgtab ! j))"
  shows "i = j"
proof -
  have eq: "m_cmd (msgtab ! i) = m_tok (msgtab ! j)"
    using assms key_eq_iff tab_entry_chars by blast
  have "m_tok (msgtab ! j) = m_cmd (msgtab ! j)"
    using tab_short_toks tab_short_cmds assms eq by (fastforce simp: list_all_length)
  then have "map m_cmd msgtab ! i = map m_cmd msgtab ! j" using eq assms by simp
  then show ?thesis using tab_distinct(1) assms by (simp add: nth_eq_iff_index_eq del: nth_map)
qed

lemma tab_params: "list_all (\<lambda>m. 1 \<le> m_parameters m \<and> m_parameters m \<le> MAXPARA \<and> length (m_handlers m) = 5 \<and>
    m_flags m AND MFLG_EXTRA = 0 \<and> m_extra m = None) msgtab"
  by code_simp

lemma enumerate_mem: "(i, x) \<in> set (enumerate 0 xs) \<longleftrightarrow> i < length xs \<and> x = xs ! i"
  by (auto simp: in_set_enumerate_eq)

lemma index_all_ok: "tree_ok (index_all xs)"
  unfolding index_all_def by (rule trie.ok_add_all) simp

lemma index_all_get:
  assumes "distinct (map key xs)"
  shows "msg_tree_parse d (index_all (enumerate 0 xs)) = Some i \<longleftrightarrow>
    i < length xs \<and> list_all IsNickChar d \<and> key d = key (xs ! i)"
proof -
  have dist: "distinct (map (key \<circ> snd) (enumerate 0 xs))" using assms by (simp flip: map_map)
  have in_range: "msg_tree_parse d (index_all (enumerate 0 xs)) = Some j"
    if "j < length xs" "list_all IsNickChar d" "key d = key (xs ! j)" for j
    unfolding index_all_def using that
    by (intro trie.get_add_all [OF _ dist]) (auto simp: enumerate_mem)
  show ?thesis
  proof
    assume get: "msg_tree_parse d (index_all (enumerate 0 xs)) = Some i"
    then have nick: "list_all IsNickChar d" by (simp add: msg_tree_parse_get split: if_splits)
    have "key d \<in> set (map (key \<circ> snd) (enumerate 0 xs))"
    proof (rule ccontr)
      assume "key d \<notin> set (map (key \<circ> snd) (enumerate 0 xs))"
      then have "msg_tree_parse d (index_all (enumerate 0 xs)) = msg_tree_parse d new_node"
        unfolding index_all_def by (intro trie.get_add_other) auto
      with get show False by (simp add: msg_tree_parse_get split: if_splits)
    qed
    then obtain j where "j < length xs" "key d = key (xs ! j)" by (auto simp: enumerate_mem)
    with in_range [OF _ nick] get nick show "i < length xs \<and> list_all IsNickChar d \<and> key d = key (xs ! i)" by auto
  qed (use in_range in blast)
qed

lemmas msg_tree_get = index_all_get [of "map m_cmd msgtab", simplified, OF tab_keys(1)]
lemmas tok_tree_get = index_all_get [of "map m_tok msgtab", simplified, OF tab_keys(2)]

text \<open>C8. After \<open>initmsgtree\<close> a client's word is resolved to an entry of the command table exactly when it
  consists of nickname characters and agrees with the command of the entry in the low five bits of every character, and a
  server's word when it agrees in this way with the token or the command of the entry: no entry hides another one, neither
  among names, nor among tokens, nor between the two. In particular every entry is found by its own name and token. Letters
  are found in either case, but digits and punctuation stand for letters too, so that 0RIVMSG is PRIVMSG.\<close>

theorem msgtab_resolves:
  "(msg_tree_parse d (msg_tree initmsgtree) = Some i \<longleftrightarrow>
      i < length msgtab \<and> list_all IsNickChar d \<and> key d = key (m_cmd (msgtab ! i))) \<and>
   (find_command initmsgtree d = Some i \<longleftrightarrow>
      i < length msgtab \<and> list_all IsNickChar d \<and>
      (key d = key (m_tok (msgtab ! i)) \<or> key d = key (m_cmd (msgtab ! i)))) \<and>
   (i < length msgtab \<longrightarrow>
      msg_tree_parse (m_cmd (msgtab ! i)) (msg_tree initmsgtree) = Some i \<and>
      find_command initmsgtree (m_tok (msgtab ! i)) = Some i \<and> find_command initmsgtree (m_cmd (msgtab ! i)) = Some i)"
proof -
  have m: "msg_tree_parse d (msg_tree initmsgtree) = Some i \<longleftrightarrow>
      i < length msgtab \<and> list_all IsNickChar d \<and> key d = key (m_cmd (msgtab ! i))" for d i
    by (auto simp: initmsgtree_def msg_tree_get)
  have t: "msg_tree_parse d (tok_tree initmsgtree) = Some i \<longleftrightarrow>
      i < length msgtab \<and> list_all IsNickChar d \<and> key d = key (m_tok (msgtab ! i))" for d i
    by (auto simp: initmsgtree_def tok_tree_get)
  have f: "find_command initmsgtree d = Some i \<longleftrightarrow>
      i < length msgtab \<and> list_all IsNickChar d \<and>
      (key d = key (m_tok (msgtab ! i)) \<or> key d = key (m_cmd (msgtab ! i)))" for d i
  proof (cases "msg_tree_parse d (tok_tree initmsgtree)")
    case None
    then show ?thesis using t [of d i] m [of d i] by (auto simp: find_command_def)
  next
    case (Some k)
    then show ?thesis using t [of d i] t [of d k] tab_no_clash [of i k] by (auto simp: find_command_def)
  qed
  have names: "list_all IsNickChar (m_cmd (msgtab ! j)) \<and> list_all IsNickChar (m_tok (msgtab ! j))" if "j < length msgtab" for j
    using tab_entry_chars [OF that] cmd_chars_nick by (auto simp: list_all_iff)
  show ?thesis using names [of i] by (simp add: m f)
qed

theorem msgtab_resolves_witness:
  "0 < length msgtab \<and> find_command initmsgtree ''P'' = Some 0 \<and> find_command initmsgtree ''0rivmsg'' = Some 0"
proof -
  have len: "0 < length msgtab" by code_simp
  have "m_tok (msgtab ! 0) = ''P''" "key ''0rivmsg'' = key (m_cmd (msgtab ! 0))" by code_simp+
  moreover have "list_all IsNickChar ''0rivmsg''" by (simp add: IsNickChar_iff code_def)
  ultimately show ?thesis using msgtab_resolves [of "''0rivmsg''" 0] len by simp
qed

section \<open>The life of a mapping\<close>

lemma strIsIrcNk_iff: "strIsIrcNk s \<longleftrightarrow> list_all IsNickChar s"
proof -
  have bit: "x AND NTL_IRCNK \<noteq> 0 \<longleftrightarrow> bit x 12" for x :: u32
    using bit_iff_and_push_bit_not_eq_0 [of x 12] by (simp add: NTL_IRCNK_def)
  show ?thesis by (simp add: strIsIrcNk_def bit bit_strChattr IsNickChar_def char_has_def [abs_def])
qed

lemma register_unregister:
  assumes "tree_ok (msg_tree st)" and "list_all IsNickChar (map_command m)" and "messages st a = None"
    and "register_mapping a mp m st = (True, m', st')"
  shows "unregister_mapping m' st' = Some (m'\<lparr>map_msg := None\<rparr>, st)"
proof -
  have free: "msg_tree_parse (map_command m) (msg_tree st) = None"
    and m': "m' = m\<lparr>map_msg := Some a\<rparr>"
    and st': "st' = st\<lparr>msg_tree := add_msg_element (msg_tree st) a (map_command m),
      messages := (messages st)(a \<mapsto> pseudo_message mp m)\<rparr>"
    using assms(4) by (auto simp: register_mapping_def split: if_splits)
  have "del_msg_element (add_msg_element (msg_tree st) a (map_command m)) (map_command m) = Some (msg_tree st)"
    by (rule trie.add_del [OF assms(1,2) free])
  moreover have "(messages st)(a := None) = messages st" using assms(3) by (rule fun_upd_idem)
  ultimately show ?thesis
    using assms(1,2) by (simp add: unregister_mapping_def m' st' trie.get_add pseudo_message_def)
qed

lemma register_ok:
  assumes "tree_ok (msg_tree st)" and "register_mapping a mp m st = (b, m', st')"
  shows "tree_ok (msg_tree st') \<and> dom (messages st') \<subseteq> insert a (dom (messages st))"
  using assms by (auto simp: register_mapping_def trie.ok_add split: if_splits)

lemma pseudoblock_close:
  assumes "tree_ok (msg_tree st)" and "messages st a = None" and "close_mappings maps st = Some st0"
    and "pseudoblock (a, mp, m) (maps, st) = (maps', st')"
  shows "tree_ok (msg_tree st') \<and> dom (messages st') \<subseteq> insert a (dom (messages st)) \<and> close_mappings maps' st' = Some st0"
proof -
  obtain b m1 st1 where reg: "register_mapping a mp m st = (b, m1, st1)" by (cases "register_mapping a mp m st")
  have "b \<Longrightarrow> list_all IsNickChar (map_command m) \<Longrightarrow> unregister_mapping m1 st1 = Some (m1\<lparr>map_msg := None\<rparr>, st)"
    using register_unregister [OF assms(1) _ assms(2)] reg by simp
  moreover have "\<not> b \<Longrightarrow> st1 = st" using reg by (auto simp: register_mapping_def split: if_splits)
  ultimately show ?thesis
    using assms register_ok [OF assms(1) reg] reg
    by (auto simp: pseudoblock_def strIsIrcNk_iff split: if_splits bool.splits)
qed

text \<open>C9. Reading pseudo blocks and closing them. A block whose command is not made of nickname characters, or is in
  use in any spelling, changes nothing; any other block makes exactly its command and the other spellings of it resolve to the new message,
  which calls \<^verbatim>\<open>m_pseudo\<close> with the mapping. Closing all mappings that any sequence of blocks left behind succeeds
  and gives back the tries and the messages that were there before.\<close>

theorem mappings_lifecycle:
  assumes "tree_ok (msg_tree st)" and "distinct (map fst blocks)" and "set (map fst blocks) \<inter> dom (messages st) = {}"
  shows "(case fold pseudoblock blocks ([], st) of (maps, st') \<Rightarrow> close_mappings maps st' = Some st) \<and>
    (\<forall>a mp m maps st'. pseudoblock (a, mp, m) ([], st) = (maps, st') \<longrightarrow>
      (if map_name m = None \<or> map_services m = [] \<or> \<not> list_all IsNickChar (map_command m) \<or>
          msg_tree_parse (map_command m) (msg_tree st) \<noteq> None
       then maps = [] \<and> st' = st
       else maps = [m\<lparr>map_msg := Some a\<rparr>] \<and>
         (\<forall>d. msg_tree_parse d (msg_tree st') =
           (if list_all IsNickChar d \<and> key d = key (map_command m) then Some a else msg_tree_parse d (msg_tree st))) \<and>
         map_option (\<lambda>x. (m_handlers x ! 1, m_extra x)) (messages st' a) = Some (''m_pseudo'', Some mp)))"
proof
  have "case fold pseudoblock blocks (maps, s) of (maps', s') \<Rightarrow> close_mappings maps' s' = Some st"
    if "tree_ok (msg_tree s)" "close_mappings maps s = Some st" "distinct (map fst blocks)"
      "set (map fst blocks) \<inter> dom (messages s) = {}" for maps s
    using that
  proof (induction blocks arbitrary: maps s)
    case (Cons b blocks)
    obtain a mp m where b: "b = (a, mp, m)" by (cases b)
    obtain maps1 s1 where s1: "pseudoblock b (maps, s) = (maps1, s1)" by (cases "pseudoblock b (maps, s)")
    have "messages s a = None" using Cons.prems(4) b by auto
    then have "tree_ok (msg_tree s1) \<and> dom (messages s1) \<subseteq> insert a (dom (messages s)) \<and> close_mappings maps1 s1 = Some st"
      using pseudoblock_close [OF Cons.prems(1) _ Cons.prems(2)] s1 b by blast
    moreover from this have "set (map fst blocks) \<inter> dom (messages s1) = {}"
      using Cons.prems(3,4) b by (simp add: disjoint_iff) blast
    ultimately have "case fold pseudoblock blocks (maps1, s1) of (maps', s') \<Rightarrow> close_mappings maps' s' = Some st"
      using Cons.prems(3) by (intro Cons.IH) auto
    then show ?case using s1 by simp
  qed simp
  then show "case fold pseudoblock blocks ([], st) of (maps, st') \<Rightarrow> close_mappings maps st' = Some st"
    using assms by simp
qed (use assms(1) in \<open>auto simp: pseudoblock_def strIsIrcNk_iff register_mapping_def trie.get_add pseudo_message_def\<close>)

theorem mappings_lifecycle_witness:
  "close_mappings (fst (pseudoblock (200, 7, \<lparr>map_name = Some ''X'', map_command = ''xhelp'', map_services = [''x@y''],
     map_flags = 0, map_msg = None\<rparr>) ([], initmsgtree)))
     (snd (pseudoblock (200, 7, \<lparr>map_name = Some ''X'', map_command = ''xhelp'', map_services = [''x@y''],
     map_flags = 0, map_msg = None\<rparr>) ([], initmsgtree))) = Some initmsgtree"
proof -
  have "length msgtab \<le> 200" by code_simp
  then have "messages initmsgtree 200 = None" by (simp add: initmsgtree_def)
  moreover have "tree_ok (msg_tree initmsgtree)" by (simp add: initmsgtree_def index_all_ok)
  ultimately show ?thesis
    using mappings_lifecycle [of initmsgtree "[(200, 7, \<lparr>map_name = Some ''X'', map_command = ''xhelp'',
      map_services = [''x@y''], map_flags = 0, map_msg = None\<rparr>)]"]
    by (auto simp: case_prod_unfold)
qed

end
