(* ===== verification/Parse.thy ===== *)
theory Parse
  imports MsgTab Numnicks
begin

text \<open>
  From a line to a call of a handler: \<^verbatim>\<open>parse_client\<close> and \<^verbatim>\<open>parse_server\<close> of \<^verbatim>\<open>ircd/parse.c\<close>. Both end
  with a tail call, which is the result here: the handler with its arguments, or a value that is returned at once. The record
  \<open>parse_env\<close> is what they read of the client tables, classes and features, with the look-ups by nickname and shun as
  parameters; \<open>parse_state\<close> is what they change: the messages with their counters, the statistics, the time
  stamps of clients and what they send. \<open>None\<close> is undefined behaviour.

  A line is given as the bytes up to \<^verbatim>\<open>bufend\<close>, where the caller has put a NUL; it may contain further NULs. The code
  can read one or two bytes behind the NUL, so \<^verbatim>\<open>parse_server\<close> also gets the old contents of the buffer behind it, up to the end of the
  array; a read behind that end is undefined.
\<close>

section \<open>Environment, state and result\<close>

definition NUL :: char where "NUL = CHR 0x00"

record parse_env =
  pe_dead :: "cptr \<Rightarrow> bool"
  pe_name :: "cptr \<Rightarrow> string"
  pe_from :: "cptr \<Rightarrow> cptr"
  pe_registered :: "cptr \<Rightarrow> bool"
  pe_username :: "cptr \<Rightarrow> string"
  pe_host :: "cptr \<Rightarrow> string"
  pe_tempshun :: "cptr \<Rightarrow> bool"
  shun_lookup :: "cptr \<Rightarrow> bool"
  pe_user :: "cptr \<Rightarrow> bool"
  pe_oper :: "cptr \<Rightarrow> bool"
  get_lag_min :: "cptr \<Rightarrow> int"
  get_lag_factor :: "cptr \<Rightarrow> int"
  pe_handler :: "cptr \<Rightarrow> handler_type"
  idle_from_msg :: bool
  CurrentTime :: int
  FindClient :: "string \<Rightarrow> cptr option"
  pe_numnicks :: numnicks

datatype parse_out = UnknownCommand cptr string | KillUnknown cptr string | Violation cptr string

record parse_state =
  ps_msgs :: msgs
  is_empt :: u32
  is_unco :: u32
  is_unpf :: u32
  is_wrdi :: u32
  is_num :: u32
  ps_since :: "cptr \<Rightarrow> int"
  ps_last :: "cptr \<Rightarrow> int"
  ps_out :: "parse_out list"

datatype param = Str string | Extra "nat option"

datatype parse_result =
    Ret int
  | Call string cptr cptr "param list"
  | Numeric int bool cptr cptr "param list"

section \<open>Words of a line\<close>

abbreviation blank :: "char \<Rightarrow> bool" where "blank c \<equiv> c = CHR '' ''"
abbreviation nonblank :: "char \<Rightarrow> bool" where "nonblank c \<equiv> c \<noteq> CHR '' ''"

definition cstr :: "string \<Rightarrow> string" where "cstr m = takeWhile (\<lambda>c. c \<noteq> NUL) m"

definition at :: "string \<Rightarrow> nat \<Rightarrow> char" where "at m k = (if k < length m then m ! k else NUL)"

text \<open>The text behind the first blank, if there is one.\<close>

definition after_blank :: "string \<Rightarrow> string option" where
  "after_blank s = (case dropWhile nonblank s of [] \<Rightarrow> None | c # r \<Rightarrow> Some r)"

function para_loop :: "bool \<Rightarrow> nat \<Rightarrow> nat \<Rightarrow> string \<Rightarrow> string list" where
  "para_loop keep paramcount i s =
     (case dropWhile blank s of
        [] \<Rightarrow> []
      | c # t \<Rightarrow>
          if c = CHR '':'' then [if keep then c # t else t]
          else if Suc i \<ge> paramcount then [c # t]
          else takeWhile nonblank (c # t) # para_loop keep paramcount (Suc i) (dropWhile nonblank (c # t)))"
  by pat_completeness auto
termination by (relation "measure (\<lambda>(keep, paramcount, i, s). paramcount - i)") auto

declare para_loop.simps [simp del]

definition split_para :: "bool \<Rightarrow> nat \<Rightarrow> nat \<Rightarrow> string option \<Rightarrow> string list" where
  "split_para keep paramcount i s =
     (case s of None \<Rightarrow> [] | Some r \<Rightarrow> para_loop keep (min paramcount MAXPARA) i r)"

definition put_message :: "nat \<Rightarrow> message \<Rightarrow> parse_state \<Rightarrow> parse_state" where
  "put_message a m st = st\<lparr>ps_msgs := (ps_msgs st)\<lparr>messages := (messages (ps_msgs st))(a \<mapsto> m)\<rparr>\<rparr>"

definition handler_of :: "parse_env \<Rightarrow> message \<Rightarrow> cptr \<Rightarrow> string" where
  "handler_of env m c = m_handlers m ! handler_index (pe_handler env c)"

section \<open>Lines of users\<close>

definition is_shun :: "parse_env \<Rightarrow> cptr \<Rightarrow> bool" where
  "is_shun env c \<longleftrightarrow> pe_registered env c \<and> pe_username env c \<noteq> [] \<and> pe_host env c \<noteq> [] \<and>
     (pe_tempshun env c \<or> shun_lookup env c)"

definition client_command :: "string \<Rightarrow> string" where
  "client_command text =
     (case dropWhile blank text of
        [] \<Rightarrow> []
      | c # t \<Rightarrow> if c = CHR '':'' then dropWhile blank (dropWhile nonblank t) else c # t)"

text \<open>What a command costs: the time before which no further line of the client is taken.\<close>

definition charge :: "parse_env \<Rightarrow> cptr \<Rightarrow> message \<Rightarrow> nat \<Rightarrow> parse_state \<Rightarrow> parse_state" where
  "charge env c m i st =
     (let lagmin = (if get_lag_min env c < 0 then 2 else get_lag_min env c);
          lagfactor = (if get_lag_factor env c < 0 then 120 else get_lag_factor env c)
      in if (m_flags m AND MFLG_SLOW \<noteq> 0 \<or> \<not> pe_oper env c) \<and> lagfactor > 0
         then st\<lparr>ps_since := (ps_since st)(c := ps_since st c + (lagmin + int i div lagfactor))\<rparr> else st)"

definition touch :: "parse_env \<Rightarrow> cptr \<Rightarrow> string \<Rightarrow> parse_state \<Rightarrow> parse_state" where
  "touch env c handler st =
     (if \<not> idle_from_msg env \<and> pe_user env c \<and> handler \<noteq> ''m_ping'' \<and> handler \<noteq> ''m_ignore''
      then st\<lparr>ps_last := (ps_last st)(c := CurrentTime env)\<rparr> else st)"

text \<open>The accounting and the call once the command is known; \<open>i\<close> is the number of bytes behind the command.\<close>

definition client_call :: "parse_env \<Rightarrow> parse_state \<Rightarrow> cptr \<Rightarrow> nat \<Rightarrow> message \<Rightarrow> nat \<Rightarrow> string option \<Rightarrow> parse_state \<times> parse_result" where
  "client_call env st c a m i s =
     (let start = (if m_flags m AND MFLG_EXTRA \<noteq> 0 then [Extra (m_extra m)] else []);
          params = split_para False (m_parameters m) (length start) s;
          handler = handler_of env m c;
          st1 = charge env c m i st;
          st2 = put_message a (m\<lparr>m_bytes := m_bytes m + word_of_nat i, m_count := m_count m + 1\<rparr>) st1
      in (touch env c handler st2, Call handler c c (Str (pe_name env c) # start @ map Str params)))"

definition unknown_command :: "parse_env \<Rightarrow> parse_state \<Rightarrow> cptr \<Rightarrow> string \<Rightarrow> string \<Rightarrow> parse_state" where
  "unknown_command env st c buf cmd =
     st\<lparr>ps_out := ps_out st @ (if at buf 0 \<noteq> NUL \<and> \<not> is_shun env c \<and> pe_user env c then [UnknownCommand c cmd] else []),
        is_unco := is_unco st + 1\<rparr>"

text \<open>The distance from \<^verbatim>\<open>s\<close>, or from \<^verbatim>\<open>ch\<close> when there is no blank, to \<^verbatim>\<open>bufend\<close>.\<close>

definition behind :: "string \<Rightarrow> string \<Rightarrow> nat" where
  "behind buf ch = length buf - length (cstr buf) + length (case after_blank ch of Some r \<Rightarrow> r | None \<Rightarrow> ch)"

definition parse_client :: "parse_env \<Rightarrow> parse_state \<Rightarrow> cptr \<Rightarrow> string \<Rightarrow> (parse_state \<times> parse_result) option" where
  "parse_client env st c buf =
     (let ch = client_command (cstr buf); cmd = takeWhile nonblank ch
      in if pe_dead env c then Some (st, Ret 0)
         else if ch = [] then Some (st\<lparr>is_empt := is_empt st + 1\<rparr>, Ret (- 1))
         else case msg_tree_parse cmd (msg_tree (ps_msgs st)) of
           None \<Rightarrow> Some (unknown_command env st c buf cmd, Ret (- 1))
         | Some a \<Rightarrow> messages (ps_msgs st) a \<bind> (\<lambda>m.
             if is_shun env c \<and> m_flags m AND MFLG_NOSHUN = 0 then Some (st, Ret 0)
             else Some (client_call env st c a m (behind buf ch) (after_blank ch))))"

section \<open>Lines of servers\<close>

text \<open>
  The source of a message: the text from \<^verbatim>\<open>ch\<close> on with the source and \<^verbatim>\<open>para[0]\<close>, or the value the
  function returns.
\<close>

definition prefix_name :: "parse_env \<Rightarrow> parse_state \<Rightarrow> cptr \<Rightarrow> string \<Rightarrow>
    (parse_state \<times> (int + string \<times> cptr \<times> string)) option" where
  "prefix_name env st c mem =
     (let text = cstr mem; word = takeWhile nonblank text; name = tl word; ch = drop (Suc (length word)) mem;
          unpf = st\<lparr>is_unpf := is_unpf st + 1\<rparr>; ch' = dropWhile blank ch
      in if after_blank text = None then Some (st, Inl (- 1))
         else case FindClient env name of
           None \<Rightarrow> if length ch' < 2 then None
                   else if at ch' 1 = CHR ''Q'' then Some (unpf, Inr (ch', c, pe_name env c)) else Some (unpf, Inl 0)
         | Some from \<Rightarrow>
             if pe_from env from \<noteq> c then Some (st\<lparr>is_wrdi := is_wrdi st + 1\<rparr>, Inl 0)
             else Some (st, Inr (ch, from, name)))"

definition numeric_prefix :: "string \<Rightarrow> string" where
  "numeric_prefix mem = takeWhile (\<lambda>c. c \<noteq> NUL \<and> nonblank c) (take 5 mem)"

definition prefix_source :: "parse_env \<Rightarrow> cptr \<Rightarrow> string \<Rightarrow> cptr option option" where
  "prefix_source env c mem =
     (let np = numeric_prefix mem in
      if np = [] then Some (Some c)
      else if at mem 1 = CHR '' '' then FindNServer (pe_numnicks env) np
      else if length mem < 3 then None
      else if at mem 2 = CHR '' '' then FindNServer (pe_numnicks env) np
      else findNUser (pe_numnicks env) np)"

definition passes_upstream :: "string \<Rightarrow> bool option" where
  "passes_upstream ch =
     (if length ch < 2 then None
      else if at ch 1 = CHR ''Q'' \<or> (at ch 0 = CHR ''D'' \<and> at ch 1 = CHR '' '') then Some True
      else if at ch 0 \<noteq> CHR ''K'' then Some False
      else if length ch < 3 then None else Some (at ch 2 = CHR ''L''))"

definition kill_unknown :: "parse_env \<Rightarrow> cptr \<Rightarrow> string \<Rightarrow> string \<Rightarrow> parse_out list option" where
  "kill_unknown env c np ch =
     (if at ch 0 = CHR ''N'' \<and> (at ch 1 = CHR '' '' \<or> at ch 1 = CHR ''I'')
      then FindNServer (pe_numnicks env) np \<bind> (\<lambda>server.
        Some (case server of None \<Rightarrow> [] | Some srv \<Rightarrow> if pe_from env srv = c then [KillUnknown c np] else []))
      else Some [])"

definition check_direction :: "parse_env \<Rightarrow> parse_state \<Rightarrow> cptr \<Rightarrow> cptr \<Rightarrow> string \<Rightarrow>
    parse_state \<times> (int + string \<times> cptr \<times> string)" where
  "check_direction env st c from ch =
     (if pe_from env from \<noteq> c then (st\<lparr>is_wrdi := is_wrdi st + 1\<rparr>, Inl 0) else (st, Inr (ch, from, pe_name env from)))"

definition prefix_numeric :: "parse_env \<Rightarrow> parse_state \<Rightarrow> cptr \<Rightarrow> string \<Rightarrow>
    (parse_state \<times> (int + string \<times> cptr \<times> string)) option" where
  "prefix_numeric env st c mem =
     (let np = numeric_prefix mem; ch = dropWhile (\<lambda>x. nonblank x \<and> x \<noteq> NUL) (drop 1 mem); ch' = dropWhile blank ch;
          st1 = (if np = [] then st\<lparr>ps_out := ps_out st @ [Violation c ''Missing Prefix'']\<rparr> else st);
          st2 = st1\<lparr>is_unpf := is_unpf st1 + 1\<rparr>
      in prefix_source env c mem \<bind> (\<lambda>source.
         if ch = [] then None
         else case source of
           Some from \<Rightarrow> Some (check_direction env st1 c from ch)
         | None \<Rightarrow> kill_unknown env c np ch' \<bind> (\<lambda>out. passes_upstream ch' \<bind> (\<lambda>up.
             let st3 = st2\<lparr>ps_out := ps_out st2 @ out\<rparr>
             in if up then Some (check_direction env st3 c c ch') else Some (st3, Inl 0)))))"

definition numeric_value :: "string \<Rightarrow> int" where
  "numeric_value ch = (schar (at ch 0) - 48) * 100 + (schar (at ch 1) - 48) * 10 + (schar (at ch 2) - 48)"

text \<open>The command and its parameters; \<open>left\<close> is the distance from the pointer to \<^verbatim>\<open>bufend\<close>.\<close>

definition server_command :: "parse_env \<Rightarrow> parse_state \<Rightarrow> cptr \<Rightarrow> bool \<Rightarrow> int \<Rightarrow> string \<times> cptr \<times> string \<Rightarrow>
    (parse_state \<times> parse_result) option" where
  "server_command env st c numeric_src stale_len src =
     (case src of (ch0, from, para0) \<Rightarrow>
      let ch = cstr (dropWhile blank ch0); cmd = takeWhile nonblank ch; s = after_blank ch;
          left = int (length (dropWhile blank ch0)) - stale_len;
          i = left - int (case s of Some r \<Rightarrow> Suc (length cmd) | None \<Rightarrow> 0)
      in if NUL \<notin> set ch0 then None
         else if ch = [] then Some (st\<lparr>is_empt := is_empt st + 1\<rparr>, Ret (- 1))
         else if s \<noteq> None \<and> length cmd = 3 \<and> IsDigit (hd ch)
         then if numeric_value ch = 0 then None
              else Some (st\<lparr>is_num := is_num st + 1\<rparr>,
                     Numeric (numeric_value ch) numeric_src c from (Str para0 # map Str (split_para True 2 0 s)))
         else case find_command (ps_msgs st) cmd of
           None \<Rightarrow> Some (st\<lparr>is_unco := is_unco st + 1\<rparr>, Ret (- 1))
         | Some a \<Rightarrow> messages (ps_msgs st) a \<bind> (\<lambda>m.
             Some (put_message a (m\<lparr>m_bytes := m_bytes m + word_of_int i, m_count := m_count m + 1\<rparr>) st,
               Call (handler_of env m c) c from (Str para0 # map Str (split_para False (m_parameters m) 0 s)))))"

definition parse_server :: "parse_env \<Rightarrow> parse_state \<Rightarrow> cptr \<Rightarrow> string \<Rightarrow> string \<Rightarrow>
    (parse_state \<times> parse_result) option" where
  "parse_server env st c buf stale =
     (let mem = buf @ NUL # stale in
      if pe_dead env c then Some (st, Ret 0)
      else (if at mem 0 = CHR '':'' then prefix_name env st c mem else prefix_numeric env st c mem) \<bind> (\<lambda>(st1, src).
        case src of
          Inl r \<Rightarrow> Some (st1, Ret r)
        | Inr x \<Rightarrow> server_command env st1 c (at mem 0 \<noteq> CHR '':'') (int (Suc (length stale))) x))"

section \<open>Splitting\<close>

definition word_ok :: "string \<Rightarrow> bool" where
  "word_ok w \<longleftrightarrow> w \<noteq> [] \<and> hd w \<noteq> CHR '':'' \<and> list_all nonblank w"

lemma para_loop_simps:
  "para_loop keep n i [] = []"
  "para_loop keep n i (CHR '' '' # s) = para_loop keep n i s"
  "c \<noteq> CHR '' '' \<Longrightarrow> para_loop keep n i (c # t) =
     (if c = CHR '':'' then [if keep then c # t else t]
      else if Suc i \<ge> n then [c # t]
      else takeWhile nonblank (c # t) # para_loop keep n (Suc i) (dropWhile nonblank (c # t)))"
  by (simp_all add: para_loop.simps [of keep n i])

lemma length_para_loop: "length (para_loop keep n i s) \<le> max 1 (n - i)"
proof (induction keep n i s rule: para_loop.induct)
  case (1 keep n i s)
  show ?case
  proof (cases "dropWhile blank s")
    case Nil
    then have "para_loop keep n i s = []" by (subst para_loop.simps) (simp only: list.case)
    then show ?thesis by simp
  next
    case (Cons c t)
    show ?thesis
    proof (cases "c = CHR '':'' \<or> Suc i \<ge> n")
      case True
      then show ?thesis using Cons by (auto simp: para_loop.simps [of keep n i s])
    next
      case False
      then have "length (para_loop keep n (Suc i) (dropWhile nonblank (c # t))) \<le> max 1 (n - Suc i)"
        using 1 [OF Cons] by simp
      moreover have "max 1 (n - Suc i) < max 1 (n - i)" using False by auto
      ultimately show ?thesis
        using False Cons by (simp only: para_loop.simps [of keep n i s] list.case if_False de_Morgan_disj list.size)
    qed
  qed
qed

lemma para_loop_words: "list_all word_ok (butlast (para_loop keep n i s))"
proof (induction keep n i s rule: para_loop.induct)
  case (1 keep n i s)
  show ?case
  proof (cases "dropWhile blank s")
    case Nil
    then have "para_loop keep n i s = []" by (subst para_loop.simps) (simp only: list.case)
    then show ?thesis by simp
  next
    case (Cons c t)
    have c: "c \<noteq> CHR '' ''" using hd_dropWhile [of blank s] Cons by auto
    show ?thesis
    proof (cases "c = CHR '':'' \<or> Suc i \<ge> n")
      case True
      then show ?thesis using Cons by (auto simp: para_loop.simps [of keep n i s])
    next
      case False
      then have "list_all word_ok (butlast (para_loop keep n (Suc i) (dropWhile nonblank (c # t))))"
        using 1 [OF Cons] by simp
      moreover have "word_ok (takeWhile nonblank (c # t))"
        using False c by (auto simp: word_ok_def list_all_iff dest: set_takeWhileD)
      ultimately show ?thesis using False Cons by (simp add: para_loop.simps [of keep n i s])
    qed
  qed
qed

definition print_params :: "string list \<Rightarrow> string \<Rightarrow> string" where
  "print_params ps l = concat (map (\<lambda>p. CHR '' '' # p) ps) @ CHR '' '' # CHR '':'' # l"

lemma takeWhile_word:
  "list_all nonblank w \<Longrightarrow> takeWhile nonblank (w @ CHR '' '' # s) = w"
  "list_all nonblank w \<Longrightarrow> dropWhile nonblank (w @ CHR '' '' # s) = CHR '' '' # s"
  by (auto simp: list_all_iff takeWhile_append dropWhile_append)

lemma print_params_blank: "\<exists>s. print_params ps l = CHR '' '' # s"
  by (cases ps) (auto simp: print_params_def)

lemma para_loop_print:
  "list_all word_ok ps \<Longrightarrow> i + length ps < n \<Longrightarrow> para_loop False n i (print_params ps l) = ps @ [l]"
proof (induction ps arbitrary: i)
  case Nil
  then show ?case by (simp add: print_params_def para_loop_simps)
next
  case (Cons p ps)
  obtain s where s: "print_params ps l = CHR '' '' # s" using print_params_blank by blast
  obtain c t where p: "p = c # t" "c \<noteq> CHR '':''" "c \<noteq> CHR '' ''" "list_all nonblank p"
    using Cons.prems(1) by (cases p) (auto simp: word_ok_def)
  have "print_params (p # ps) l = CHR '' '' # p @ CHR '' '' # s" using s by (simp add: print_params_def)
  then have "para_loop False n i (print_params (p # ps) l) = p # para_loop False n (Suc i) (print_params ps l)"
    using p Cons.prems(2) takeWhile_word [OF p(4), of s] by (simp add: para_loop_simps s)
  then show ?case using Cons by simp
qed

lemma split_para_print:
  "list_all word_ok ps \<Longrightarrow> i + length ps < n \<Longrightarrow> i + length ps < MAXPARA \<Longrightarrow>
    split_para False n i (Some (print_params ps l)) = ps @ [l]"
  by (simp add: split_para_def para_loop_print)

lemma length_split_para: "length (split_para keep n i s) \<le> max 1 (MAXPARA - i)"
proof (cases s)
  case (Some r)
  have "length (para_loop keep (min n MAXPARA) i r) \<le> max 1 (min n MAXPARA - i)" by (rule length_para_loop)
  also have "\<dots> \<le> max 1 (MAXPARA - i)" by simp
  finally show ?thesis using Some by (simp add: split_para_def)
qed (simp add: split_para_def)

lemma split_para_words: "list_all word_ok (butlast (split_para keep n i s))"
  by (simp add: split_para_def para_loop_words split: option.split)

section \<open>Soundness of the calls\<close>

lemma prefix_direction:
  assumes "pe_from env c = c"
  shows "prefix_name env st c mem = Some (st', Inr (ch, from, p)) \<Longrightarrow> pe_from env from = c"
    "prefix_numeric env st c mem = Some (st', Inr (ch, from, p)) \<Longrightarrow> pe_from env from = c"
  using assms
  by (auto simp: prefix_name_def prefix_numeric_def check_direction_def Let_def
      split: if_splits option.splits bind_splits)

text \<open>The arguments of a handler: \<^verbatim>\<open>para[0]\<close>, perhaps an extra argument, and the words of the line, of which only the last one
  can be empty, contain blanks or start with a colon. With the final NULL they fit the array.\<close>

definition args_ok :: "string \<Rightarrow> param list \<Rightarrow> param list \<Rightarrow> bool" where
  "args_ok p es ps \<longleftrightarrow> length ps + 1 \<le> MAXPARA + 2 \<and>
     (\<exists>ws. ps = Str p # es @ map Str ws \<and> list_all word_ok (butlast ws))"

lemma args_ok_split: "length es \<le> 1 \<Longrightarrow> args_ok p es (Str p # es @ map Str (split_para keep n (length es) s))"
  using length_split_para [of keep n "length es" s] split_para_words [of keep n "length es" s]
  by (auto simp: args_ok_def MAXPARA_def)

lemma args_ok_split0: "args_ok p [] (Str p # map Str (split_para keep n 0 s))"
  using args_ok_split [of "[]"] by simp

lemma server_command_sound:
  assumes "server_command env st c b k (ch, from, p) = Some (st', r)"
  shows "case r of Ret n \<Rightarrow> True | Call h x f ps \<Rightarrow> x = c \<and> f = from \<and> args_ok p [] ps
    | Numeric n b x f ps \<Rightarrow> x = c \<and> f = from \<and> args_ok p [] ps"
  using assms
  by (auto simp: server_command_def Let_def args_ok_split0 split: if_splits option.splits bind_splits)

definition extra_args :: "message \<Rightarrow> param list" where
  "extra_args m = (if m_flags m AND MFLG_EXTRA \<noteq> 0 then [Extra (m_extra m)] else [])"

lemma client_call_sound:
  assumes "client_call env st c a m i s = (st', Call h x f ps)"
  shows "x = c" "f = c" "h = handler_of env m c" "args_ok (pe_name env c) (extra_args m) ps"
  using assms args_ok_split [of "extra_args m" "pe_name env c" False "m_parameters m" s]
  by (auto simp: client_call_def extra_args_def Let_def split: if_splits)


section \<open>Printed lines\<close>

lemma nick_word: "list_all IsNickChar w \<Longrightarrow> list_all nonblank w" "list_all IsNickChar w \<Longrightarrow> NUL \<notin> set w"
  "IsNickChar x \<Longrightarrow> x \<noteq> CHR '':''" "IsNickChar x \<Longrightarrow> x \<noteq> CHR '' ''"
  by (auto simp: list_all_iff IsNickChar_iff code_def NUL_def)

lemma resolved_word: "msg_tree_parse w t = Some a \<Longrightarrow> list_all IsNickChar w"
  by (simp add: msg_tree_parse_get split: if_splits)

lemma found_word: "find_command st w = Some a \<Longrightarrow> list_all IsNickChar w"
  by (auto simp: find_command_def dest: resolved_word split: option.splits)

lemma cstr_id: "NUL \<notin> set s \<Longrightarrow> cstr s = s" "NUL \<notin> set s \<Longrightarrow> cstr (s @ NUL # t) = s"
  by (auto simp: cstr_def takeWhile_append takeWhile_eq_all_conv)

lemma after_blank_word: "list_all nonblank w \<Longrightarrow> after_blank (w @ CHR '' '' # s) = Some s"
  by (simp add: after_blank_def takeWhile_word)

lemma split_para_tl:
  "list_all word_ok ps \<Longrightarrow> i + length ps < n \<Longrightarrow> i + length ps < MAXPARA \<Longrightarrow>
    split_para False n i (Some (tl (print_params ps l))) = ps @ [l]"
  using split_para_print [of ps i n l] print_params_blank [of ps l] by (auto simp: split_para_def para_loop_simps)

lemma print_params_tl: "print_params ps l = CHR '' '' # tl (print_params ps l)"
  using print_params_blank [of ps l] by auto

lemma client_command_word:
  assumes "list_all IsNickChar w" and "w \<noteq> []"
  shows "client_command (w @ s) = w @ s"
  using assms nick_word(1) [OF assms(1)] by (cases w) (auto simp: client_command_def dest: nick_word(3))

lemma charge_since:
  "get_lag_min env c < 0 \<Longrightarrow> get_lag_factor env c < 0 \<Longrightarrow> \<not> pe_oper env c \<Longrightarrow>
    ps_since (charge env c m i st) c = ps_since st c + 2 + int i div 120"
  by (simp add: charge_def)

lemma charge_frame:
  "ps_msgs (charge env c m i st) = ps_msgs st" "ps_out (charge env c m i st) = ps_out st"
  "ps_since (put_message a m st) = ps_since st" "ps_out (put_message a m st) = ps_out st"
  "ps_since (touch env c h st) = ps_since st" "ps_out (touch env c h st) = ps_out st" "ps_msgs (touch env c h st) = ps_msgs st"
  "ps_msgs (put_message a m st) = (ps_msgs st)\<lparr>messages := (messages (ps_msgs st))(a \<mapsto> m)\<rparr>"
  by (simp_all add: charge_def put_message_def touch_def Let_def)

definition used :: "nat \<Rightarrow> message \<Rightarrow> message" where
  "used n m = m\<lparr>m_bytes := m_bytes m + word_of_nat n, m_count := m_count m + 1\<rparr>"

text \<open>C11. What a user's program prints is what the handler gets: a command that the trie knows, followed by words and a last
  parameter behind a colon that may be empty or contain blanks, calls the handler of the command for the state of
  the connection with exactly these parameters, unless the client is dead or shunned. The message counts the call and the bytes behind the
  command, nothing is sent, and in a class without lag settings the client is charged two seconds and one for each 120
  bytes.\<close>

theorem parse_client_roundtrip:
  assumes "\<not> pe_dead env c" and "is_shun env c \<longrightarrow> m_flags m AND MFLG_NOSHUN \<noteq> 0"
    and "msg_tree_parse cmd (msg_tree (ps_msgs st)) = Some a" and "messages (ps_msgs st) a = Some m" and "cmd \<noteq> []"
    and "m_flags m AND MFLG_EXTRA = 0" and "list_all word_ok ps" and "length ps < m_parameters m" and "length ps < MAXPARA"
    and "NUL \<notin> set (print_params ps l)"
  shows "\<exists>st'. parse_client env st c (cmd @ print_params ps l) =
      Some (st', Call (m_handlers m ! handler_index (pe_handler env c)) c c (map Str (pe_name env c # ps @ [l]))) \<and>
    ps_msgs st' = (ps_msgs st)\<lparr>messages := (messages (ps_msgs st))(a \<mapsto> used (length (print_params ps l) - 1) m)\<rparr> \<and>
    ps_out st' = ps_out st \<and>
    (get_lag_min env c < 0 \<and> get_lag_factor env c < 0 \<and> \<not> pe_oper env c \<longrightarrow>
      ps_since st' c = ps_since st c + 2 + int (length (print_params ps l) - 1) div 120)"
proof -
  let ?line = "cmd @ print_params ps l" and ?t = "tl (print_params ps l)"
  have w: "list_all IsNickChar cmd" by (rule resolved_word [OF assms(3)])
  note b = print_params_tl [of ps l]
  have plain: "cstr ?line = ?line" using nick_word(2) [OF w] assms(10) by (intro cstr_id) auto
  have ch: "client_command ?line = ?line" by (rule client_command_word [OF w assms(5)])
  have cmd: "takeWhile nonblank ?line = cmd" and s: "after_blank ?line = Some ?t"
    by (subst b, rule takeWhile_word after_blank_word, rule nick_word(1) [OF w])+
  have "parse_client env st c ?line = Some (client_call env st c a m (length ?t) (Some ?t))"
    using assms(1-5) by (auto simp: parse_client_def Let_def plain ch cmd s behind_def)
  moreover have "split_para False (m_parameters m) 0 (Some ?t) = ps @ [l]" using assms(7-9) by (intro split_para_tl) auto
  ultimately show ?thesis
    using assms(6) by (simp add: client_call_def Let_def handler_of_def charge_frame charge_since used_def)
qed

definition prefix_ok :: "string \<Rightarrow> bool" where
  "prefix_ok np \<longleftrightarrow> np \<noteq> [] \<and> length np \<le> 5 \<and> hd np \<noteq> CHR '':'' \<and> list_all nonblank np \<and> NUL \<notin> set np"

definition find_source :: "numnicks \<Rightarrow> string \<Rightarrow> cptr option option" where
  "find_source nn np = (if length np \<le> 2 then FindNServer nn np else findNUser nn np)"

lemma numeric_prefix_word:
  assumes "prefix_ok np"
  shows "numeric_prefix (np @ CHR '' '' # r) = np"
proof -
  have "take 5 (np @ CHR '' '' # r) = np @ take (5 - length np) (CHR '' '' # r)"
    using assms by (simp add: prefix_ok_def)
  moreover have "takeWhile (\<lambda>c. c \<noteq> NUL \<and> nonblank c) (take k (CHR '' '' # r)) = []" for k by (cases k) simp_all
  moreover have "\<forall>x\<in>set np. x \<noteq> NUL \<and> nonblank x" using assms by (auto simp: prefix_ok_def list_all_iff)
  ultimately show ?thesis by (simp add: numeric_prefix_def takeWhile_append2)
qed

lemma prefix_source_word:
  assumes "prefix_ok np"
  shows "prefix_source env c (np @ CHR '' '' # r) = find_source (pe_numnicks env) np"
proof -
  have "at (np @ CHR '' '' # r) k = CHR '' '' \<longleftrightarrow> k = length np" if "k \<le> length np" for k
    using assms that by (auto simp: at_def nth_append prefix_ok_def list_all_length)
  note blank_at = this
  have one: "at (np @ CHR '' '' # r) 1 = CHR '' '' \<longleftrightarrow> length np = 1"
    using assms blank_at [of 1] by (cases np) (auto simp: prefix_ok_def)
  show ?thesis
  proof (cases "length np = 1")
    case True
    then show ?thesis using assms one by (simp add: prefix_source_def numeric_prefix_word find_source_def prefix_ok_def)
  next
    case False
    then have two: "2 \<le> length np" using assms by (cases np) (auto simp: prefix_ok_def Suc_le_eq)
    then have "at (np @ CHR '' '' # r) 2 = CHR '' '' \<longleftrightarrow> length np \<le> 2" using blank_at [of 2] by auto
    then show ?thesis
      using assms False one two by (auto simp: prefix_source_def numeric_prefix_word find_source_def prefix_ok_def)
  qed
qed

lemma prefix_numeric_word:
  assumes "prefix_ok np" and "find_source (pe_numnicks env) np = Some (Some src)" and "pe_from env src = c"
  shows "prefix_numeric env st c (np @ CHR '' '' # r) = Some (st, Inr (CHR '' '' # r, src, pe_name env src))"
proof -
  obtain x w where np: "np = x # w" using assms(1) by (cases np) (auto simp: prefix_ok_def)
  have rest: "dropWhile (\<lambda>x. nonblank x \<and> x \<noteq> NUL) (drop 1 (np @ CHR '' '' # r)) = CHR '' '' # r"
    using assms(1) by (auto simp: np prefix_ok_def list_all_iff dropWhile_append)
  have "np \<noteq> []" using np by simp
  then show ?thesis
    using assms(2,3) unfolding prefix_numeric_def Let_def rest numeric_prefix_word [OF assms(1)] prefix_source_word [OF assms(1)]
    by (simp add: check_direction_def)
qed

lemma parse_server_prefix:
  assumes "\<not> pe_dead env c" and "prefix_ok np" and "find_source (pe_numnicks env) np = Some (Some src)"
    and "pe_from env src = c"
  shows "parse_server env st c (np @ CHR '' '' # r) stale =
    server_command env st c True (int (Suc (length stale))) (CHR '' '' # r @ NUL # stale, src, pe_name env src)"
proof -
  have "at (np @ CHR '' '' # r @ NUL # stale) 0 \<noteq> CHR '':''"
    using assms(2) by (cases np) (auto simp: at_def prefix_ok_def)
  then show ?thesis
    using assms(1) prefix_numeric_word [OF assms(2-4), of st "r @ NUL # stale"] by (simp add: parse_server_def Let_def)
qed

lemma server_line_exact:
  assumes "\<not> pe_dead env c" and "prefix_ok np" and "find_source (pe_numnicks env) np = Some (Some src)"
    and "pe_from env src = c" and "find_command (ps_msgs st) cmd = Some a" and "messages (ps_msgs st) a = Some m"
    and "cmd \<noteq> []" and "\<not> (length cmd = 3 \<and> IsDigit (hd cmd))"
    and "list_all word_ok ps" and "length ps < m_parameters m" and "length ps < MAXPARA" and "NUL \<notin> set (print_params ps l)"
  shows "parse_server env st c (np @ CHR '' '' # cmd @ print_params ps l) stale =
      Some (put_message a (used (length (print_params ps l) - 1) m) st,
        Call (handler_of env m c) c src (map Str (pe_name env src # ps @ [l])))"
proof -
  let ?line = "cmd @ print_params ps l" and ?t = "tl (print_params ps l)"
  have w: "list_all IsNickChar cmd" by (rule found_word [OF assms(5)])
  note b = print_params_tl [of ps l]
  have "dropWhile blank (CHR '' '' # ?line @ NUL # stale) = ?line @ NUL # stale"
    using w assms(7) nick_word(4) by (cases cmd) auto
  moreover have "cstr (?line @ NUL # stale) = ?line" using nick_word(2) [OF w] assms(12) by (intro cstr_id) auto
  moreover have "takeWhile nonblank ?line = cmd" "after_blank ?line = Some ?t"
    by (subst b, rule takeWhile_word after_blank_word, rule nick_word(1) [OF w])+
  moreover have "split_para False (m_parameters m) 0 (Some ?t) = ps @ [l]" using assms(9-11) by (intro split_para_tl) auto
  moreover have "length (print_params ps l) = Suc (length ?t)" by (subst b) simp
  ultimately show ?thesis
    unfolding parse_server_prefix [OF assms(1-4)] server_command_def
    using assms(5-8) by (simp add: Let_def used_def)
qed

text \<open>C12. What a server prints is what the handler gets: a line with the numeric of a client or server behind that connection, a command
  or token that the tries know and that is not a three-digit numeric, words and a last parameter calls the handler with the client of
  the numeric as the source and exactly these parameters. The message counts the call and the bytes behind the
  command.\<close>

theorem parse_server_roundtrip:
  assumes "\<not> pe_dead env c" and "prefix_ok np" and "find_source (pe_numnicks env) np = Some (Some src)"
    and "pe_from env src = c" and "find_command (ps_msgs st) cmd = Some a" and "messages (ps_msgs st) a = Some m"
    and "cmd \<noteq> []" and "\<not> (length cmd = 3 \<and> IsDigit (hd cmd))"
    and "list_all word_ok ps" and "length ps < m_parameters m" and "length ps < MAXPARA" and "NUL \<notin> set (print_params ps l)"
  shows "\<exists>st'. parse_server env st c (np @ CHR '' '' # cmd @ print_params ps l) stale =
      Some (st', Call (m_handlers m ! handler_index (pe_handler env c)) c src (map Str (pe_name env src # ps @ [l]))) \<and>
    ps_msgs st' = (ps_msgs st)\<lparr>messages := (messages (ps_msgs st))(a \<mapsto> used (length (print_params ps l) - 1) m)\<rparr> \<and>
    ps_out st' = ps_out st"
  using server_line_exact [OF assms, of stale] by (simp add: handler_of_def charge_frame)

section \<open>Undefined behaviour\<close>

text \<open>A numeric of value zero, for which the code has no message to count.\<close>

definition zero_numeric :: "string \<Rightarrow> bool" where
  "zero_numeric ch \<longleftrightarrow> after_blank (cstr ch) \<noteq> None \<and> length (takeWhile nonblank (cstr ch)) = 3 \<and>
     IsDigit (hd (cstr ch)) \<and> numeric_value (cstr ch) = 0"

text \<open>A prefix of one character with no blank in the next two bytes.\<close>

definition lone_prefix :: "string \<Rightarrow> bool" where
  "lone_prefix mem \<longleftrightarrow> length (numeric_prefix mem) = 1 \<and> at mem 1 \<noteq> CHR '' '' \<and> at mem 2 \<noteq> CHR '' ''"

definition live_messages :: "msgs \<Rightarrow> bool" where
  "live_messages ms \<longleftrightarrow> (\<forall>w a. find_command ms w = Some a \<longrightarrow> messages ms a \<noteq> None)"

lemma live_messages_init: "live_messages initmsgtree"
proof -
  have "a < length msgtab" if "find_command initmsgtree w = Some a" for w a
    using that by (auto simp: find_command_def initmsgtree_def msg_tree_get tok_tree_get split: option.splits)
  then show ?thesis by (auto simp: live_messages_def initmsgtree_def)
qed

lemma server_command_fault:
  assumes "live_messages (ps_msgs st)" and "NUL \<in> set ch"
  shows "server_command env st c b k (ch, src, p) = None \<longleftrightarrow> zero_numeric (dropWhile blank ch)"
proof -
  let ?ch = "cstr (dropWhile blank ch)"
  have ne: "after_blank ?ch \<noteq> None \<Longrightarrow> ?ch \<noteq> []" by (auto simp: after_blank_def)
  show ?thesis
  proof (cases "find_command (ps_msgs st) (takeWhile nonblank ?ch)")
    case None
    then show ?thesis using ne assms(2) by (auto simp: server_command_def zero_numeric_def Let_def)
  next
    case (Some a)
    then obtain m where "messages (ps_msgs st) a = Some m" using assms(1) by (auto simp: live_messages_def)
    with Some show ?thesis using ne assms(2) by (auto simp: server_command_def zero_numeric_def Let_def)
  qed
qed

lemma FindNServer_some: "np \<noteq> [] \<Longrightarrow> FindNServer nn np \<noteq> None"
  using FindNServer_defined [of np nn] by auto

text \<open>Where the command starts: behind the prefix and the blanks after it.\<close>

definition command_text :: "string \<Rightarrow> string" where
  "command_text mem = dropWhile blank
     (if at mem 0 = CHR '':'' then drop (Suc (length (takeWhile nonblank (cstr mem)))) mem
      else dropWhile (\<lambda>x. nonblank x \<and> x \<noteq> NUL) (drop 1 mem))"

lemma dropWhile_behind: "\<exists>ys. xs = ys @ NUL # stale \<Longrightarrow> P NUL = False \<Longrightarrow> \<exists>zs. dropWhile P xs = zs @ NUL # stale"
proof -
  assume "\<exists>ys. xs = ys @ NUL # stale" and P: "P NUL = False"
  then obtain ys where "xs = ys @ NUL # stale" by blast
  then show ?thesis using P by (cases "\<forall>y\<in>set ys. P y") (auto simp: dropWhile_append)
qed

lemma passes_upstream_defined: "3 \<le> length ch \<Longrightarrow> passes_upstream ch \<noteq> None"
  unfolding passes_upstream_def by (auto split: if_splits)

lemma after_blank_shorter: "after_blank s \<noteq> None \<Longrightarrow> length (takeWhile nonblank s) < length s"
  by (induction s) (auto simp: after_blank_def)

lemma kill_unknown_defined: "np \<noteq> [] \<Longrightarrow> \<exists>out. kill_unknown env c np ch = Some out"
  using FindNServer_defined [of np "pe_numnicks env"] unfolding kill_unknown_def by (auto split: if_splits)

lemma prefix_numeric_defined:
  assumes "\<And>i srv. server_list (pe_numnicks env) i = Some srv \<Longrightarrow> client_list (cli_serv (pe_numnicks env) srv) \<noteq> None"
    and "\<not> lone_prefix mem" and "mem = buf @ NUL # stale" and "buf \<noteq> []" and "2 \<le> length stale"
  shows "prefix_numeric env st c mem \<noteq> None"
proof -
  let ?np = "numeric_prefix mem" and ?ch = "dropWhile (\<lambda>x. nonblank x \<and> x \<noteq> NUL) (drop 1 mem)"
  have "\<exists>ys. drop 1 mem = ys @ NUL # stale" using assms(3,4) by (cases buf) auto
  then have rest: "\<exists>ys. ?ch = ys @ NUL # stale" by (rule dropWhile_behind) simp
  then have "\<exists>ys. dropWhile blank ?ch = ys @ NUL # stale" by (rule dropWhile_behind) (simp add: NUL_def)
  then obtain ys where "dropWhile blank ?ch = ys @ NUL # stale" by blast
  then have "3 \<le> length (dropWhile blank ?ch)" using assms(5) by (simp only: length_append list.size)
  then have up: "passes_upstream (dropWhile blank ?ch) \<noteq> None" by (rule passes_upstream_defined)
  have ne: "?ch \<noteq> []" using rest by (metis append_is_Nil_conv list.distinct(1))
  have src: "prefix_source env c mem \<noteq> None"
  proof (cases "length ?np \<ge> 2")
    case True
    then show ?thesis
      using numeric_lookup_defined [OF assms(1) True] assms(3-5) by (auto simp: prefix_source_def Let_def)
  next
    case False
    then have "length ?np = 0 \<or> length ?np = 1" by linarith
    then show ?thesis using assms(2-5) FindNServer_some [of ?np] by (auto simp: prefix_source_def lone_prefix_def Let_def)
  qed
  show ?thesis
  proof (cases "prefix_source env c mem = Some None")
    case True
    have "?np \<noteq> []" using True by (auto simp: prefix_source_def)
    then obtain out where "kill_unknown env c ?np (dropWhile blank ?ch) = Some out" using kill_unknown_defined by blast
    with True up ne show ?thesis by (auto simp: prefix_numeric_def Let_def simp del: dropWhile_eq_Nil_conv)
  next
    case False
    then obtain x where "prefix_source env c mem = Some (Some x)" using src by auto
    then show ?thesis using ne by (simp add: prefix_numeric_def Let_def)
  qed
qed

lemma name_behind:
  assumes "after_blank (cstr (buf @ NUL # stale)) \<noteq> None"
  shows "\<exists>ys. drop (Suc (length (takeWhile nonblank (cstr (buf @ NUL # stale))))) (buf @ NUL # stale) = ys @ NUL # stale"
proof -
  have "length (takeWhile nonblank (cstr (buf @ NUL # stale))) < length (cstr (buf @ NUL # stale))"
    by (rule after_blank_shorter [OF assms])
  also have "length (cstr (buf @ NUL # stale)) \<le> length buf" by (induction buf) (auto simp: cstr_def)
  finally show ?thesis by (auto simp: Suc_le_eq)
qed

lemma prefix_name_defined:
  assumes "2 \<le> length stale"
  shows "prefix_name env st c (buf @ NUL # stale) \<noteq> None"
proof -
  let ?mem = "buf @ NUL # stale"
  let ?ch = "drop (Suc (length (takeWhile nonblank (cstr ?mem)))) ?mem"
  have "2 \<le> length (dropWhile blank ?ch)" if "after_blank (cstr ?mem) \<noteq> None"
  proof -
    have "\<exists>ys. dropWhile blank ?ch = ys @ NUL # stale"
      using name_behind [OF that] by (rule dropWhile_behind) (simp add: NUL_def)
    then show ?thesis using assms by auto
  qed
  then show ?thesis by (cases "after_blank (cstr ?mem) = None") (simp_all add: prefix_name_def Let_def split: option.split)
qed

lemma prefix_msgs:
  "prefix_name env st c mem = Some (st', r) \<Longrightarrow> ps_msgs st' = ps_msgs st"
  "prefix_numeric env st c mem = Some (st', r) \<Longrightarrow> ps_msgs st' = ps_msgs st"
  by (auto simp: prefix_name_def prefix_numeric_def check_direction_def Let_def split: if_splits option.splits bind_splits)

lemma prefix_rest:
  "at mem 0 = CHR '':'' \<Longrightarrow> prefix_name env st c mem = Some (st', Inr (ch, src, p)) \<Longrightarrow> dropWhile blank ch = command_text mem"
  "at mem 0 \<noteq> CHR '':'' \<Longrightarrow> prefix_numeric env st c mem = Some (st', Inr (ch, src, p)) \<Longrightarrow> dropWhile blank ch = command_text mem"
  by (auto simp: prefix_name_def prefix_numeric_def check_direction_def command_text_def Let_def
      split: if_splits option.splits bind_splits)

lemma prefix_NUL:
  assumes "buf \<noteq> []"
    and "(if at (buf @ NUL # stale) 0 = CHR '':'' then prefix_name env st c (buf @ NUL # stale)
      else prefix_numeric env st c (buf @ NUL # stale)) = Some (st', Inr (ch, src, p))"
  shows "NUL \<in> set ch"
proof -
  let ?mem = "buf @ NUL # stale"
  have "NUL \<in> set (command_text ?mem)"
  proof (cases "at ?mem 0 = CHR '':''")
    case True
    then have "after_blank (cstr ?mem) \<noteq> None" using assms(2) by (auto simp: prefix_name_def Let_def split: if_splits)
    from name_behind [OF this] obtain ys where "drop (Suc (length (takeWhile nonblank (cstr ?mem)))) ?mem = ys @ NUL # stale" by blast
    then have "\<exists>zs. command_text ?mem = zs @ NUL # stale"
      using True dropWhile_behind [of _ stale blank] by (simp add: command_text_def NUL_def)
    then show ?thesis by auto
  next
    case False
    have "\<exists>ys. drop 1 ?mem = ys @ NUL # stale" using assms(1) by (cases buf) auto
    then have "\<exists>ys. dropWhile (\<lambda>x. nonblank x \<and> x \<noteq> NUL) (drop 1 ?mem) = ys @ NUL # stale" by (rule dropWhile_behind) simp
    then have "\<exists>zs. command_text ?mem = zs @ NUL # stale"
      using False dropWhile_behind [of _ stale blank] by (simp add: command_text_def NUL_def)
    then show ?thesis by auto
  qed
  moreover have "dropWhile blank ch = command_text ?mem" using assms(2) prefix_rest by (auto split: if_splits)
  ultimately show ?thesis by (metis set_dropWhileD)
qed

text \<open>C32. Where \<^verbatim>\<open>parse_server\<close> goes wrong. With server tables and messages in order, on a non-empty line with at least two more
  bytes of the buffer behind its NUL, it only does when the line is a one-character numeric prefix and nothing else, or when the command of the line, the
  word at the place behind the prefix, is a numeric of value zero; zeros elsewhere in the line or in the buffer do no harm. And every line of a
  server that sends the numeric 000 with a known source makes it use a null pointer.\<close>

theorem parse_server_faults:
  assumes "\<And>i srv. server_list (pe_numnicks env) i = Some srv \<Longrightarrow> client_list (cli_serv (pe_numnicks env) srv) \<noteq> None"
    and "live_messages (ps_msgs st)"
  shows "(parse_server env st c buf stale = None \<and> buf \<noteq> [] \<and> 2 \<le> length stale \<longrightarrow>
      (at buf 0 \<noteq> CHR '':'' \<and> lone_prefix (buf @ NUL # stale)) \<or> zero_numeric (command_text (buf @ NUL # stale))) \<and>
    (\<not> pe_dead env c \<and> prefix_ok np \<and> find_source (pe_numnicks env) np = Some (Some src) \<and> pe_from env src = c \<longrightarrow>
      parse_server env st c (np @ '' 000 '' @ r) stale = None)"
proof (intro conjI impI)
  let ?mem = "buf @ NUL # stale"
  assume a: "parse_server env st c buf stale = None \<and> buf \<noteq> [] \<and> 2 \<le> length stale"
  have at0: "at ?mem 0 = at buf 0" using a by (simp add: at_def nth_append)
  show "(at buf 0 \<noteq> CHR '':'' \<and> lone_prefix ?mem) \<or> zero_numeric (command_text ?mem)"
  proof (rule disjCI, rule ccontr)
    assume no: "\<not> zero_numeric (command_text ?mem)" and "\<not> (at buf 0 \<noteq> CHR '':'' \<and> lone_prefix ?mem)"
    then have "(if at ?mem 0 = CHR '':'' then prefix_name env st c ?mem else prefix_numeric env st c ?mem) \<noteq> None"
      using prefix_numeric_defined [OF assms(1) _ refl] prefix_name_defined [of stale env st c buf] a at0 by auto
    then obtain st1 y where
      y: "(if at ?mem 0 = CHR '':'' then prefix_name env st c ?mem else prefix_numeric env st c ?mem) = Some (st1, y)" by auto
    have nd: "\<not> pe_dead env c" using a by (auto simp: parse_server_def)
    show False
    proof (cases y)
      case (Inl n)
      then show ?thesis using a y nd by (simp add: parse_server_def Let_def)
    next
      case (Inr x)
      obtain ch src' p where x: "x = (ch, src', p)" by (cases x)
      have "live_messages (ps_msgs st1)" using y prefix_msgs assms(2) by (metis (full_types))
      moreover have "dropWhile blank ch = command_text ?mem" using y prefix_rest unfolding Inr x by (auto split: if_splits)
      moreover have "NUL \<in> set ch" using a y Inr x by (intro prefix_NUL [of buf stale]) auto
      ultimately have "server_command env st1 c (at ?mem 0 \<noteq> CHR '':'') (1 + int (length stale)) x \<noteq> None"
        using no server_command_fault [of st1 ch] unfolding x by metis
      then show ?thesis using a y Inr nd by (simp add: parse_server_def Let_def)
    qed
  qed
next
  assume a: "\<not> pe_dead env c \<and> prefix_ok np \<and> find_source (pe_numnicks env) np = Some (Some src) \<and> pe_from env src = c"
  have "zero_numeric (''000 '' @ r @ NUL # stale)"
    by (simp add: zero_numeric_def cstr_def NUL_def after_blank_def numeric_value_def at_def IsDigit_iff schar_def code_def)
  then show "parse_server env st c (np @ '' 000 '' @ r) stale = None"
    using a parse_server_prefix [of env c np src st "''000 '' @ r" stale] server_command_fault [OF assms(2)] by simp
qed

section \<open>Examples\<close>

definition demo_parse_env :: parse_env where
  "demo_parse_env = \<lparr>pe_dead = (\<lambda>_. False), pe_name = (\<lambda>c. if c = 7 then ''Alice'' else ''hub.example''), pe_from = (\<lambda>_. 1),
     pe_registered = (\<lambda>_. True), pe_username = (\<lambda>_. ''u''), pe_host = (\<lambda>_. ''h''), pe_tempshun = (\<lambda>_. False),
     shun_lookup = (\<lambda>_. False), pe_user = (\<lambda>c. c = 7), pe_oper = (\<lambda>_. False), get_lag_min = (\<lambda>_. - 1), get_lag_factor = (\<lambda>_. - 1),
     pe_handler = (\<lambda>c. if c = 7 then CLIENT_HANDLER else SERVER_HANDLER), idle_from_msg = True, CurrentTime = 1000,
     FindClient = (\<lambda>n. if n = ''Alice'' then Some 7 else None), pe_numnicks = demo_net\<rparr>"

definition demo_message :: message where
  "demo_message = command ''PRIVMSG'' ''P'' MAXPARA MFLG_SLOW [''m_unregistered'', ''m_privmsg'', ''ms_privmsg'', ''mo_privmsg'', ''m_ignore'']"

definition demo_parse_state :: parse_state where
  "demo_parse_state = \<lparr>ps_msgs = \<lparr>msg_tree = index_all [(0, ''PRIVMSG'')], tok_tree = index_all [(0, ''P'')],
       messages = [0 \<mapsto> demo_message]\<rparr>,
     is_empt = 0, is_unco = 0, is_unpf = 0, is_wrdi = 0, is_num = 0, ps_since = (\<lambda>_. 0), ps_last = (\<lambda>_. 0), ps_out = []\<rparr>"

lemma demo_tries:
  "msg_tree_parse d (index_all [(0, w)]) = (if list_all IsNickChar d \<and> key d = key w then Some 0 else None)"
  by (simp add: index_all_def trie.get_add) (simp add: msg_tree_parse_get)

lemma demo_state [simp]:
  "msg_tree (ps_msgs demo_parse_state) = index_all [(0, ''PRIVMSG'')]" "tok_tree (ps_msgs demo_parse_state) = index_all [(0, ''P'')]"
  "messages (ps_msgs demo_parse_state) = [0 \<mapsto> demo_message]" "ps_out demo_parse_state = []" "ps_since demo_parse_state c = 0"
  by (simp_all add: demo_parse_state_def)

lemma demo_env [simp]:
  "\<not> pe_dead demo_parse_env c" "pe_from demo_parse_env c = 1" "pe_name demo_parse_env 7 = ''Alice''" "\<not> is_shun demo_parse_env c"
  "pe_handler demo_parse_env 1 = SERVER_HANDLER" "pe_handler demo_parse_env 7 = CLIENT_HANDLER" "pe_numnicks demo_parse_env = demo_net"
  "get_lag_min demo_parse_env c = - 1" "get_lag_factor demo_parse_env c = - 1" "\<not> pe_oper demo_parse_env c"
  by (simp_all add: demo_parse_env_def is_shun_def)

lemma demo_msg [simp]:
  "m_flags demo_message = MFLG_SLOW" "m_parameters demo_message = MAXPARA" "m_handlers demo_message ! Suc 0 = ''m_privmsg''"
  "m_handlers demo_message ! 2 = ''ms_privmsg''"
  by (simp_all add: demo_message_def command_def)

lemma demo_source: "find_source demo_net ''ABAAA'' = Some (Some 7)" "prefix_ok ''ABAAA''"
proof -
  have "findNUser demo_net ''ABAAA'' = Some (Some 7)" by code_simp
  then show "find_source demo_net ''ABAAA'' = Some (Some 7)" by (simp add: find_source_def)
qed (simp add: prefix_ok_def NUL_def)

lemma demo_words: "msg_tree_parse ''PRIVMSG'' (index_all [(0, ''PRIVMSG'')]) = Some 0"
  "find_command (ps_msgs demo_parse_state) ''P'' = Some 0"
  by (simp_all add: demo_tries find_command_def IsNickChar_iff code_def)

lemma demo_params: "list_all word_ok [''Bob'']" "NUL \<notin> set (print_params [''Bob''] ''hello you'')"
  by (simp_all add: word_ok_def print_params_def NUL_def)

lemma demo_live: "live_messages (ps_msgs demo_parse_state)"
  by (auto simp: live_messages_def find_command_def demo_tries split: if_splits option.splits)

lemma demo_lists: "server_list demo_net i = Some srv \<Longrightarrow> client_list (cli_serv demo_net srv) \<noteq> None"
  by (auto simp: demo_net_def split: if_splits)

theorem parse_client_roundtrip_witness:
  "\<exists>st'. parse_client demo_parse_env demo_parse_state 7 (''PRIVMSG'' @ print_params [''Bob''] ''hello you'') =
      Some (st', Call ''m_privmsg'' 7 7 [Str ''Alice'', Str ''Bob'', Str ''hello you'']) \<and> ps_since st' 7 = 2"
proof -
  have "\<exists>st'. parse_client demo_parse_env demo_parse_state 7 (''PRIVMSG'' @ print_params [''Bob''] ''hello you'') =
      Some (st', Call (m_handlers demo_message ! handler_index (pe_handler demo_parse_env 7)) 7 7
        (map Str (pe_name demo_parse_env 7 # [''Bob''] @ [''hello you'']))) \<and>
    ps_msgs st' = (ps_msgs demo_parse_state)\<lparr>messages := (messages (ps_msgs demo_parse_state))
      (0 \<mapsto> used (length (print_params [''Bob''] ''hello you'') - 1) demo_message)\<rparr> \<and>
    ps_out st' = ps_out demo_parse_state \<and>
    (get_lag_min demo_parse_env 7 < 0 \<and> get_lag_factor demo_parse_env 7 < 0 \<and> \<not> pe_oper demo_parse_env 7 \<longrightarrow>
      ps_since st' 7 = ps_since demo_parse_state 7 + 2 + int (length (print_params [''Bob''] ''hello you'') - 1) div 120)"
    by (rule parse_client_roundtrip)
      (use demo_params in \<open>simp_all add: demo_words MFLG_SLOW_def MFLG_EXTRA_def MAXPARA_def del: msg_tree_parse.simps\<close>)
  then show ?thesis by (auto simp: print_params_def)
qed

lemma demo_server_line:
  "\<exists>st'. parse_server demo_parse_env demo_parse_state 1 (''ABAAA'' @ CHR '' '' # ''P'' @ print_params [''Bob''] ''hello you'') [] =
      Some (st', Call ''ms_privmsg'' 1 7 [Str ''Alice'', Str ''Bob'', Str ''hello you''])"
proof -
  have "parse_server demo_parse_env demo_parse_state 1 (''ABAAA'' @ CHR '' '' # ''P'' @ print_params [''Bob''] ''hello you'') [] =
      Some (put_message 0 (used (length (print_params [''Bob''] ''hello you'') - 1) demo_message) demo_parse_state,
        Call (handler_of demo_parse_env demo_message 1) 1 7 (map Str (pe_name demo_parse_env 7 # [''Bob''] @ [''hello you''])))"
    by (rule server_line_exact) (use demo_params in \<open>simp_all add: demo_words demo_source MAXPARA_def\<close>)
  then show ?thesis by (auto simp: handler_of_def simp del: One_nat_def)
qed

theorem parse_server_roundtrip_witness:
  "\<exists>st'. parse_server demo_parse_env demo_parse_state 1 (''ABAAA'' @ CHR '' '' # ''P'' @ print_params [''Bob''] ''hello you'') [] =
      Some (st', Call ''ms_privmsg'' 1 7 [Str ''Alice'', Str ''Bob'', Str ''hello you''])"
proof -
  have "\<exists>st'. parse_server demo_parse_env demo_parse_state 1 (''ABAAA'' @ CHR '' '' # ''P'' @ print_params [''Bob''] ''hello you'') [] =
      Some (st', Call (m_handlers demo_message ! handler_index (pe_handler demo_parse_env 1)) 1 7
        (map Str (pe_name demo_parse_env 7 # [''Bob''] @ [''hello you'']))) \<and>
    ps_msgs st' = (ps_msgs demo_parse_state)\<lparr>messages := (messages (ps_msgs demo_parse_state))
      (0 \<mapsto> used (length (print_params [''Bob''] ''hello you'') - 1) demo_message)\<rparr> \<and>
    ps_out st' = ps_out demo_parse_state"
    by (rule parse_server_roundtrip) (use demo_params in \<open>simp_all add: demo_words demo_source MAXPARA_def\<close>)
  then show ?thesis by (auto simp del: One_nat_def)
qed


theorem parse_server_faults_witness:
  "parse_server demo_parse_env demo_parse_state 1 ''ABAAA 000 Bob'' [] = None"
  using parse_server_faults [of demo_parse_env demo_parse_state 1 _ _ "''ABAAA''" 7 "''Bob''", OF _ demo_live] demo_lists demo_source
  by auto

end
