(* ===== verification/Dispatch.thy ===== *)
theory Dispatch
  imports Packet Parse
begin

text \<open>
  A server link as a whole: the packet handler cuts the bytes into lines, every line goes through \<^verbatim>\<open>parse_server\<close>, and the call it ends
  with is made before the next line is looked at. The world of the connection is what the parser reads and changes, with the calls made so far, or
  \<open>None\<close> after undefined behaviour. The handlers are a parameter: \<open>handler\<close> gives for every call what it makes of the environment and the state of the
  parser, that is of the client tables, names, classes, features and messages, and whether it returns \<^verbatim>\<open>CPTR_KILLED\<close>; nothing is
  assumed of it. \<open>stale\<close> is what the buffer holds behind a line.
\<close>

section \<open>From packets to handlers\<close>

type_synonym link_world = "parse_env \<times> parse_state \<times> parse_result list"

type_synonym handlers = "parse_result \<Rightarrow> parse_env \<times> parse_state \<Rightarrow> (parse_env \<times> parse_state) \<times> bool"

definition call_handler :: "handlers \<Rightarrow> parse_env \<Rightarrow> parse_state \<Rightarrow> parse_result list \<Rightarrow> parse_result \<Rightarrow> link_world \<times> bool" where
  "call_handler handler env st calls r =
     (case handler r (env, st) of ((env', st'), killed) \<Rightarrow> ((env', st', calls @ [r]), killed))"

definition line_parser :: "handlers \<Rightarrow> cptr \<Rightarrow> (string \<Rightarrow> string) \<Rightarrow> link_world option \<Rightarrow> string \<Rightarrow> link_world option \<times> bool" where
  "line_parser handler c stale w line =
     (case w \<bind> (\<lambda>(env, st, calls). map_option (\<lambda>(st', r).
              case r of Ret n \<Rightarrow> ((env, st', calls), False) | _ \<Rightarrow> call_handler handler env st' calls r)
            (Parse.parse_server env st c line (stale line))) of
        None \<Rightarrow> (None, True)
      | Some (w', killed) \<Rightarrow> (Some w', killed))"

text \<open>Whether the socket of the connection is dead, after the handlers that were called.\<close>

definition link_dead :: "cptr \<Rightarrow> link_world option \<Rightarrow> bool" where
  "link_dead c w = (case w of None \<Rightarrow> False | Some (env, st, calls) \<Rightarrow> pe_dead env c)"

section \<open>Commands\<close>

record command_line =
  cl_prefix :: string
  cl_command :: string
  cl_words :: "string list"
  cl_last :: string

definition print_command :: "command_line \<Rightarrow> string" where
  "print_command m = cl_prefix m @ CHR '' '' # cl_command m @ print_params (cl_words m) (cl_last m)"

text \<open>
  The call a command stands for in a given environment and state, with the state that has counted it; \<open>None\<close> when its source is unknown
  or in another direction, its word is no command, or its parameters are not in order.
\<close>

definition command_call :: "parse_env \<Rightarrow> parse_state \<Rightarrow> cptr \<Rightarrow> command_line \<Rightarrow> (parse_state \<times> parse_result) option" where
  "command_call env st c m =
     find_source (pe_numnicks env) (cl_prefix m) \<bind> (\<lambda>src. src \<bind> (\<lambda>src.
     find_command (ps_msgs st) (cl_command m) \<bind> (\<lambda>a. messages (ps_msgs st) a \<bind> (\<lambda>msg.
       if \<not> pe_dead env c \<and> prefix_ok (cl_prefix m) \<and> pe_from env src = c \<and> cl_command m \<noteq> [] \<and>
          \<not> (length (cl_command m) = 3 \<and> IsDigit (hd (cl_command m))) \<and> list_all word_ok (cl_words m) \<and>
          length (cl_words m) < min (m_parameters msg) MAXPARA \<and> NUL \<notin> set (print_params (cl_words m) (cl_last m))
       then Some (put_message a (used (length (print_params (cl_words m) (cl_last m)) - 1) msg) st,
                  Call (handler_of env msg c) c src (map Str (pe_name env src # cl_words m @ [cl_last m])))
       else None))))"

text \<open>
  The commands one after the other, each in the world that the handlers of the earlier ones have left, up to the first that kills the connection or
  leaves its socket dead. \<open>None\<close> when a command has no call in the world in which it arrives.
\<close>

fun run_commands :: "handlers \<Rightarrow> cptr \<Rightarrow> link_world \<Rightarrow> command_line list \<Rightarrow> (outcome \<times> link_world) option" where
  "run_commands handler c w [] = Some (Done, w)"
| "run_commands handler c (env, st, calls) (m # ms) =
     command_call env st c m \<bind> (\<lambda>(st', r).
       case call_handler handler env st' calls r of
         (w', killed) \<Rightarrow> if killed then Some (Killed, w') else if link_dead c (Some w') then Some (Exited, w')
                        else run_commands handler c w' ms)"

lemma command_call_parsed:
  assumes "command_call env st c m = Some (st', r)"
  shows "Parse.parse_server env st c (print_command m) stale = Some (st', r)" "\<exists>h x f ps. r = Call h x f ps"
proof -
  obtain src a msg where f: "find_source (pe_numnicks env) (cl_prefix m) = Some (Some src)"
    "find_command (ps_msgs st) (cl_command m) = Some a" "messages (ps_msgs st) a = Some msg"
    and ok: "\<not> pe_dead env c" "prefix_ok (cl_prefix m)" "pe_from env src = c" "cl_command m \<noteq> []"
      "\<not> (length (cl_command m) = 3 \<and> IsDigit (hd (cl_command m)))" "list_all word_ok (cl_words m)"
      "length (cl_words m) < m_parameters msg" "length (cl_words m) < MAXPARA"
      "NUL \<notin> set (print_params (cl_words m) (cl_last m))"
    and r: "st' = put_message a (used (length (print_params (cl_words m) (cl_last m)) - 1) msg) st"
      "r = Call (handler_of env msg c) c src (map Str (pe_name env src # cl_words m @ [cl_last m]))"
    using assms by (auto simp: command_call_def split: bind_splits if_splits)
  show "Parse.parse_server env st c (print_command m) stale = Some (st', r)"
    unfolding r print_command_def by (rule server_line_exact [OF ok(1,2) f(1) ok(3) f(2,3) ok(4-9)])
  show "\<exists>h x f ps. r = Call h x f ps" using r(2) by blast
qed

text \<open>What becomes of the world at the end: a connection with a dead socket is exited.\<close>

definition link_end :: "link_world option cli_env \<Rightarrow> outcome \<Rightarrow> link_world \<Rightarrow> link_world option" where
  "link_end ce out w = (if out = Exited then exit_client ce (Some w) (cli_info ce (Some w)) else Some w)"

lemma deliver_commands:
  assumes "IsDead ce = link_dead c" and "run_commands handler c w ms = Some (out, w')" and "con_world cn = Some w"
  shows "\<exists>cn'. deliver (line_parser handler c stale) ce cn (map print_command ms) = (out, cn') \<and> con_world cn' = link_end ce out w'"
  using assms
proof (induction handler c w ms arbitrary: cn rule: run_commands.induct)
  case (1 handler c w)
  then show ?case by (simp add: link_end_def)
next
  case (2 handler c env st calls m ms)
  then obtain st' r where call: "command_call env st c m = Some (st', r)" by (auto split: bind_splits)
  obtain w1 killed where h: "call_handler handler env st' calls r = (w1, killed)" by fastforce
  have line: "line_parser handler c stale (Some (env, st, calls)) (print_command m) = (Some w1, killed)"
    using command_call_parsed(1) [OF call, of "stale (print_command m)"] command_call_parsed(2) [OF call] h by (auto simp: line_parser_def)
  let ?cn = "(update_messages_received (cn\<lparr>con_buffer := print_command m\<rparr>))\<lparr>con_world := Some w1\<rparr>"
  have one: "handle_line (line_parser handler c stale) ce (cn\<lparr>con_buffer := print_command m\<rparr>) =
      (if killed then (Killed, ?cn) else if link_dead c (Some w1) then (Exited, ?cn\<lparr>con_world := link_end ce Exited w1\<rparr>) else (Done, ?cn))"
    using line "2.prems"(1,3) by (simp add: handle_line_def update_messages_received_def link_end_def Let_def)
  show ?case
  proof (cases "killed \<or> link_dead c (Some w1)")
    case True
    then show ?thesis using one "2.prems"(2) call h by (auto simp: link_end_def)
  next
    case False
    then have "run_commands handler c w1 ms = Some (out, w')" using "2.prems"(2) call h by simp
    with False show ?thesis
      using one "2.IH" [OF call refl h [symmetric] _ _ "2.prems"(1), of "?cn\<lparr>con_buffer := []\<rparr>"] by simp
  qed
qed

text \<open>C13. A server link from bytes to handlers, with handlers that may do anything: a packet of printed commands makes exactly the calls that
  the commands stand for, in order and with exactly the printed parameters, each command resolved with the client tables, names, classes and messages that the
  handlers of the earlier commands have left. It stops at the first call whose handler kills the connection or leaves its socket dead, in which case the
  connection is exited. Required is that every command up to there has a call in the world in which it arrives: a source known by then behind the
  link, a word that is a command or token then, and parameters in order.\<close>

theorem link_dispatches:
  assumes "IsDead ce = link_dead c" and "cli_env.parse_server ce = line_parser handler c stale"
    and "list_all (line_ok BUFSIZE) (map print_command ms)"
    and "con_buffer cn = []" and "con_world cn = Some (env, st, calls)"
    and "run_commands handler c (env, st, calls) ms = Some (out, w')"
  shows "\<exists>cn'. server_dopacket ce cn (frame (map print_command ms)) = Some (out, cn') \<and> con_world cn' = link_end ce out w'"
proof -
  let ?cn = "update_bytes_received (length (frame (map print_command ms))) cn"
  have "server_dopacket ce cn (frame (map print_command ms)) = Some (deliver (line_parser handler c stale) ce ?cn (map print_command ms))"
    using server_loop_frame [OF assms(3), of ?cn ce] assms(2,4) by (simp add: server_dopacket_def update_bytes_received_def)
  moreover have "con_world ?cn = Some (env, st, calls)" using assms(5) by (simp add: update_bytes_received_def)
  ultimately show ?thesis using deliver_commands [OF assms(1,6), of ?cn stale] by auto
qed

definition demo_command :: command_line where
  "demo_command = \<lparr>cl_prefix = ''ABAAA'', cl_command = ''P'', cl_words = [''Bob''], cl_last = ''hello you''\<rparr>"

text \<open>A handler that renames the source of the call.\<close>

definition demo_handler :: handlers where
  "demo_handler r = (\<lambda>(env, st). ((env\<lparr>pe_name := (pe_name env)(7 := ''Alicia'')\<rparr>, st), False))"

definition demo_link :: "link_world option cli_env" where
  "demo_link = cli_env.make (\<lambda>w l. (w, False)) (line_parser demo_handler 1 (\<lambda>_. [])) (\<lambda>w r. w) (\<lambda>w. []) (link_dead 1) (\<lambda>w. True)
     (\<lambda>w. False) (\<lambda>w. False) (\<lambda>w. False) (\<lambda>w. True) (\<lambda>w. 1024) id id"

definition demo_count :: "message \<Rightarrow> message" where
  "demo_count = used (length (print_params [''Bob''] ''hello you'') - 1)"

lemma demo_command_call:
  assumes "messages (ps_msgs st) 0 = Some dm" "msg_tree (ps_msgs st) = index_all [(0, ''PRIVMSG'')]"
    "tok_tree (ps_msgs st) = index_all [(0, ''P'')]" "m_parameters dm = MAXPARA" "m_handlers dm ! 2 = ''ms_privmsg''"
    "pe_numnicks env = demo_net" "\<not> pe_dead env 1" "pe_from env 7 = 1" "pe_handler env 1 = SERVER_HANDLER"
  shows "command_call env st 1 demo_command =
     Some (put_message 0 (demo_count dm) st, Call ''ms_privmsg'' 1 7 [Str (pe_name env 7), Str ''Bob'', Str ''hello you''])"
proof -
  have "find_command (ps_msgs st) ''P'' = Some 0"
    using assms(2,3) by (simp add: demo_tries find_command_def IsNickChar_iff code_def)
  then show ?thesis
    using assms demo_params demo_source
    by (simp add: command_call_def demo_command_def handler_of_def demo_count_def MAXPARA_def del: One_nat_def)
qed

theorem link_dispatches_witness:
  "\<exists>cn' env st. server_dopacket demo_link \<lparr>con_buffer = [], con_receiveB = 0, con_receiveM = 0, me_receiveB = 0, me_receiveM = 0,
      con_world = Some (demo_parse_env, demo_parse_state, [])\<rparr> (frame (map print_command [demo_command, demo_command])) = Some (Done, cn') \<and>
    con_world cn' = Some (env, st, [Call ''ms_privmsg'' 1 7 [Str ''Alice'', Str ''Bob'', Str ''hello you''],
      Call ''ms_privmsg'' 1 7 [Str ''Alicia'', Str ''Bob'', Str ''hello you'']])"
proof -
  let ?calls = "[Call ''ms_privmsg'' 1 7 [Str ''Alice'', Str ''Bob'', Str ''hello you''],
      Call ''ms_privmsg'' 1 7 [Str ''Alicia'', Str ''Bob'', Str ''hello you'']]"
  have ok: "list_all (line_ok BUFSIZE) (map print_command [demo_command, demo_command])"
    by (simp add: line_ok_def print_command_def demo_command_def print_params_def IsEol_iff BUFSIZE_def)
  obtain env st where run: "run_commands demo_handler 1 (demo_parse_env, demo_parse_state, []) [demo_command, demo_command] =
      Some (Done, env, st, ?calls)"
    by (simp add: demo_command_call [where dm = demo_message] demo_command_call [where dm = "demo_count demo_message"]
        call_handler_def demo_handler_def link_dead_def put_message_def demo_count_def used_def del: One_nat_def)
  have "\<exists>cn'. server_dopacket demo_link \<lparr>con_buffer = [], con_receiveB = 0, con_receiveM = 0, me_receiveB = 0, me_receiveM = 0,
      con_world = Some (demo_parse_env, demo_parse_state, [])\<rparr> (frame (map print_command [demo_command, demo_command])) = Some (Done, cn') \<and>
    con_world cn' = link_end demo_link Done (env, st, ?calls)"
    by (rule link_dispatches [OF _ _ ok _ _ run]) (simp_all add: demo_link_def cli_env.make_def)
  then show ?thesis by (auto simp: link_end_def)
qed

end
