(* ===== verification/IPcheck.thy ===== *)
theory IPcheck
  imports IPMask
begin

text \<open>
  Connection throttling: \<^verbatim>\<open>ircd/IPcheck.c\<close>. The registry is a hash table of chains with an entry for every
  network that has or recently had clients. A pointer to an entry is its bucket with its place in the chain; a released entry goes
  to the free list, of which only the length matters, since an entry is cleared when it is taken. Addresses are in host
  byte order; the hash of the code is the byte-swapped one, a permutation of the buckets. The current time, the start time of
  the server and the features are parameters. \<open>None\<close> is a failed assertion.
\<close>

section \<open>Data\<close>

definition IP_REGISTRY_TABLE_SIZE :: nat where "IP_REGISTRY_TABLE_SIZE = 0x10000"
definition STARTTARGETS :: u32 where "STARTTARGETS = 10"
definition TARGET_DELAY :: int where "TARGET_DELAY = 128"

record ip_target =
  tg_count :: u32
  tg_targets :: "u8 list"

record ip_entry =
  ip_target :: "ip_target option"
  ip_addr :: irc_in_addr
  last_connect :: int
  connected :: u16
  attempts :: u8

record ip_registry =
  hashTable :: "nat \<Rightarrow> ip_entry list"
  freeList :: nat

record ip_params =
  clone_limit :: int
  clone_period :: int
  clone_delay :: int
  me_since :: int

record ip_client =
  cli_ip :: irc_in_addr
  ip_checked :: bool
  my_connect :: bool
  cli_targets :: "u8 list"
  cli_nexttarget :: int
  cli_firsttime :: int

definition NOW :: "int \<Rightarrow> int" where "NOW t = t mod 0x10000"

definition CONNECTED_SINCE :: "int \<Rightarrow> int \<Rightarrow> int" where "CONNECTED_SINCE t x = NOW t - x"

text \<open>Division of the C language, which rounds towards zero.\<close>

definition cdiv :: "int \<Rightarrow> int \<Rightarrow> int" where
  "cdiv a b = (if 0 \<le> a then a div b else - ((- a) div b))"

text \<open>
  In \<^verbatim>\<open>(ADDR)->in6_16[0] && ~(ADDR)->in6_16[0]\<close> the segment is promoted to int before it is complemented, so the second operand
  is never zero.
\<close>

definition irc_in_addr_valid :: "irc_in_addr \<Rightarrow> bool" where
  "irc_in_addr_valid a \<longleftrightarrow> (a ! 0 \<noteq> 0 \<and> NOT (uint (a ! 0)) \<noteq> 0) \<or> a ! 1 \<noteq> a ! 0 \<or> a ! 2 \<noteq> a ! 0 \<or> a ! 3 \<noteq> a ! 0 \<or>
     a ! 4 \<noteq> a ! 0 \<or> a ! 5 \<noteq> a ! 0 \<or> a ! 6 \<noteq> a ! 0 \<or> a ! 7 \<noteq> a ! 0"

section \<open>The table\<close>

definition ip_registry_canonicalize :: "irc_in_addr \<Rightarrow> irc_in_addr" where
  "ip_registry_canonicalize a = (if irc_in_addr_is_ipv4 a then [0x2002, a ! 6, a ! 7, 0, 0, 0, 0, 0] else a)"

definition ip_registry_hash :: "irc_in_addr \<Rightarrow> nat" where
  "ip_registry_hash a = unat (a ! 0 XOR a ! 1 XOR a ! 2 XOR a ! 3) mod IP_REGISTRY_TABLE_SIZE"

definition entry_matches :: "irc_in_addr \<Rightarrow> ip_entry \<Rightarrow> bool" where
  "entry_matches canon e \<longleftrightarrow> ipmask_check canon (ip_addr e) (if canon ! 0 = 0x2002 then 48 else 64) \<noteq> 0"

fun first_index :: "('a \<Rightarrow> bool) \<Rightarrow> 'a list \<Rightarrow> nat option" where
  "first_index P [] = None"
| "first_index P (x # xs) = (if P x then Some 0 else map_option Suc (first_index P xs))"

definition ip_registry_find :: "ip_registry \<Rightarrow> irc_in_addr \<Rightarrow> (nat \<times> nat) option" where
  "ip_registry_find r a =
     (let canon = ip_registry_canonicalize a; b = ip_registry_hash canon
      in map_option (Pair b) (first_index (entry_matches canon) (hashTable r b)))"

definition entry_at :: "ip_registry \<Rightarrow> nat \<times> nat \<Rightarrow> ip_entry" where
  "entry_at r p = hashTable r (fst p) ! snd p"

definition put_entry :: "ip_registry \<Rightarrow> nat \<times> nat \<Rightarrow> ip_entry \<Rightarrow> ip_registry" where
  "put_entry r p e = r\<lparr>hashTable := (hashTable r)(fst p := (hashTable r (fst p))[snd p := e])\<rparr>"

definition ip_registry_add :: "ip_registry \<Rightarrow> ip_entry \<Rightarrow> ip_registry" where
  "ip_registry_add r e =
     (let b = ip_registry_hash (ip_addr e) in r\<lparr>hashTable := (hashTable r)(b := e # hashTable r b)\<rparr>)"

definition ip_registry_new_entry :: "int \<Rightarrow> ip_registry \<Rightarrow> ip_entry \<times> ip_registry" where
  "ip_registry_new_entry t r =
     (\<lparr>ip_target = None, ip_addr = replicate 8 0, last_connect = NOW t, connected = 1, attempts = 1\<rparr>,
      r\<lparr>freeList := freeList r - 1\<rparr>)"

text \<open>The free target count of an entry, which is stored when it has a record of targets.\<close>

definition free_targets :: "int \<Rightarrow> ip_entry \<Rightarrow> u32" where
  "free_targets t e =
     (case ip_target e of
        None \<Rightarrow> STARTTARGETS
      | Some g \<Rightarrow> min STARTTARGETS (tg_count g + word_of_int (cdiv (CONNECTED_SINCE t (last_connect e)) TARGET_DELAY)))"

definition ip_registry_update_free_targets :: "int \<Rightarrow> ip_entry \<Rightarrow> ip_entry" where
  "ip_registry_update_free_targets t e =
     e\<lparr>ip_target := map_option (\<lambda>g. g\<lparr>tg_count := free_targets t e\<rparr>) (ip_target e)\<rparr>"

text \<open>
  The entry is looked for in the bucket of its address; an entry of another bucket is not found, and nothing is removed. An entry on the free list
  is only counted.
\<close>

definition ip_registry_remove :: "ip_registry \<Rightarrow> nat \<times> nat \<Rightarrow> ip_registry" where
  "ip_registry_remove r p =
     (let b = ip_registry_hash (ip_addr (entry_at r p))
      in if b = fst p
         then r\<lparr>hashTable := (hashTable r)(b := take (snd p) (hashTable r b) @ drop (Suc (snd p)) (hashTable r b))\<rparr>
         else r)"

definition ip_registry_delete_entry :: "ip_registry \<Rightarrow> ip_registry" where
  "ip_registry_delete_entry r = r\<lparr>freeList := freeList r + 1\<rparr>"

definition ip_registry_expire_entry :: "int \<Rightarrow> ip_registry \<Rightarrow> nat \<times> nat \<Rightarrow> ip_registry" where
  "ip_registry_expire_entry t r p =
     (let e = entry_at r p in
      if CONNECTED_SINCE t (last_connect e) > 600 then ip_registry_delete_entry (ip_registry_remove r p)
      else if CONNECTED_SINCE t (last_connect e) > 120 \<and> ip_target e \<noteq> None then put_entry r p (e\<lparr>ip_target := None\<rparr>)
      else r)"

lemma expire_entry_length: "length (hashTable (ip_registry_expire_entry t r p) b) \<le> length (hashTable r b)"
  by (auto simp: ip_registry_expire_entry_def ip_registry_delete_entry_def ip_registry_remove_def put_entry_def Let_def)

text \<open>The inner loop: the next entry moves to the place of one that is removed.\<close>

function expire_bucket :: "int \<Rightarrow> nat \<Rightarrow> nat \<Rightarrow> ip_registry \<Rightarrow> ip_registry" where
  "expire_bucket t b i r =
     (if i < length (hashTable r b)
      then if connected (entry_at r (b, i)) = 0
           then let r' = ip_registry_expire_entry t r (b, i)
                in expire_bucket t b (if length (hashTable r' b) < length (hashTable r b) then i else Suc i) r'
           else expire_bucket t b (Suc i) r
      else r)"
  by pat_completeness auto
termination
proof (relation "measure (\<lambda>(t, b, i, r). length (hashTable r b) - i)", goal_cases)
  case (2 t b i r r')
  then show ?case using expire_entry_length [of t r "(b, i)" b] by auto
qed auto

declare expire_bucket.simps [simp del]

definition ip_registry_expire :: "int \<Rightarrow> ip_registry \<Rightarrow> ip_registry" where
  "ip_registry_expire t r = fold (\<lambda>i. expire_bucket t i 0) [0..<IP_REGISTRY_TABLE_SIZE] r"

section \<open>Connections\<close>

text \<open>An attempt is counted; the counter stays at 255.\<close>

definition count_attempt :: "u8 \<Rightarrow> u8" where
  "count_attempt n = (if n + 1 = 0 then n else n + 1)"

definition next_target :: "int \<Rightarrow> u32 \<Rightarrow> int" where
  "next_target t n = t - uint (word_of_int TARGET_DELAY * n - 1 :: u32)"

definition ip_registry_check_local :: "ip_params \<Rightarrow> int \<Rightarrow> ip_registry \<Rightarrow> irc_in_addr \<Rightarrow> bool \<times> int option \<times> ip_registry" where
  "ip_registry_check_local ps t r a =
     (case ip_registry_find r a of
        None \<Rightarrow> (case ip_registry_new_entry t r of (e, r1) \<Rightarrow>
                  (True, None, ip_registry_add r1 (e\<lparr>ip_addr := ip_registry_canonicalize a\<rparr>)))
      | Some p \<Rightarrow>
          let e = entry_at r p in
          if connected e + 1 = 0 then (False, None, r)
          else let e1 = e\<lparr>connected := connected e + 1\<rparr>;
                   e2 = (if CONNECTED_SINCE t (last_connect e1) > clone_period ps then e1\<lparr>attempts := 0\<rparr> else e1);
                   free = free_targets t e2;
                   e3 = (ip_registry_update_free_targets t e2)\<lparr>last_connect := NOW t\<rparr>;
                   e4 = e3\<lparr>attempts := count_attempt (attempts e3)\<rparr>
               in if uint (attempts e4) < clone_limit ps then (True, Some (next_target t free), put_entry r p e4)
                  else if t - me_since ps > clone_delay ps
                  then (False, None, put_entry r p (e4\<lparr>connected := connected e4 - 1\<rparr>))
                  else (True, None, put_entry r p e4))"

definition ip_registry_check_remote :: "ip_params \<Rightarrow> int \<Rightarrow> ip_registry \<Rightarrow> ip_client \<Rightarrow> bool \<Rightarrow> bool \<times> ip_client \<times> ip_registry" where
  "ip_registry_check_remote ps t r c is_burst =
     (let c1 = c\<lparr>ip_checked := True\<rparr> in
      if \<not> irc_in_addr_valid (cli_ip c) then (True, c1, r)
      else case ip_registry_find r (cli_ip c) of
        None \<Rightarrow> (case ip_registry_new_entry t r of (e, r1) \<Rightarrow>
                  let e1 = e\<lparr>ip_addr := ip_registry_canonicalize (cli_ip c)\<rparr>
                  in (True, c1, ip_registry_add r1 (if is_burst then e1\<lparr>attempts := 0\<rparr> else e1)))
      | Some p \<Rightarrow>
          let e = entry_at r p; e1 = e\<lparr>connected := connected e + 1\<rparr> in
          if connected e1 = 0 then (False, c1, put_entry r p e1)
          else let e2 = (if CONNECTED_SINCE t (last_connect e1) > clone_period ps then e1\<lparr>attempts := 0\<rparr> else e1);
                   e3 = (if is_burst then e2
                         else (ip_registry_update_free_targets t (e2\<lparr>attempts := count_attempt (attempts e2)\<rparr>))
                                \<lparr>last_connect := NOW t\<rparr>)
               in (True, c1, put_entry r p e3))"

definition ip_registry_connect_fail :: "ip_registry \<Rightarrow> irc_in_addr \<Rightarrow> bool \<Rightarrow> ip_registry option" where
  "ip_registry_connect_fail r a disconnect =
     (case ip_registry_find r a of
        None \<Rightarrow> Some r
      | Some p \<Rightarrow>
          let e = entry_at r p;
              e1 = e\<lparr>attempts := (if attempts e - 1 = 0 then attempts e else attempts e - 1)\<rparr>
          in if \<not> disconnect then Some (put_entry r p e1)
             else if connected e1 = 0 then None
             else Some (put_entry r p (e1\<lparr>connected := connected e1 - 1\<rparr>)))"

text \<open>The client with the targets of the entry, and the numbers of the notice.\<close>

definition ip_registry_connect_succeeded :: "ip_params \<Rightarrow> ip_registry \<Rightarrow> ip_client \<Rightarrow>
    (ip_client \<times> u16 \<times> u8 \<times> int \<times> u32 \<times> bool) option" where
  "ip_registry_connect_succeeded ps r c =
     (case ip_registry_find r (cli_ip c) of
        None \<Rightarrow> None
      | Some p \<Rightarrow>
          let e = entry_at r p in
          Some (case ip_target e of
                  None \<Rightarrow> (c, connected e, attempts e, clone_limit ps, STARTTARGETS, False)
                | Some g \<Rightarrow> (c\<lparr>cli_targets := tg_targets g\<rparr>, connected e, attempts e, clone_limit ps, tg_count g, True)))"

text \<open>The free targets a leaving client passes on, and the entry with them.\<close>

definition client_free_targets :: "int \<Rightarrow> ip_client \<Rightarrow> u32" where
  "client_free_targets t c =
     (if cli_nexttarget c < t then word_of_int (cdiv (t - cli_nexttarget c) TARGET_DELAY + 1) else 0) +
     (if t - cli_firsttime c > 600 then word_of_int (cdiv (t - cli_firsttime c - 600) TARGET_DELAY) else 0)"

definition leave_targets :: "int \<Rightarrow> ip_client \<Rightarrow> ip_entry \<Rightarrow> ip_entry" where
  "leave_targets t c e =
     (let count = (case ip_target e of None \<Rightarrow> STARTTARGETS | Some g \<Rightarrow> tg_count g)
      in e\<lparr>ip_target := Some \<lparr>tg_count = min (client_free_targets t c) count, tg_targets = cli_targets c\<rparr>\<rparr>)"

definition ip_registry_disconnect :: "ip_params \<Rightarrow> int \<Rightarrow> ip_registry \<Rightarrow> ip_client \<Rightarrow> ip_registry option" where
  "ip_registry_disconnect ps t r c =
     (if \<not> irc_in_addr_valid (cli_ip c) then Some r
      else ip_registry_find r (cli_ip c) \<bind> (\<lambda>p.
        let e = entry_at r p in
        if connected e = 0 then None
        else let e1 = e\<lparr>connected := connected e - 1\<rparr>;
                 e2 = (if CONNECTED_SINCE t (last_connect e1) > clone_limit ps * clone_period ps then e1\<lparr>attempts := 0\<rparr> else e1);
                 e3 = (if connected e1 = 0 then (ip_registry_update_free_targets t e2)\<lparr>last_connect := NOW t\<rparr> else e1)
             in Some (put_entry r p (if my_connect c then leave_targets t c e3 else e3))))"

definition ip_registry_count :: "ip_registry \<Rightarrow> irc_in_addr \<Rightarrow> u16" where
  "ip_registry_count r a = (case ip_registry_find r a of None \<Rightarrow> 0 | Some p \<Rightarrow> connected (entry_at r p))"

section \<open>The interface\<close>

definition IPcheck_local_connect :: "ip_params \<Rightarrow> int \<Rightarrow> ip_registry \<Rightarrow> irc_in_addr \<Rightarrow> bool \<times> int option \<times> ip_registry" where
  "IPcheck_local_connect ps t r a = ip_registry_check_local ps t r a"

definition IPcheck_remote_connect :: "ip_params \<Rightarrow> int \<Rightarrow> ip_registry \<Rightarrow> ip_client \<Rightarrow> bool \<Rightarrow> (bool \<times> ip_client \<times> ip_registry) option" where
  "IPcheck_remote_connect ps t r c is_burst = (if ip_checked c then None else Some (ip_registry_check_remote ps t r c is_burst))"

definition IPcheck_connect_fail :: "ip_registry \<Rightarrow> ip_client \<Rightarrow> bool \<Rightarrow> ip_registry option" where
  "IPcheck_connect_fail r c disconnect = (if ip_checked c then ip_registry_connect_fail r (cli_ip c) disconnect else None)"

definition IPcheck_connect_succeeded :: "ip_params \<Rightarrow> ip_registry \<Rightarrow> ip_client \<Rightarrow>
    (ip_client \<times> u16 \<times> u8 \<times> int \<times> u32 \<times> bool) option" where
  "IPcheck_connect_succeeded ps r c = (if ip_checked c then ip_registry_connect_succeeded ps r c else None)"

definition IPcheck_disconnect :: "ip_params \<Rightarrow> int \<Rightarrow> ip_registry \<Rightarrow> ip_client \<Rightarrow> ip_registry option" where
  "IPcheck_disconnect ps t r c = (if ip_checked c then ip_registry_disconnect ps t r c else None)"

definition IPcheck_nr :: "ip_registry \<Rightarrow> ip_client \<Rightarrow> u16" where
  "IPcheck_nr r c = ip_registry_count r (cli_ip c)"

section \<open>Networks\<close>

text \<open>
  The network of an address: the first 64 bits of its canonical form. For 6to4 addresses the code compares 48 bits, but the hash covers
  64, and in a bucket the two amount to the same.
\<close>

definition net :: "irc_in_addr \<Rightarrow> u16 list" where "net a = take 4 (ip_registry_canonicalize a)"

lemma length_canonicalize [simp]: "length a = 8 \<Longrightarrow> length (ip_registry_canonicalize a) = 8"
  by (simp add: ip_registry_canonicalize_def)

lemma addr_cases:
  assumes "length (a :: irc_in_addr) = 8"
  obtains a0 a1 a2 a3 a4 a5 a6 a7 where "a = [a0, a1, a2, a3, a4, a5, a6, a7]"
  using assms by (auto simp: numeral_eq_Suc length_Suc_conv)

lemma ipmask_check_segments:
  assumes "length a = 8" and "length m = 8"
  shows "ipmask_check a m 48 \<noteq> 0 \<longleftrightarrow> take 3 a = take 3 m" "ipmask_check a m 64 \<noteq> 0 \<longleftrightarrow> take 4 a = take 4 m"
  by (rule addr_cases [OF assms(1)], rule addr_cases [OF assms(2)], simp add: ipmask_check_def)+

lemma bucket_match:
  assumes "length c = 8" and "length (ip_addr e) = 8" and "ip_registry_hash (ip_addr e) = ip_registry_hash c"
  shows "entry_matches c e \<longleftrightarrow> take 4 (ip_addr e) = take 4 c"
proof -
  obtain a0 a1 a2 a3 a4 a5 a6 a7 where c: "c = [a0, a1, a2, a3, a4, a5, a6, a7]" by (rule addr_cases [OF assms(1)])
  obtain b0 b1 b2 b3 b4 b5 b6 b7 where e: "ip_addr e = [b0, b1, b2, b3, b4, b5, b6, b7]" by (rule addr_cases [OF assms(2)])
  have "unat x mod IP_REGISTRY_TABLE_SIZE = unat x" for x :: u16
    using unsigned_less [of x, where 'a = nat] by (simp add: IP_REGISTRY_TABLE_SIZE_def)
  then have "unat (b0 XOR b1 XOR b2 XOR b3) = unat (a0 XOR a1 XOR a2 XOR a3)"
    using assms(3) by (simp add: ip_registry_hash_def c e)
  then have h: "b0 XOR b1 XOR b2 XOR b3 = a0 XOR a1 XOR a2 XOR a3" by (rule unsigned_word_eqI)
  have "b3 = a3" if "b0 = a0" "b1 = a1" "b2 = a2"
  proof -
    have E: "a0 XOR (a1 XOR (a2 XOR b3)) = a0 XOR (a1 XOR (a2 XOR a3))" using h that by (simp add: ac_simps)
    have "bit b3 n = bit a3 n" for n
      using arg_cong [OF E, of "\<lambda>w. bit w n"] unfolding bit_xor_iff by blast
    then show ?thesis by (intro bit_word_eqI)
  qed
  then show ?thesis
    using ipmask_check_segments [OF assms(1,2)] by (auto simp: entry_matches_def c e)
qed

lemma hash_net: "length a = 8 \<Longrightarrow> length b = 8 \<Longrightarrow> take 4 a = take 4 b \<Longrightarrow> ip_registry_hash a = ip_registry_hash b"
  by (erule addr_cases, erule addr_cases) (simp add: ip_registry_hash_def)

lemma first_index_Some: "first_index P xs = Some i \<Longrightarrow> i < length xs \<and> P (xs ! i)"
  by (induction P xs arbitrary: i rule: first_index.induct) (auto split: if_splits)

lemma first_index_None: "first_index P xs = None \<longleftrightarrow> (\<forall>x\<in>set xs. \<not> P x)"
  by (induction P xs rule: first_index.induct) auto

lemma first_index_update: "first_index P xs = Some i \<Longrightarrow> P x \<Longrightarrow> first_index P (xs[i := x]) = Some i"
  by (induction P xs arbitrary: i rule: first_index.induct) (auto split: if_splits)

section \<open>The registry counts connections\<close>

definition reg_inv :: "ip_registry \<Rightarrow> (u16 list \<Rightarrow> nat) \<Rightarrow> bool" where
  "reg_inv r g \<longleftrightarrow>
     (\<forall>b. \<forall>e\<in>set (hashTable r b). length (ip_addr e) = 8 \<and> ip_registry_hash (ip_addr e) = b \<and>
        unat (connected e) = g (take 4 (ip_addr e))) \<and>
     (\<forall>b. distinct (map (\<lambda>e. take 4 (ip_addr e)) (hashTable r b))) \<and>
     (\<forall>k. 0 < g k \<longrightarrow> (\<exists>b. \<exists>e\<in>set (hashTable r b). take 4 (ip_addr e) = k))"

lemma reg_invD:
  assumes "reg_inv r g" and "e \<in> set (hashTable r b)"
  shows "length (ip_addr e) = 8" "ip_registry_hash (ip_addr e) = b" "unat (connected e) = g (take 4 (ip_addr e))"
  using assms by (auto simp: reg_inv_def)

lemma reg_inv_entry:
  assumes "reg_inv r g" and "0 < g k"
  obtains b e where "e \<in> set (hashTable r b)" "take 4 (ip_addr e) = k"
  using assms unfolding reg_inv_def by blast

lemma reg_inv_distinct: "reg_inv r g \<Longrightarrow> distinct (map (\<lambda>e. take 4 (ip_addr e)) (hashTable r b))"
  by (simp add: reg_inv_def)

lemma find_None:
  assumes "reg_inv r g" and "length a = 8" and "ip_registry_find r a = None"
  shows "g (net a) = 0" "\<And>b e. e \<in> set (hashTable r b) \<Longrightarrow> take 4 (ip_addr e) \<noteq> net a"
proof -
  let ?c = "ip_registry_canonicalize a"
  have no: "take 4 (ip_addr e) \<noteq> net a" if e: "e \<in> set (hashTable r b)" for b e
  proof
    assume k: "take 4 (ip_addr e) = net a"
    have l: "length (ip_addr e) = 8" "ip_registry_hash (ip_addr e) = b" using reg_invD [OF assms(1) e] by auto
    have "ip_registry_hash (ip_addr e) = ip_registry_hash ?c" using k l(1) assms(2) by (intro hash_net) (auto simp: net_def)
    then have "entry_matches ?c e" using bucket_match [of ?c e] k l(1) assms(2) by (simp add: net_def)
    then show False
      using assms(3) e l(2) \<open>ip_registry_hash (ip_addr e) = ip_registry_hash ?c\<close>
      by (auto simp: ip_registry_find_def Let_def first_index_None)
  qed
  then show "\<And>b e. e \<in> set (hashTable r b) \<Longrightarrow> take 4 (ip_addr e) \<noteq> net a" .
  then show "g (net a) = 0" using assms(1) unfolding reg_inv_def by (metis gr0I)
qed

lemma find_Some:
  assumes "reg_inv r g" and "length a = 8" and "ip_registry_find r a = Some p"
  shows "snd p < length (hashTable r (fst p))" "take 4 (ip_addr (entry_at r p)) = net a"
    "unat (connected (entry_at r p)) = g (net a)" "length (ip_addr (entry_at r p)) = 8"
proof -
  let ?c = "ip_registry_canonicalize a"
  have p: "fst p = ip_registry_hash ?c" "first_index (entry_matches ?c) (hashTable r (fst p)) = Some (snd p)"
    using assms(3) by (auto simp: ip_registry_find_def Let_def)
  show lt: "snd p < length (hashTable r (fst p))" using first_index_Some [OF p(2)] by simp
  then have mem: "entry_at r p \<in> set (hashTable r (fst p))" by (simp add: entry_at_def)
  note e = reg_invD [OF assms(1) mem]
  have "entry_matches ?c (entry_at r p)" using first_index_Some [OF p(2)] by (simp add: entry_at_def)
  then show k: "take 4 (ip_addr (entry_at r p)) = net a"
    using bucket_match [of ?c "entry_at r p"] e(1,2) p(1) assms(2) by (simp add: net_def)
  show "unat (connected (entry_at r p)) = g (net a)" "length (ip_addr (entry_at r p)) = 8" using e k by simp_all
qed

lemma count_correct:
  assumes "reg_inv r g" and "length a = 8"
  shows "unat (ip_registry_count r a) = g (net a)"
  using find_None(1) [OF assms] find_Some(3) [OF assms] by (auto simp: ip_registry_count_def split: option.split)

lemma put_inv:
  assumes "reg_inv r g" and "length a = 8" and "ip_registry_find r a = Some p" and "ip_addr e = ip_addr (entry_at r p)"
    and "g' = g(net a := unat (connected e))"
  shows "reg_inv (put_entry r p e) g'"
proof -
  let ?ch = "hashTable r (fst p)"
  note f = find_Some [OF assms(1-3)]
  have mem: "entry_at r p \<in> set ?ch" using f(1) by (simp add: entry_at_def)
  have same: "map (\<lambda>e. take 4 (ip_addr e)) (?ch[snd p := e]) = map (\<lambda>e. take 4 (ip_addr e)) ?ch"
    using f(1) assms(4) by (intro nth_equalityI) (auto simp: nth_list_update entry_at_def)
  have dist: "distinct (map (\<lambda>e. take 4 (ip_addr e)) ?ch)" using assms(1) by (simp add: reg_inv_def)
  have entry: "length (ip_addr x) = 8 \<and> ip_registry_hash (ip_addr x) = b \<and> unat (connected x) = g' (take 4 (ip_addr x))"
    if x: "x \<in> set (hashTable (put_entry r p e) b)" for b x
  proof (cases "x = e \<and> b = fst p")
    case True
    then show ?thesis using reg_invD [OF assms(1) mem] f(2) assms(4,5) by simp
  next
    case False
    have old: "x \<in> set (hashTable r b)" and new: "b = fst p \<longrightarrow> x \<in> set (?ch[snd p := e])"
      using x False by (auto simp: put_entry_def split: if_splits dest!: set_update_subset_insert [THEN subsetD])
    have "take 4 (ip_addr x) \<noteq> net a"
    proof
      assume k: "take 4 (ip_addr x) = net a"
      have "ip_registry_hash (ip_addr x) = ip_registry_hash (ip_addr (entry_at r p))"
        using reg_invD(1) [OF assms(1) old] k f(2,4) by (intro hash_net) auto
      then have b: "b = fst p" using reg_invD(2) [OF assms(1) old] reg_invD(2) [OF assms(1) mem] by simp
      then obtain i where i: "i < length ?ch" "?ch[snd p := e] ! i = x" using new by (auto simp: in_set_conv_nth)
      have "i \<noteq> snd p" using False b i by auto
      then have "?ch ! i = x" using i by simp
      then have "map (\<lambda>e. take 4 (ip_addr e)) ?ch ! i = map (\<lambda>e. take 4 (ip_addr e)) ?ch ! snd p"
        using i(1) f(1,2) k by (simp add: entry_at_def)
      then show False using dist i(1) f(1) \<open>i \<noteq> snd p\<close> by (simp add: nth_eq_iff_index_eq del: nth_map)
    qed
    then show ?thesis using reg_invD [OF assms(1) old] assms(5) by simp
  qed
  have ex: "\<exists>b. \<exists>x\<in>set (hashTable (put_entry r p e) b). take 4 (ip_addr x) = k" if k: "0 < g' k" for k
  proof (cases "k = net a")
    case True
    have "e \<in> set (?ch[snd p := e])" using f(1) by (simp add: set_update_memI)
    then show ?thesis using True f(2) assms(4) by (auto simp: put_entry_def intro!: exI [of _ "fst p"] bexI [of _ e])
  next
    case False
    then have "0 < g k" using k assms(5) by simp
    then obtain b x where x: "x \<in> set (hashTable r b)" "take 4 (ip_addr x) = k" by (rule reg_inv_entry [OF assms(1)])
    have "map (\<lambda>e. take 4 (ip_addr e)) (hashTable (put_entry r p e) b) = map (\<lambda>e. take 4 (ip_addr e)) (hashTable r b)"
      using same by (simp add: put_entry_def)
    then have "take 4 (ip_addr x) \<in> set (map (\<lambda>e. take 4 (ip_addr e)) (hashTable (put_entry r p e) b))"
      using x(1) by simp
    then obtain y where "y \<in> set (hashTable (put_entry r p e) b)" "take 4 (ip_addr y) = k" using x(2) by auto
    then show ?thesis by blast
  qed
  show ?thesis
    unfolding reg_inv_def
  proof (intro conjI allI ballI impI)
    fix b
    show "distinct (map (\<lambda>e. take 4 (ip_addr e)) (hashTable (put_entry r p e) b))"
      using assms(1) same dist by (auto simp: put_entry_def reg_inv_def)
  qed (use entry ex in auto)
qed

lemma add_inv:
  assumes "reg_inv r g" and "length a = 8" and "ip_registry_find r a = None"
    and "ip_addr e = ip_registry_canonicalize a" and "connected e = 1" and "hashTable r' = hashTable r"
  shows "reg_inv (ip_registry_add r' e) (g(net a := g (net a) + 1))"
proof -
  note n = find_None [OF assms(1-3)]
  have [simp]: "take 4 (ip_addr e) = net a" "length (ip_addr e) = 8" using assms(2,4) by (simp_all add: net_def)
  have t: "hashTable (ip_registry_add r' e) =
      (hashTable r)(ip_registry_hash (ip_addr e) := e # hashTable r (ip_registry_hash (ip_addr e)))"
    by (simp add: ip_registry_add_def Let_def assms(6))
  show ?thesis
    unfolding reg_inv_def t
  proof (intro conjI allI ballI impI)
    fix b x assume "x \<in> set (((hashTable r)(ip_registry_hash (ip_addr e) := e # hashTable r (ip_registry_hash (ip_addr e)))) b)"
    then consider "x = e" "b = ip_registry_hash (ip_addr e)" | "x \<in> set (hashTable r b)" by (auto split: if_splits)
    then show "length (ip_addr x) = 8" "ip_registry_hash (ip_addr x) = b"
      "unat (connected x) = (g(net a := g (net a) + 1)) (take 4 (ip_addr x))"
      using reg_invD [OF assms(1)] n assms(5) by (cases; force)+
  next
    fix b
    show "distinct (map (\<lambda>e. take 4 (ip_addr e)) (((hashTable r)(ip_registry_hash (ip_addr e) := e # hashTable r (ip_registry_hash (ip_addr e)))) b))"
      using reg_inv_distinct [OF assms(1)] n(2) by (auto dest!: n(2) [of _ "ip_registry_hash (ip_addr e)", THEN not_sym])
  next
    fix k assume "0 < (g(net a := g (net a) + 1)) k"
    then show "\<exists>b. \<exists>x\<in>set (((hashTable r)(ip_registry_hash (ip_addr e) := e # hashTable r (ip_registry_hash (ip_addr e)))) b). take 4 (ip_addr x) = k"
    proof (cases "k = net a")
      case False
      then have "0 < g k" using \<open>0 < (g(net a := g (net a) + 1)) k\<close> by simp
      then obtain b x where "x \<in> set (hashTable r b)" "take 4 (ip_addr x) = k" by (rule reg_inv_entry [OF assms(1)])
      then show ?thesis by (intro exI [of _ b] bexI [of _ x]) auto
    qed (auto intro: exI [of _ "ip_registry_hash (ip_addr e)"])
  qed
qed

text \<open>
  Expiry removes entries without clients only, and keeps addresses and counts. What becomes of an entry is \<open>expired\<close>; the loops with their removals
  from the chains amount to a filter of every bucket.
\<close>

definition expired :: "int \<Rightarrow> ip_entry \<Rightarrow> ip_entry option" where
  "expired t e =
     (if connected e \<noteq> 0 then Some e
      else if CONNECTED_SINCE t (last_connect e) > 600 then None
      else if CONNECTED_SINCE t (last_connect e) > 120 then Some (e\<lparr>ip_target := None\<rparr>)
      else Some e)"

lemma expired_Some: "expired t e = Some e' \<Longrightarrow> ip_addr e' = ip_addr e \<and> connected e' = connected e"
  by (auto simp: expired_def split: if_splits)

lemma expired_mem:
  assumes "x \<in> set (List.map_filter (expired t) es)"
  obtains e where "e \<in> set es" "ip_addr x = ip_addr e" "connected x = connected e"
  using assms expired_Some by (fastforce simp: List.map_filter_def)

text \<open>A bucket of entries that belong to it is filtered in order.\<close>

lemma expire_bucket_chain:
  assumes "i \<le> length (hashTable r b)" and "\<forall>e\<in>set (hashTable r b). ip_registry_hash (ip_addr e) = b"
  shows "hashTable (expire_bucket t b i r) =
    (hashTable r)(b := take i (hashTable r b) @ List.map_filter (expired t) (drop i (hashTable r b)))"
  using assms
proof (induction t b i r rule: expire_bucket.induct)
  case (1 t b i r)
  show ?case
  proof (cases "i < length (hashTable r b)")
    case False
    then have "drop i (hashTable r b) = []" "take i (hashTable r b) = hashTable r b" by simp_all
    then show ?thesis using False unfolding expire_bucket.simps [of t b i r] by (simp add: List.map_filter_def)
  next
    case True
    define e where "e = hashTable r b ! i"
    have d: "drop i (hashTable r b) = e # drop (Suc i) (hashTable r b)" "take (Suc i) (hashTable r b) = take i (hashTable r b) @ [e]"
      using True by (simp_all add: e_def Cons_nth_drop_Suc take_Suc_conv_app_nth)
    have at: "entry_at r (b, i) = e" "ip_registry_hash (ip_addr e) = b" using True "1.prems" by (auto simp: entry_at_def e_def)
    let ?f = "List.map_filter (expired t)"
    let ?old = "CONNECTED_SINCE t (last_connect e) > 600" and ?stale = "CONNECTED_SINCE t (last_connect e) > 120 \<and> ip_target e \<noteq> None"
    note unf = expire_bucket.simps [of t b i r]
    consider (used) "connected e \<noteq> 0" | (old) "connected e = 0" ?old | (stale) "connected e = 0" "\<not> ?old" ?stale
      | (fresh) "connected e = 0" "\<not> ?old" "\<not> ?stale" by blast
    then show ?thesis
    proof cases
      case used
      then have "expired t e = Some e" by (simp add: expired_def)
      then show ?thesis using "1.IH"(2) [OF True] "1.prems" True used at d by (simp add: unf map_filter_simps)
    next
      case old
      define r' where "r' = ip_registry_delete_entry (ip_registry_remove r (b, i))"
      have x: "ip_registry_expire_entry t r (b, i) = r'" "expired t e = None"
        using old at by (simp_all add: ip_registry_expire_entry_def r'_def expired_def Let_def)
      have h: "hashTable r' = (hashTable r)(b := take i (hashTable r b) @ drop (Suc i) (hashTable r b))"
        using at by (simp add: r'_def ip_registry_delete_entry_def ip_registry_remove_def Let_def)
      have lt: "length (hashTable r' b) < length (hashTable r b)" "i \<le> length (hashTable r' b)" using h True by auto
      have "\<forall>e\<in>set (hashTable r' b). ip_registry_hash (ip_addr e) = b"
        using h "1.prems"(2) by (auto dest: in_set_takeD in_set_dropD)
      then have "hashTable (expire_bucket t b i r') = (hashTable r')(b := take i (hashTable r' b) @ ?f (drop i (hashTable r' b)))"
        using "1.IH"(1) [OF True _ x(1) [symmetric], unfolded if_P [OF lt(1)]] old(1) at(1) lt(2) by blast
      moreover have "expire_bucket t b i r = expire_bucket t b i r'" using True old at x lt(1) by (simp add: unf)
      ultimately show ?thesis using True d h x by (simp add: map_filter_simps)
    next
      case stale
      define e' where "e' = e\<lparr>ip_target := None\<rparr>"
      define r' where "r' = put_entry r (b, i) e'"
      have x: "ip_registry_expire_entry t r (b, i) = r'" "expired t e = Some e'"
        using stale at by (simp_all add: ip_registry_expire_entry_def r'_def e'_def expired_def Let_def)
      have h: "hashTable r' = (hashTable r)(b := (hashTable r b)[i := e'])" by (simp add: r'_def put_entry_def)
      have "\<forall>e\<in>set (hashTable r' b). ip_registry_hash (ip_addr e) = b"
        using h "1.prems"(2) at(2) by (auto simp: e'_def dest!: set_update_subset_insert [THEN subsetD])
      then have "hashTable (expire_bucket t b (Suc i) r') =
          (hashTable r')(b := take (Suc i) (hashTable r' b) @ ?f (drop (Suc i) (hashTable r' b)))"
        using "1.IH"(1) [OF True _ x(1) [symmetric]] stale at h True by (simp add: fun_upd_def)
      then show ?thesis using True stale at d h x by (simp add: unf map_filter_simps take_Suc_conv_app_nth)
    next
      case fresh
      then have x: "ip_registry_expire_entry t r (b, i) = r" "expired t e = Some e"
        using at by (auto simp: ip_registry_expire_entry_def expired_def Let_def)
      then show ?thesis using "1.IH"(1) [OF True _ x(1) [symmetric]] "1.prems" True fresh at d by (simp add: unf map_filter_simps)
    qed
  qed
qed

lemma expire_buckets_chain:
  assumes "\<forall>b. \<forall>e\<in>set (hashTable r b). ip_registry_hash (ip_addr e) = b" and "distinct bs"
  shows "hashTable (fold (\<lambda>i. expire_bucket t i 0) bs r) b =
    (if b \<in> set bs then List.map_filter (expired t) (hashTable r b) else hashTable r b)"
  using assms
proof (induction bs arbitrary: r)
  case (Cons c bs)
  have h: "hashTable (expire_bucket t c 0 r) = (hashTable r)(c := List.map_filter (expired t) (hashTable r c))"
    using Cons.prems(1) by (subst expire_bucket_chain) auto
  have "\<forall>b. \<forall>e\<in>set (hashTable (expire_bucket t c 0 r) b). ip_registry_hash (ip_addr e) = b"
    using Cons.prems(1) by (auto simp: h elim!: expired_mem)
  then show ?case using Cons.IH [of "expire_bucket t c 0 r"] Cons.prems(2) by (simp add: h)
qed simp

lemma expire_chain:
  assumes "reg_inv r g"
  shows "hashTable (ip_registry_expire t r) b = List.map_filter (expired t) (hashTable r b)"
proof -
  have "hashTable r b = []" if "\<not> b < IP_REGISTRY_TABLE_SIZE"
  proof (rule ccontr)
    assume "hashTable r b \<noteq> []"
    then have "ip_registry_hash (ip_addr (hd (hashTable r b))) = b" using reg_invD(2) [OF assms, of _ b] by simp
    then show False
      using that by (auto simp: ip_registry_hash_def IP_REGISTRY_TABLE_SIZE_def)
  qed
  then show ?thesis
    using expire_buckets_chain [of r "[0..<IP_REGISTRY_TABLE_SIZE]" t b] reg_invD(2) [OF assms]
    by (auto simp: ip_registry_expire_def List.map_filter_def)
qed

lemma expired_distinct:
  "distinct (map (\<lambda>e. take 4 (ip_addr e)) es) \<Longrightarrow> distinct (map (\<lambda>e. take 4 (ip_addr e)) (List.map_filter (expired t) es))"
proof (induction es)
  case (Cons e es)
  have "take 4 (ip_addr e) \<notin> (\<lambda>e. take 4 (ip_addr e)) ` set (List.map_filter (expired t) es)"
    using Cons.prems by (auto elim!: expired_mem)
  then show ?case using Cons by (auto simp: map_filter_simps dest: expired_Some split: option.split)
qed (simp add: List.map_filter_def)

lemma expire_inv:
  assumes "reg_inv r g"
  shows "reg_inv (ip_registry_expire t r) g"
  unfolding reg_inv_def expire_chain [OF assms]
proof (intro conjI allI ballI impI)
  fix b e assume "e \<in> set (List.map_filter (expired t) (hashTable r b))"
  then obtain e0 where "e0 \<in> set (hashTable r b)" "ip_addr e = ip_addr e0" "connected e = connected e0"
    by (rule expired_mem)
  then show "length (ip_addr e) = 8" "ip_registry_hash (ip_addr e) = b" "unat (connected e) = g (take 4 (ip_addr e))"
    using reg_invD [OF assms] by auto
next
  fix b
  show "distinct (map (\<lambda>e. take 4 (ip_addr e)) (List.map_filter (expired t) (hashTable r b)))"
    by (rule expired_distinct [OF reg_inv_distinct [OF assms]])
next
  fix k assume k: "0 < g k"
  then obtain b e where e: "e \<in> set (hashTable r b)" "take 4 (ip_addr e) = k" by (rule reg_inv_entry [OF assms])
  then have "connected e \<noteq> 0" using reg_invD(3) [OF assms e(1)] k by auto
  then have "e \<in> set (List.map_filter (expired t) (hashTable r b))"
    using e(1) by (force simp: List.map_filter_def expired_def)
  then show "\<exists>b. \<exists>e\<in>set (List.map_filter (expired t) (hashTable r b)). take 4 (ip_addr e) = k" using e(2) by blast
qed

section \<open>The operations on the counts\<close>

lemma unat_inc: "x + 1 \<noteq> 0 \<Longrightarrow> unat (x + 1) = unat x + 1" for x :: u16
  using unatSuc [of x] by (simp add: add.commute)

lemma unat_dec: "x \<noteq> 0 \<Longrightarrow> unat (x - 1) = unat x - 1" for x :: u16
  by (rule unat_minus_one)

lemma update_free_simps [simp]:
  "ip_addr (ip_registry_update_free_targets t e) = ip_addr e" "connected (ip_registry_update_free_targets t e) = connected e"
  "attempts (ip_registry_update_free_targets t e) = attempts e" "last_connect (ip_registry_update_free_targets t e) = last_connect e"
  by (simp_all add: ip_registry_update_free_targets_def)

lemma leave_targets_simps [simp]:
  "ip_addr (leave_targets t c e) = ip_addr e" "connected (leave_targets t c e) = connected e"
  by (simp_all add: leave_targets_def Let_def)

lemma check_local_counts:
  assumes "reg_inv r g" and "length a = 8" and "ip_registry_check_local ps t r a = (ok, nt, r')"
  shows "reg_inv r' (if ok then g(net a := g (net a) + 1) else g)"
proof (cases "ip_registry_find r a")
  case None
  then show ?thesis
    using assms add_inv [OF assms(1,2) None] by (auto simp: ip_registry_check_local_def ip_registry_new_entry_def)
next
  case (Some p)
  note f = find_Some [OF assms(1,2) Some]
  have put: "reg_inv (put_entry r p e) (g(net a := n))" if "ip_addr e = ip_addr (entry_at r p)" "unat (connected e) = n" for e n
    by (rule put_inv [OF assms(1,2) Some that(1)]) (simp add: that(2))
  have same: "reg_inv (put_entry r p e) g" if "ip_addr e = ip_addr (entry_at r p)" "connected e = connected (entry_at r p)" for e
    using put [of e "g (net a)"] that f(3) by simp
  show ?thesis
  proof (cases "connected (entry_at r p) + 1 = 0")
    case True
    then show ?thesis using assms(1,3) Some by (auto simp: ip_registry_check_local_def Let_def)
  next
    case False
    then show ?thesis
      using assms(3) Some f(3) unat_inc [OF False]
      by (auto simp: ip_registry_check_local_def Let_def intro!: put same split: if_splits)
  qed
qed

lemma inc_nonzero: "unat x < 65535 \<Longrightarrow> x + 1 \<noteq> 0" for x :: u16
proof
  assume "unat x < 65535" and "x + 1 = 0"
  moreover from this have "x = - 1" by (simp add: eq_neg_iff_add_eq_0)
  ultimately show False by (simp add: unsigned_minus_1_eq_mask mask_eq_exp_minus_1)
qed

lemma put_counts:
  assumes "reg_inv r g" and "length a = 8" and "ip_registry_find r a = Some p"
    and "ip_addr e = ip_addr (entry_at r p)" and "unat (connected e) = n"
  shows "reg_inv (put_entry r p e) (g(net a := n))"
  by (rule put_inv [OF assms(1-4)]) (simp add: assms(5))

lemma put_same:
  assumes "reg_inv r g" and "length a = 8" and "ip_registry_find r a = Some p"
    and "ip_addr e = ip_addr (entry_at r p)" and "connected e = connected (entry_at r p)"
  shows "reg_inv (put_entry r p e) g"
  using put_counts [OF assms(1-4), of "g (net a)"] find_Some(3) [OF assms(1-3)] assms(5) by simp

lemma check_remote_counts:
  assumes "reg_inv r g" and "length (cli_ip c) = 8" and "irc_in_addr_valid (cli_ip c)" and "g (net (cli_ip c)) < 65535"
  shows "\<exists>r'. ip_registry_check_remote ps t r c is_burst = (True, c\<lparr>ip_checked := True\<rparr>, r') \<and>
    reg_inv r' (g(net (cli_ip c) := g (net (cli_ip c)) + 1))"
proof (cases "ip_registry_find r (cli_ip c)")
  case None
  then show ?thesis
    using assms(3) add_inv [OF assms(1,2) None]
    by (auto simp: ip_registry_check_remote_def ip_registry_new_entry_def Let_def)
next
  case (Some p)
  note f = find_Some [OF assms(1,2) Some]
  have nz: "connected (entry_at r p) + 1 \<noteq> 0" by (rule inc_nonzero) (use f(3) assms(4) in simp)
  then show ?thesis
    using Some assms(3) unat_inc [OF nz] f(3)
    by (auto simp: ip_registry_check_remote_def Let_def intro!: put_counts [OF assms(1,2) Some])
qed

lemma connect_fail_counts:
  assumes "reg_inv r g" and "length a = 8" and "disconnect \<Longrightarrow> 0 < g (net a)"
  shows "\<exists>r'. ip_registry_connect_fail r a disconnect = Some r' \<and>
    reg_inv r' (g(net a := g (net a) - of_bool disconnect))"
proof (cases "ip_registry_find r a")
  case None
  then have "g (net a) = 0" by (rule find_None(1) [OF assms(1,2)])
  then have "g(net a := g (net a) - of_bool disconnect) = g" by auto
  then show ?thesis using None assms(1) by (simp add: ip_registry_connect_fail_def)
next
  case (Some p)
  note f = find_Some [OF assms(1,2) Some]
  have "connected (entry_at r p) \<noteq> 0" if disconnect using f(3) assms(3) [OF that] by auto
  then show ?thesis
    using Some unat_dec [of "connected (entry_at r p)"] f(3)
    by (auto simp: ip_registry_connect_fail_def Let_def
        intro!: put_counts [OF assms(1,2) Some] put_same [OF assms(1,2) Some])
qed

lemma disconnect_counts:
  assumes "reg_inv r g" and "length (cli_ip c) = 8" and "irc_in_addr_valid (cli_ip c)" and "0 < g (net (cli_ip c))"
  shows "\<exists>r'. ip_registry_disconnect ps t r c = Some r' \<and> reg_inv r' (g(net (cli_ip c) := g (net (cli_ip c)) - 1))"
proof (cases "ip_registry_find r (cli_ip c)")
  case None
  then show ?thesis using find_None(1) [OF assms(1,2)] assms(4) by simp
next
  case (Some p)
  note f = find_Some [OF assms(1,2) Some]
  have "connected (entry_at r p) \<noteq> 0" using f(3) assms(4) by auto
  then show ?thesis
    using Some assms(3) unat_dec [of "connected (entry_at r p)"] f(3)
    by (auto simp: ip_registry_disconnect_def Let_def intro!: put_counts [OF assms(1,2) Some])
qed

section \<open>Runs\<close>

text \<open>
  The registry over time with the number of clients that are connected from every network: a local client is accepted or refused, a remote
  client is announced (when fewer than 65535 clients are connected from its network), a client is rejected while it connects, leaves,
  and the timer fires. A client that leaves has connected before. The addresses are valid.
\<close>

definition ok_client :: "ip_client \<Rightarrow> bool" where
  "ok_client c \<longleftrightarrow> length (cli_ip c) = 8 \<and> irc_in_addr_valid (cli_ip c) \<and> ip_checked c"

definition empty_registry :: ip_registry where
  "empty_registry = \<lparr>hashTable = (\<lambda>_. []), freeList = 0\<rparr>"

inductive ip_run :: "ip_params \<Rightarrow> ip_registry \<Rightarrow> (u16 list \<Rightarrow> nat) \<Rightarrow> bool" for ps where
  ip_init: "ip_run ps empty_registry (\<lambda>_. 0)"
| ip_accept: "ip_run ps r g \<Longrightarrow> length a = 8 \<Longrightarrow> IPcheck_local_connect ps t r a = (True, nt, r') \<Longrightarrow>
    ip_run ps r' (g(net a := g (net a) + 1))"
| ip_refuse: "ip_run ps r g \<Longrightarrow> length a = 8 \<Longrightarrow> IPcheck_local_connect ps t r a = (False, nt, r') \<Longrightarrow> ip_run ps r' g"
| ip_remote: "ip_run ps r g \<Longrightarrow> ok_client (c\<lparr>ip_checked := True\<rparr>) \<Longrightarrow> g (net (cli_ip c)) < 65535 \<Longrightarrow>
    IPcheck_remote_connect ps t r c is_burst = Some (ok, c', r') \<Longrightarrow> ip_run ps r' (g(net (cli_ip c) := g (net (cli_ip c)) + 1))"
| ip_fail: "ip_run ps r g \<Longrightarrow> ok_client c \<Longrightarrow> 0 < g (net (cli_ip c)) \<Longrightarrow> IPcheck_connect_fail r c disconnect = Some r' \<Longrightarrow>
    ip_run ps r' (g(net (cli_ip c) := g (net (cli_ip c)) - of_bool disconnect))"
| ip_leave: "ip_run ps r g \<Longrightarrow> ok_client c \<Longrightarrow> 0 < g (net (cli_ip c)) \<Longrightarrow> IPcheck_disconnect ps t r c = Some r' \<Longrightarrow>
    ip_run ps r' (g(net (cli_ip c) := g (net (cli_ip c)) - 1))"
| ip_expire: "ip_run ps r g \<Longrightarrow> ip_run ps (ip_registry_expire t r) g"

lemma ip_run_inv: "ip_run ps r g \<Longrightarrow> reg_inv r g"
proof (induction rule: ip_run.induct)
  case ip_init
  show ?case by (simp add: reg_inv_def empty_registry_def)
next
  case (ip_accept r g a t nt r')
  then show ?case using check_local_counts [of r g a ps t True nt r'] by (simp add: IPcheck_local_connect_def fun_upd_def)
next
  case (ip_refuse r g a t nt r')
  then show ?case using check_local_counts [of r g a ps t False nt r'] by (simp add: IPcheck_local_connect_def)
next
  case (ip_remote r g c t is_burst ok c' r')
  then show ?case
    using check_remote_counts [of r g c ps t is_burst] by (auto simp: IPcheck_remote_connect_def ok_client_def fun_upd_def split: if_splits)
next
  case (ip_fail r g c disconnect r')
  then show ?case
    using connect_fail_counts [of r g "cli_ip c" disconnect]
    by (cases disconnect) (auto simp: IPcheck_connect_fail_def ok_client_def fun_upd_def)
next
  case (ip_leave r g c t r')
  then show ?case using disconnect_counts [of r g c ps t] by (auto simp: IPcheck_disconnect_def ok_client_def fun_upd_def)
next
  case (ip_expire r g t)
  then show ?case by (simp add: expire_inv)
qed

lemma connect_succeeded_defined:
  assumes "reg_inv r g" and "ok_client c" and "0 < g (net (cli_ip c))"
  shows "IPcheck_connect_succeeded ps r c \<noteq> None"
proof (cases "ip_registry_find r (cli_ip c)")
  case None
  then show ?thesis using find_None(1) [OF assms(1) _ None] assms(2,3) by (simp add: ok_client_def)
next
  case (Some p)
  then show ?thesis
    using assms(2) by (simp add: IPcheck_connect_succeeded_def ip_registry_connect_succeeded_def ok_client_def Let_def)
qed

text \<open>C20. The registry counts clients: whenever a sequence of accepted and refused local connections, remote connections, failures,
  departures and timer events has led to a registry, \<^verbatim>\<open>IPcheck_nr\<close> returns the number of clients that are connected from the network of
  the address (its first 64 bits, an IPv4 address by itself), and as long as that number is not 0 none of the assertions of the three operations for
  a connected client fails.\<close>

theorem ipcheck_counts:
  assumes "ip_run ps r g" and "ok_client c"
  shows "unat (IPcheck_nr r c) = g (net (cli_ip c)) \<and>
    (0 < g (net (cli_ip c)) \<longrightarrow>
       IPcheck_disconnect ps t r c \<noteq> None \<and> IPcheck_connect_fail r c d \<noteq> None \<and> IPcheck_connect_succeeded ps r c \<noteq> None)"
proof (intro conjI impI)
  note inv = ip_run_inv [OF assms(1)]
  have c: "length (cli_ip c) = 8" "irc_in_addr_valid (cli_ip c)" "ip_checked c" using assms(2) by (simp_all add: ok_client_def)
  show "unat (IPcheck_nr r c) = g (net (cli_ip c))" using count_correct [OF inv c(1)] by (simp add: IPcheck_nr_def)
  assume pos: "0 < g (net (cli_ip c))"
  show "IPcheck_disconnect ps t r c \<noteq> None"
    using disconnect_counts [OF inv c(1,2) pos, of ps t] c(3) by (auto simp: IPcheck_disconnect_def)
  show "IPcheck_connect_fail r c d \<noteq> None"
    using connect_fail_counts [OF inv c(1), of d] c(3) pos by (auto simp: IPcheck_connect_fail_def)
  show "IPcheck_connect_succeeded ps r c \<noteq> None"
    using connect_succeeded_defined [OF inv assms(2) pos, of ps] .
qed

text \<open>A client at 10.0.0.1 that has connected to an empty registry.\<close>

definition sample_client :: ip_client where
  "sample_client = \<lparr>cli_ip = [0, 0, 0, 0, 0, 0xffff, 0x0a00, 1], ip_checked = True, my_connect = True, cli_targets = replicate 20 0,
     cli_nexttarget = 1000000, cli_firsttime = 1000000\<rparr>"

definition sample_params :: ip_params where
  "sample_params = \<lparr>clone_limit = 4, clone_period = 40, clone_delay = 600, me_since = 0\<rparr>"

lemma sample_client_ok: "ok_client sample_client"
  by (simp add: ok_client_def sample_client_def irc_in_addr_valid_def)

lemma empty_find [simp]: "ip_registry_find empty_registry a = None"
  by (simp add: ip_registry_find_def empty_registry_def Let_def)

theorem ipcheck_counts_witness:
  "\<exists>r. ip_run sample_params r ((\<lambda>_. 0)(net (cli_ip sample_client) := 1)) \<and> unat (IPcheck_nr r sample_client) = 1 \<and>
     IPcheck_disconnect sample_params 1000010 r sample_client \<noteq> None"
proof -
  obtain nt r where c: "IPcheck_local_connect sample_params 1000000 empty_registry (cli_ip sample_client) = (True, nt, r)"
    by (simp add: IPcheck_local_connect_def ip_registry_check_local_def ip_registry_new_entry_def)
  have "length (cli_ip sample_client) = 8" by (simp add: sample_client_def)
  from ip_accept [OF ip_init this c]
  have run: "ip_run sample_params r ((\<lambda>_. 0)(net (cli_ip sample_client) := 1))" by (simp add: fun_upd_def)
  show ?thesis using ipcheck_counts [OF run sample_client_ok, of 1000010 False] run by (intro exI [of _ r]) simp
qed

section \<open>Throttling\<close>

text \<open>The answers to a sequence of local connections from one address at given times.\<close>

fun local_connects :: "ip_params \<Rightarrow> ip_registry \<Rightarrow> irc_in_addr \<Rightarrow> int list \<Rightarrow> bool list" where
  "local_connects ps r a [] = []"
| "local_connects ps r a (t # ts) =
     (case IPcheck_local_connect ps t r a of (ok, nt, r') \<Rightarrow> ok # local_connects ps r' a ts)"

lemma find_put:
  assumes "ip_registry_find r a = Some p" and "ip_addr e = ip_addr (entry_at r p)"
  shows "ip_registry_find (put_entry r p e) a = Some p" "entry_at (put_entry r p e) p = e"
proof -
  let ?c = "ip_registry_canonicalize a"
  have p: "fst p = ip_registry_hash ?c" "first_index (entry_matches ?c) (hashTable r (fst p)) = Some (snd p)"
    using assms(1) by (auto simp: ip_registry_find_def Let_def)
  note i = first_index_Some [OF p(2)]
  have "entry_matches ?c e" using i assms(2) by (simp add: entry_matches_def entry_at_def)
  then show "ip_registry_find (put_entry r p e) a = Some p"
    using first_index_update [OF p(2)] p(1) by (cases p) (simp add: ip_registry_find_def put_entry_def Let_def)
  show "entry_at (put_entry r p e) p = e" using i by (simp add: entry_at_def put_entry_def)
qed

lemma find_add:
  assumes "length a = 8" and "ip_addr e = ip_registry_canonicalize a"
  shows "\<exists>p. ip_registry_find (ip_registry_add r e) a = Some p \<and> entry_at (ip_registry_add r e) p = e"
  using assms ipmask_check_segments [of "ip_registry_canonicalize a" "ip_registry_canonicalize a"]
  by (simp add: ip_registry_find_def ip_registry_add_def entry_at_def entry_matches_def Let_def)

lemma unat_count_attempt: "unat (count_attempt n) = min 255 (unat n + 1)"
proof (cases "n + 1 = 0")
  case True
  then have "n = - 1" by (simp add: eq_neg_iff_add_eq_0)
  then show ?thesis by (simp add: count_attempt_def unsigned_minus_1_eq_mask mask_eq_exp_minus_1)
next
  case False
  then show ?thesis
    using unatSuc [of n] unsigned_less [of "n + 1", where 'a = nat] by (simp add: count_attempt_def add.commute)
qed

text \<open>One more connection from a network with an entry, in the period and after the delay.\<close>

lemma check_local_again:
  assumes "ip_registry_find r a = Some p" and "CONNECTED_SINCE t (last_connect (entry_at r p)) \<le> clone_period ps"
    and "clone_delay ps < t - me_since ps" and "clone_limit ps \<le> 255"
    and "unat (connected (entry_at r p)) \<le> unat (attempts (entry_at r p))"
  obtains nt r' where
    "IPcheck_local_connect ps t r a = (int (unat (attempts (entry_at r p))) + 1 < clone_limit ps, nt, r')"
    "ip_registry_find r' a = Some p" "last_connect (entry_at r' p) = NOW t"
    "unat (attempts (entry_at r' p)) = min 255 (unat (attempts (entry_at r p)) + 1)"
    "unat (connected (entry_at r' p)) \<le> unat (attempts (entry_at r' p))"
proof -
  let ?e = "entry_at r p"
  have small: "unat (connected ?e) < 256" using assms(5) unsigned_less [of "attempts ?e", where 'a = nat] by simp
  have nz: "connected ?e + 1 \<noteq> 0" by (rule inc_nonzero) (use small in simp)
  have lim: "uint (count_attempt (attempts ?e)) < clone_limit ps \<longleftrightarrow> int (unat (attempts ?e)) + 1 < clone_limit ps"
    using assms(4) unat_count_attempt [of "attempts ?e"] by (auto simp: uint_nat min_def simp del: of_nat_unat split: if_splits)
  define e' where "e' = (ip_registry_update_free_targets t (?e\<lparr>connected := connected ?e + 1\<rparr>))
    \<lparr>last_connect := NOW t, attempts := count_attempt (attempts ?e)\<rparr>"
  have e': "ip_addr e' = ip_addr ?e" "attempts e' = count_attempt (attempts ?e)" "connected e' = connected ?e + 1" "last_connect e' = NOW t"
    by (simp_all add: e'_def)
  have step: "IPcheck_local_connect ps t r a =
      (if int (unat (attempts ?e)) + 1 < clone_limit ps
       then (True, Some (next_target t (free_targets t (?e\<lparr>connected := connected ?e + 1\<rparr>))), put_entry r p e')
       else (False, None, put_entry r p (e'\<lparr>connected := connected ?e\<rparr>)))"
    using assms(1-3) nz lim by (simp add: IPcheck_local_connect_def ip_registry_check_local_def Let_def e'_def)
  show ?thesis
  proof (cases "int (unat (attempts ?e)) + 1 < clone_limit ps")
    case True
    then have "unat (attempts ?e) < 254" using assms(4) by linarith
    then show ?thesis
      by (intro that [of _ "put_entry r p e'"])
        (use True step find_put [OF assms(1) e'(1)] e' assms(5) unat_count_attempt unat_inc [OF nz] in auto)
  next
    case False
    let ?e' = "e'\<lparr>connected := connected ?e\<rparr>"
    have "ip_addr ?e' = ip_addr ?e" using e' by simp
    from find_put [OF assms(1) this] show ?thesis
      by (intro that [of _ "put_entry r p ?e'"]) (use False step e' assms(5) small unat_count_attempt in auto)
  qed
qed

lemma local_connects_again:
  assumes "ip_registry_find r a = Some p" and "last_connect (entry_at r p) = NOW t"
    and "successively (\<lambda>t t'. NOW t' - NOW t \<le> clone_period ps) (t # ts)"
    and "\<forall>t\<in>set ts. clone_delay ps < t - me_since ps" and "clone_limit ps \<le> 255"
    and "unat (connected (entry_at r p)) \<le> unat (attempts (entry_at r p))"
  shows "local_connects ps r a ts =
    map (\<lambda>i. int (unat (attempts (entry_at r p)) + i) + 1 < clone_limit ps) [0..<length ts]"
  using assms
proof (induction ts arbitrary: r t)
  case (Cons u ts)
  have "CONNECTED_SINCE u (last_connect (entry_at r p)) \<le> clone_period ps" "clone_delay ps < u - me_since ps"
    using Cons.prems(2-4) by (auto simp: CONNECTED_SINCE_def)
  then obtain nt r' where s: "IPcheck_local_connect ps u r a = (int (unat (attempts (entry_at r p))) + 1 < clone_limit ps, nt, r')"
    "ip_registry_find r' a = Some p" "last_connect (entry_at r' p) = NOW u"
    "unat (attempts (entry_at r' p)) = min 255 (unat (attempts (entry_at r p)) + 1)"
    "unat (connected (entry_at r' p)) \<le> unat (attempts (entry_at r' p))"
    by (rule check_local_again [OF Cons.prems(1) _ _ Cons.prems(5,6)])
  have "local_connects ps r' a ts = map (\<lambda>i. int (unat (attempts (entry_at r' p)) + i) + 1 < clone_limit ps) [0..<length ts]"
    by (rule Cons.IH [OF s(2,3) _ _ Cons.prems(5) s(5)]) (use Cons.prems(3,4) in auto)
  also have "\<dots> = map (\<lambda>i. int (unat (attempts (entry_at r p)) + Suc i) + 1 < clone_limit ps) [0..<length ts]"
    using s(4) Cons.prems(5) by (auto simp: min_def simp del: of_nat_unat)
  finally show ?case
    using s(1) by (simp add: upt_conv_Cons map_Suc_upt [symmetric] comp_def del: upt_Suc map_Suc_upt)
qed simp

text \<open>C21. Clones are throttled: when a network without an entry connects repeatedly to a server that has been up for longer than the clone
  delay, each time at most the clone period after the last (on the 16-bit clock), the connections up to the clone limit exclusive are accepted and
  all further ones are refused, however many there are (for a limit between 2 and 255, the counter saturates). The bound is the one of the
  code, \<^verbatim>\<open>attempts < IPCHECK_CLONE_LIMIT\<close>, and it is one connection less than \<^verbatim>\<open>doc/readme.features\<close> promises, where the limit is
  the number of connections allowed within the period: with the default 4 the third connection is the last one accepted.\<close>

theorem ipcheck_throttle:
  assumes "length a = 8" and "ip_registry_find r a = None"
    and "successively (\<lambda>t t'. NOW t' - NOW t \<le> clone_period ps) ts" and "\<forall>t\<in>set ts. clone_delay ps < t - me_since ps"
    and "2 \<le> clone_limit ps" and "clone_limit ps \<le> 255"
  shows "local_connects ps r a ts = map (\<lambda>i. int i + 1 < clone_limit ps) [0..<length ts]"
proof (cases ts)
  case (Cons t us)
  let ?e = "\<lparr>ip_target = None, ip_addr = ip_registry_canonicalize a, last_connect = NOW t, connected = 1, attempts = 1\<rparr>"
  define r' where "r' = ip_registry_add (r\<lparr>freeList := freeList r - 1\<rparr>) ?e"
  have s: "IPcheck_local_connect ps t r a = (True, None, r')"
    using assms(2) by (simp add: IPcheck_local_connect_def ip_registry_check_local_def ip_registry_new_entry_def r'_def)
  obtain p where p: "ip_registry_find r' a = Some p" "entry_at r' p = ?e"
    using find_add [OF assms(1), of ?e "r\<lparr>freeList := freeList r - 1\<rparr>"] by (auto simp: r'_def)
  have "local_connects ps r' a us = map (\<lambda>i. int (unat (attempts (entry_at r' p)) + i) + 1 < clone_limit ps) [0..<length us]"
    by (rule local_connects_again [OF p(1)]) (use p(2) assms(3,4,6) Cons in auto)
  then show ?thesis
    using s p(2) assms(5) by (simp add: Cons upt_conv_Cons map_Suc_upt [symmetric] comp_def del: upt_Suc map_Suc_upt)
qed simp

theorem ipcheck_throttle_witness:
  "local_connects sample_params empty_registry (cli_ip sample_client) [1000000, 1000010, 1000020, 1000030, 1000040] =
     [True, True, True, False, False]"
  using ipcheck_throttle [of "cli_ip sample_client" empty_registry sample_params "[1000000, 1000010, 1000020, 1000030, 1000040]"]
  by (simp add: sample_client_def sample_params_def NOW_def upt_rec)

section \<open>Limits\<close>

text \<open>
  An entry that was last used in the last 600 seconds of the 16-bit clock is never removed: the clock starts again at 0 and the difference with it is
  negative until it reaches the same value.
\<close>

lemma expire_never:
  assumes "64935 \<le> last_connect e"
  shows "expired t e \<noteq> None"
proof -
  have "NOW t \<le> 65535" by (simp add: NOW_def)
  then show ?thesis using assms by (simp add: expired_def CONNECTED_SINCE_def)
qed

text \<open>A client of a network without free targets gets a next target time of more than 136 years ago, which grants it all of them.\<close>

lemma no_free_targets: "next_target t 0 = t - 4294967295"
  by (simp add: next_target_def unsigned_minus_1_eq_mask mask_eq_exp_minus_1)

text \<open>A failed connection of a network whose counter is 0, as after remote clients of a burst, sets it to 255.\<close>

lemma connect_fail_underflow:
  assumes "ip_registry_find r a = Some p" and "attempts (entry_at r p) = 0"
  shows "\<exists>r'. ip_registry_connect_fail r a False = Some r' \<and> attempts (entry_at r' p) = 255"
proof -
  have m: "(- 1 :: u8) = 255" by (simp add: neg_eq_iff_add_eq_0)
  have "\<exists>r'. ip_registry_connect_fail r a False = Some r' \<and> r' = put_entry r p (entry_at r p\<lparr>attempts := 255\<rparr>)"
    unfolding m [symmetric] using assms by (simp add: ip_registry_connect_fail_def Let_def)
  then show ?thesis using find_put(2) [OF assms(1)] by auto
qed

text \<open>A remote client that is refused because the counter would overflow leaves it at 0.\<close>

lemma remote_overflow:
  assumes "irc_in_addr_valid (cli_ip c)" and "ip_registry_find r (cli_ip c) = Some p" and "connected (entry_at r p) = 0xffff"
  shows "\<exists>c' r'. ip_registry_check_remote ps t r c is_burst = (False, c', r') \<and> ip_registry_count r' (cli_ip c) = 0"
proof -
  have z: "connected (entry_at r p) + 1 = 0" by (simp add: assms(3))
  show ?thesis
    using assms(1,2) z find_put [OF assms(2), of "entry_at r p\<lparr>connected := 0\<rparr>"]
    by (simp add: ip_registry_check_remote_def ip_registry_count_def Let_def)
qed

text \<open>The test of the complemented first segment has no effect: only the unspecified address is invalid.\<close>

lemma irc_in_addr_valid_iff:
  assumes "length a = 8"
  shows "irc_in_addr_valid a \<longleftrightarrow> a \<noteq> replicate 8 0"
proof -
  have "uint x \<noteq> - 1" for x :: u16 using uint_nonnegative [of x] by linarith
  then show ?thesis by (rule_tac addr_cases [OF assms]) (auto simp: irc_in_addr_valid_def numeral_eq_Suc not_eq_complement)
qed

text \<open>
  For a 6to4 address the entries are compared by 48 bits, but the bucket depends on 64: the entry of another subnet of the same site
  matches and is not found.
\<close>

lemma sixtofour_subnets:
  fixes e :: ip_entry
  assumes "ip_addr e = [0x2002, 0x0a00, 1, 1, 0, 0, 0, 0]"
  shows "entry_matches [0x2002, 0x0a00, 1, 2, 0, 0, 0, 0] e \<and>
    ip_registry_find (ip_registry_add empty_registry e) [0x2002, 0x0a00, 1, 2, 0, 0, 0, 0] = None"
proof
  show "entry_matches [0x2002, 0x0a00, 1, 2, 0, 0, 0, 0] e"
    using ipmask_check_segments(1) [of "[0x2002, 0x0a00, 1, 2, 0, 0, 0, 0]" "ip_addr e"] assms by (simp add: entry_matches_def)
  have "ip_registry_canonicalize [0x2002, 0x0a00, 1, 2, 0, 0, 0, 0] = [0x2002, 0x0a00, 1, 2, 0, 0, 0, 0]"
    by (simp add: ip_registry_canonicalize_def irc_in_addr_is_ipv4_def)
  moreover have "ip_registry_hash [0x2002, 0x0a00, 1, 2, 0, 0, 0, 0] \<noteq> ip_registry_hash [0x2002, 0x0a00, 1, 1, 0, 0, 0, 0]"
    by (simp add: ip_registry_hash_def IP_REGISTRY_TABLE_SIZE_def)
  ultimately show "ip_registry_find (ip_registry_add empty_registry e) [0x2002, 0x0a00, 1, 2, 0, 0, 0, 0] = None"
    by (simp add: ip_registry_find_def ip_registry_add_def empty_registry_def assms Let_def)
qed

end
