(* ===== verification/Spec2Isabelle.thy ===== *)
theory Spec2Isabelle
  imports Numnicks Numnick_IP Chattr DBuf Match MatchComp MMatch IPMask Packet Ircd_String IPText Utf8 CRule Whowas Send Dispatch IPcheck
begin

text \<open>
  Verification of the IRC daemon nefarious2.

  \<^bold>\<open>The program.\<close> The daemon reads bytes from its connections into receive queues
  (\<^verbatim>\<open>ircd/dbuf.c\<close>), cuts them into lines (\<^verbatim>\<open>ircd/packet.c\<close>, \<^verbatim>\<open>ircd/s_bsd.c\<close>), looks up their source
  and command, splits their parameters and calls the command handlers (\<^verbatim>\<open>ircd/parse.c\<close>). The handlers name servers and users by base 64 numerics (\<^verbatim>\<open>ircd/numnicks.c\<close>),
  compare nicknames under the case mapping of the character tables (\<^verbatim>\<open>ircd/table_gen.c\<close>,
  \<^verbatim>\<open>ircd/ircd_string.c\<close>), match them against wildcard and address masks (\<^verbatim>\<open>ircd/match.c\<close>), decide
  with connection rules which links to make (\<^verbatim>\<open>ircd/crule.c\<close>) and keep a history of nicknames
  (\<^verbatim>\<open>ircd/whowas.c\<close>). Answers are formatted once, shared by the send queues of all recipients
  (\<^verbatim>\<open>ircd/msgq.c\<close>) and written as the sockets take them (\<^verbatim>\<open>ircd/send.c\<close>).

  \<^bold>\<open>The theories.\<close>
  \<^item> \<^verbatim>\<open>Prelude\<close>: machine types, conventions, shared lemmas on words and lists.
  \<^item> \<^verbatim>\<open>Chattr\<close>: \<^verbatim>\<open>makeTables\<close> computes the attribute and case tables; the macros of
    \<^verbatim>\<open>ircd_chattr.h\<close> read them.
  \<^item> \<^verbatim>\<open>Numnicks\<close>: the codec and the tables of servers and clients, a record \<open>numnicks\<close> that every
    operation passes on; \<^verbatim>\<open>Numnick_IP\<close>: the encoding of addresses.
  \<^item> \<^verbatim>\<open>DBuf\<close>: blocks, pool and queue. The locale \<open>byte_queue\<close> is what users of a queue rely on; the
    receive queue is an interpretation of it.
  \<^item> \<^verbatim>\<open>Packet\<close>: the line cutters for servers, handshakes and users, and \<^verbatim>\<open>read_packet\<close>; the parser,
    \<^verbatim>\<open>exit_client\<close> and the socket are parameters.
  \<^item> \<^verbatim>\<open>MsgTree\<close>: the command trie. The locale \<open>command_index\<close> is what its users rely on, and the trie is an
    interpretation of it. \<^verbatim>\<open>MsgTab\<close>: the command table, its index, and service mappings.
    \<^verbatim>\<open>Parse\<close>: \<^verbatim>\<open>parse_client\<close> and \<^verbatim>\<open>parse_server\<close> up to the tail call of a handler. \<^verbatim>\<open>Dispatch\<close>
    puts the parser into the packet handler of a server link, with the command handlers as a parameter that may change the
    tables the parser reads between two lines in any way.
  \<^item> \<^verbatim>\<open>Match\<close>, \<^verbatim>\<open>MatchComp\<close>, \<^verbatim>\<open>MMatch\<close>, \<^verbatim>\<open>IPMask\<close>: \<^verbatim>\<open>match\<close> and \<^verbatim>\<open>collapse\<close>, the compiled masks,
    \<^verbatim>\<open>mmatch\<close>, and address masks.
  \<^item> \<^verbatim>\<open>Ircd_String\<close>, \<^verbatim>\<open>Utf8\<close>: string utilities and the test for UTF-8.
  \<^item> \<^verbatim>\<open>IPText\<close>: printing addresses and parsing addresses and address masks.
  \<^item> \<^verbatim>\<open>CRule\<close>: scanner, recursive descent parser, release and evaluation of connection rules. The
    locale \<open>chain_loop\<close> is the common argument for the loops of the two operators.
  \<^item> \<^verbatim>\<open>IPcheck\<close>: the registry of networks that throttles connections, with its hash table, timer and
    16-bit clock. Its runs are a step relation with the connected clients of every network.
  \<^item> \<^verbatim>\<open>Whowas\<close>: the nickname history with its three linked lists and hash table at the level of
    pointers.
  \<^item> \<^verbatim>\<open>Msgq\<close>: the operations of \<^verbatim>\<open>msgq.c\<close>; \<^verbatim>\<open>Msgq_Store\<close>: the invariant of the counted buffers;
    \<^verbatim>\<open>Msgq_Queue\<close>: a queue as a byte stream; \<^verbatim>\<open>Msgq_Sys\<close>: all queues as a state machine.
  \<^item> \<^verbatim>\<open>Send\<close>: \<^verbatim>\<open>deliver_it\<close> with its two transports, \<^verbatim>\<open>send_queued\<close>, \<^verbatim>\<open>send_buffer\<close>,
    \<^verbatim>\<open>flush_connections\<close>, \<^verbatim>\<open>kill_highest_sendq\<close> and the loops over the server links. The locale
    \<open>link_layer\<close> is what a broadcast needs of the function that sends to one link;
    \<^verbatim>\<open>send_buffer\<close> is an interpretation of it.

  \<^bold>\<open>State and effects.\<close> A C struct is a record, a linked list that is only walked and changed at
  its ends is a list, and where sharing or aliasing matters (nickname history, message buffers) objects live in a store
  indexed by addresses. Functions return the new state. \<open>None\<close> is undefined behaviour or a failed
  assertion of the source, so a theorem that an operation returns \<open>Some\<close> is also a theorem of memory
  safety. Integers have the width of the source where it matters (numerics, buffer lengths,
  hashes, addresses) and are natural numbers where a counter counts objects in memory.

  \<^bold>\<open>What is shown.\<close>
  \<^item> Buffers: the receive and the send queues refine byte streams. Pools, reference counts and
    counters agree with the objects that exist, memory limits hold, and nothing leaks.
  \<^item> Lines and links: lines come out as they were put in, whatever the division into blocks and
    packets. Flushing ends, sends bytes in order without loss, and empties the queue of a peer that
    accepts data. A broadcast reaches each server link once.
  \<^item> Commands: the table is free of clashes, every word is resolved to the entry it agrees with, service
    mappings come and go without a trace. Calls have a source behind their connection and parameters that fit; printed
    lines are dispatched with exactly the printed parameters, for a whole server link in order, each in the tables its predecessors have left.
  \<^item> Masks: \<^verbatim>\<open>match\<close> and the compiled matcher are equivalent to the recursive definition of wildcard
    matching, \<^verbatim>\<open>collapse\<close> keeps the meaning of a mask, and \<^verbatim>\<open>mmatch\<close>, for masks
    without backslashes, accepts a mask only if it is covered.
  \<^item> Numerics: the codec is a bijection, allocation finds a free slot whenever there is one, lookups
    stay inside the tables, and addresses survive the encoding when their zero run is contiguous.
  \<^item> Rules: parsing ends, and is inverse to printing with chains grouped to the left. An accepted rule evaluates to its meaning
    over the servers of the network when no user is named like a server of the rule; the code does not tell them apart.
  \<^item> Throttling: the registry counts the clients of every network through connections, failures, departures and
    expiry, its assertions hold, and clones are refused from the limit on, which is one connection earlier than documented.
  \<^item> History: the linked structure implements a bounded list of records, newest first.
  \<^item> Strings: case-insensitive order, deduplication of lists, intervals, colour codes, UTF-8; the text of an
    address fits its buffers and is parsed back.
  \<^item> Errors in the source are stated as theorems or lemmas of their own: a history of one record, a rule with
    a leading operator, an overlong server line, an encoded address with too many segments, a flush that stops early, the numeric
    000, addresses that are printed as others, and the wrap-arounds of the connection registry.

  \<^bold>\<open>Bounds.\<close> The parser of rules runs with fuel \<open>6 * length + 3\<close>, and the walks over the history with
  the number of records plus one; the theorems show that neither runs out. \<^verbatim>\<open>msgq_clean\<close> recurs to
  depth 2 because a copy of a buffer has no copy, and \<^verbatim>\<open>flush_connections\<close> visits each member of its list at most once.
  The loop of \<^verbatim>\<open>send_queued\<close> is a partial function that is shown to return. All other loops are
  total functions with a measure.

  \<^bold>\<open>Not modelled.\<close> The command handlers, channels, network bans and
  the client tables are left for later theories. Resolver, TLS set-up, event engines, logging, configuration and
  authorization are I/O with the system or other processes. The formatter is represented by its output,
  notices to operators are recorded but not delivered, and features are parameters. In \<^verbatim>\<open>DBuf\<close> a flush acts on
  the pool only: the receive queues that it empties when it finds a dead link are not followed, so that the accounts of the pool
  are shown for the feature \<^verbatim>\<open>HAS_FERGUSON_FLUSHER\<close> switched off, its default. The length of the nickname history is fixed
  in a run.
\<close>

end
